(* ===== verification/Prelude.thy ===== *)
theory Prelude
  imports Main "HOL-Library.Word" "HOL-Library.Monad_Syntax"
begin

text \<open>
  Shared ground of the development: Rust machine integers (\<open>i64\<close> as \<open>int\<close> with the
  wrap-around written out, \<open>u8\<close> as \<open>8 word\<close>), big- and little-endian byte strings, the
  standard library's ordered map \<open>BTreeMap\<close> as a strictly sorted association list, the
  \<open>std::cmp::Reverse\<close> key wrapper with its order, and generic list lemmas.  A panic of the
  program is the value \<^const>\<open>None\<close> of an option result throughout the development.
\<close>

named_theorems btm_simps \<open>equations of the ordered map\<close>
named_theorems codec_simps \<open>lengths and round trips of byte codecs\<close>

section \<open>Machine integers\<close>

type_synonym u8 = "8 word"
type_synonym bytes = "u8 list"

text \<open>\<open>i64\<close> arithmetic in a release build: two's complement wrap-around.\<close>

definition wrap_i64 :: "int \<Rightarrow> int" where
  "wrap_i64 x = (x + 2 ^ 63) mod 2 ^ 64 - 2 ^ 63"

definition i64_ok :: "int \<Rightarrow> bool" where
  "i64_ok x \<longleftrightarrow> - (2 ^ 63) \<le> x \<and> x < 2 ^ 63"

definition i64_add :: "int \<Rightarrow> int \<Rightarrow> int" where
  "i64_add a b = wrap_i64 (a + b)"

definition i64_sub :: "int \<Rightarrow> int \<Rightarrow> int" where
  "i64_sub a b = wrap_i64 (a - b)"

lemma wrap_i64_id: "i64_ok x \<Longrightarrow> wrap_i64 x = x"
  by (simp add: wrap_i64_def i64_ok_def)

lemma wrap_i64_ok [simp]: "i64_ok (wrap_i64 x)"
  by (simp add: wrap_i64_def i64_ok_def)

lemma i64_sub_self [simp]: "i64_sub x x = 0"
  by (simp add: i64_sub_def wrap_i64_def)

lemma i64_add_exact: "i64_ok (a + b) \<Longrightarrow> i64_add a b = a + b"
  by (simp add: i64_add_def wrap_i64_id)

lemma i64_sub_exact: "i64_ok (a - b) \<Longrightarrow> i64_sub a b = a - b"
  by (simp add: i64_sub_def wrap_i64_id)

lemma i64_ok_sub_nonneg: "i64_ok a \<Longrightarrow> 0 \<le> b \<Longrightarrow> b \<le> a \<Longrightarrow> i64_ok (a - b)"
  by (simp add: i64_ok_def)

text \<open>Incrementing a \<open>u32\<close> counter kept as \<open>nat\<close>.\<close>

definition u32_inc :: "nat \<Rightarrow> nat" where
  "u32_inc n = nat ((int n + 1) mod 2 ^ 32)"

lemma u32_inc_mod: "u32_inc n = (n + 1) mod 2 ^ 32"
  by (simp add: u32_inc_def nat_mod_distrib nat_add_distrib)

text \<open>Addition of \<open>u64\<close> values kept as \<open>nat\<close>.\<close>

definition u64_add :: "nat \<Rightarrow> nat \<Rightarrow> nat" where
  "u64_add a b = (a + b) mod 2 ^ 64"

lemma u64_add_exact: "a + b < 2 ^ 64 \<Longrightarrow> u64_add a b = a + b"
  by (simp add: u64_add_def)

section \<open>Byte strings of fixed width\<close>

fun le_bytes :: "nat \<Rightarrow> nat \<Rightarrow> bytes" where
  "le_bytes 0 x = []"
| "le_bytes (Suc n) x = of_nat (x mod 256) # le_bytes n (x div 256)"

fun le_val :: "bytes \<Rightarrow> nat" where
  "le_val [] = 0"
| "le_val (b # bs) = unat b + 256 * le_val bs"

definition be_bytes :: "nat \<Rightarrow> nat \<Rightarrow> bytes" where
  "be_bytes n x = rev (le_bytes n x)"

definition be_val :: "bytes \<Rightarrow> nat" where
  "be_val bs = le_val (rev bs)"

lemma length_le_bytes [simp, codec_simps]: "length (le_bytes n x) = n"
  by (induction n arbitrary: x) auto

lemma length_be_bytes [simp, codec_simps]: "length (be_bytes n x) = n"
  by (simp add: be_bytes_def)

lemma unat_of_nat_mod_256 [simp]: "unat (of_nat (x mod 256) :: u8) = x mod 256"
  by (simp add: unat_of_nat)

lemma le_val_le_bytes_mod: "le_val (le_bytes n x) = x mod 256 ^ n"
proof (induction n arbitrary: x)
  case 0
  then show ?case by simp
next
  case (Suc n)
  have "x mod (256 * 256 ^ n) = 256 * (x div 256 mod 256 ^ n) + x mod 256"
    by (rule mod_mult2_eq)
  with Suc.IH show ?case by simp
qed

lemma le_val_le_bytes [simp, codec_simps]: "x < 256 ^ n \<Longrightarrow> le_val (le_bytes n x) = x"
  by (simp add: le_val_le_bytes_mod)

lemma be_val_be_bytes [simp, codec_simps]: "x < 256 ^ n \<Longrightarrow> be_val (be_bytes n x) = x"
  by (simp add: be_val_def be_bytes_def)

lemma be_val_be_bytes_mod: "be_val (be_bytes n x) = x mod 256 ^ n"
  by (simp add: be_val_def be_bytes_def le_val_le_bytes_mod)

lemma unat_u8_bound: "unat (b :: u8) < 256"
  using unsigned_less [of b, where 'a = nat] by simp

lemma le_val_bound: "le_val bs < 256 ^ length bs"
proof (induction bs)
  case Nil
  then show ?case by simp
next
  case (Cons b bs)
  have "unat b + 256 * le_val bs < 256 * (le_val bs + 1)"
    using unat_u8_bound [of b] by simp
  also have "\<dots> \<le> 256 * 256 ^ length bs"
    using Cons.IH by (intro mult_le_mono2) simp
  finally show ?case by simp
qed

lemma be_val_bound: "be_val bs < 256 ^ length bs"
  using le_val_bound [of "rev bs"] by (simp add: be_val_def)

lemma be_val_2: "x < 2 ^ 16 \<Longrightarrow> be_val (be_bytes 2 x) = x"
  by (rule be_val_be_bytes) simp

lemma be_val_4: "x < 2 ^ 32 \<Longrightarrow> be_val (be_bytes 4 x) = x"
  by (rule be_val_be_bytes) simp

lemma be_val_8: "x < 2 ^ 64 \<Longrightarrow> be_val (be_bytes 8 x) = x"
  by (rule be_val_be_bytes) simp

lemma be_val_take: "be_val (take n bs) < 256 ^ n"
proof -
  have "be_val (take n bs) < 256 ^ length (take n bs)" by (rule be_val_bound)
  also have "\<dots> \<le> 256 ^ n" by (rule power_increasing) simp_all
  finally show ?thesis .
qed

lemma le_val_append: "le_val (xs @ ys) = le_val xs + 256 ^ length xs * le_val ys"
  by (induction xs) (simp_all add: algebra_simps)

lemma be_val_append: "be_val (xs @ ys) = be_val xs * 256 ^ length ys + be_val ys"
  by (simp add: be_val_def le_val_append)

text \<open>\<open>i64\<close> values on the wire: the two's complement bit pattern.\<close>

definition i64_pat :: "int \<Rightarrow> nat" where
  "i64_pat x = nat (x mod 2 ^ 64)"

definition i64_of_pat :: "nat \<Rightarrow> int" where
  "i64_of_pat n = wrap_i64 (int n)"

lemma i64_pat_bound [simp]: "i64_pat x < 256 ^ 8"
  by (simp add: i64_pat_def nat_less_iff)

lemma le_val_i64_pat [simp, codec_simps]: "le_val (le_bytes 8 (i64_pat x)) = i64_pat x"
  by (rule le_val_le_bytes) (rule i64_pat_bound)

lemma i64_of_pat_pat [simp, codec_simps]: "i64_ok x \<Longrightarrow> i64_of_pat (i64_pat x) = x"
proof -
  assume ok: "i64_ok x"
  have "(x mod 2 ^ 64 + 2 ^ 63) mod 2 ^ 64 = (x + 2 ^ 63) mod (2 ^ 64 :: int)"
    by (simp add: mod_add_left_eq)
  then have "i64_of_pat (i64_pat x) = wrap_i64 x"
    by (simp add: i64_of_pat_def i64_pat_def wrap_i64_def)
  with ok show ?thesis by (simp add: wrap_i64_id)
qed

section \<open>Ordered maps\<close>

text \<open>
  \<open>ins_by lt k v m\<close> stores \<open>v\<close> under \<open>k\<close> in an association list kept strictly
  increasing for \<open>lt\<close>, replacing an existing entry, as \<open>BTreeMap::insert\<close> does.
\<close>

type_synonym ('k, 'v) btreemap = "('k \<times> 'v) list"

fun ins_by :: "('k \<Rightarrow> 'k \<Rightarrow> bool) \<Rightarrow> 'k \<Rightarrow> 'v \<Rightarrow> ('k \<times> 'v) list \<Rightarrow> ('k \<times> 'v) list" where
  "ins_by lt k v [] = [(k, v)]"
| "ins_by lt k v (e # m) =
     (if lt k (fst e) then (k, v) # e # m
      else if lt (fst e) k then e # ins_by lt k v m
      else (k, v) # m)"

definition btm_insert :: "'k::linorder \<Rightarrow> 'v \<Rightarrow> ('k, 'v) btreemap \<Rightarrow> ('k, 'v) btreemap" where
  "btm_insert = ins_by (<)"

abbreviation btm_get :: "('k, 'v) btreemap \<Rightarrow> 'k \<Rightarrow> 'v option" where
  "btm_get m k \<equiv> map_of m k"

text \<open>Writing through the reference that \<open>get_mut\<close> returns.\<close>

definition btm_modify :: "'k \<Rightarrow> ('v \<Rightarrow> 'v) \<Rightarrow> ('k, 'v) btreemap \<Rightarrow> ('k, 'v) btreemap" where
  "btm_modify k f m = map (\<lambda>e. if fst e = k then (k, f (snd e)) else e) m"

definition btm_remove :: "'k \<Rightarrow> ('k, 'v) btreemap \<Rightarrow> ('k, 'v) btreemap" where
  "btm_remove k m = filter (\<lambda>e. fst e \<noteq> k) m"

definition btm_first :: "('k, 'v) btreemap \<Rightarrow> ('k \<times> 'v) option" where
  "btm_first m = (case m of [] \<Rightarrow> None | e # _ \<Rightarrow> Some e)"

definition btm_last :: "('k, 'v) btreemap \<Rightarrow> ('k \<times> 'v) option" where
  "btm_last m = (if m = [] then None else Some (last m))"

definition strict_total :: "('k \<Rightarrow> 'k \<Rightarrow> bool) \<Rightarrow> bool" where
  "strict_total lt \<longleftrightarrow>
     (\<forall>a. \<not> lt a a) \<and> (\<forall>a b c. lt a b \<longrightarrow> lt b c \<longrightarrow> lt a c) \<and> (\<forall>a b. lt a b \<or> a = b \<or> lt b a)"

abbreviation keys_sorted :: "('k \<Rightarrow> 'k \<Rightarrow> bool) \<Rightarrow> ('k \<times> 'v) list \<Rightarrow> bool" where
  "keys_sorted lt m \<equiv> sorted_wrt lt (map fst m)"

lemma strict_total_less [simp]: "strict_total ((<) :: 'a::linorder \<Rightarrow> 'a \<Rightarrow> bool)"
  by (auto simp: strict_total_def)

lemma strict_total_greater [simp]: "strict_total (\<lambda>a b. b < (a :: 'a::linorder))"
  by (auto simp: strict_total_def)

lemma strict_totalD:
  assumes "strict_total lt"
  shows "\<not> lt a a" and "lt a b \<Longrightarrow> lt b c \<Longrightarrow> lt a c" and "lt a b \<or> a = b \<or> lt b a"
    and "lt a b \<Longrightarrow> \<not> lt b a"
  using assms unfolding strict_total_def by blast+

lemma keys_ins_by [btm_simps]:
  "strict_total lt \<Longrightarrow> fst ` set (ins_by lt k v m) = insert k (fst ` set m)"
proof (induction m)
  case Nil
  then show ?case by simp
next
  case (Cons e m)
  then show ?case using strict_totalD(3) [OF Cons.prems, of k "fst e"] by (auto simp: image_iff)
qed

lemma sorted_ins_by [btm_simps]:
  assumes st: "strict_total lt"
  shows "keys_sorted lt m \<Longrightarrow> keys_sorted lt (ins_by lt k v m)"
proof (induction m)
  case Nil
  then show ?case by simp
next
  case (Cons e m)
  have keys: "fst ` set (ins_by lt k v m) = insert k (fst ` set m)"
    by (rule keys_ins_by [OF st])
  consider (before) "lt k (fst e)" | (same) "k = fst e" "\<not> lt k k" | (after) "lt (fst e) k" "\<not> lt k (fst e)"
    using strict_totalD(1,3,4) [OF st] by blast
  then show ?case
  proof cases
    case before
    with Cons.prems have "\<forall>x \<in> set m. lt k (fst x)"
      using strict_totalD(2) [OF st before] by auto
    with before Cons.prems show ?thesis by simp
  next
    case same
    with Cons.prems show ?thesis by simp
  next
    case after
    with Cons keys show ?thesis by auto
  qed
qed

lemma map_of_ins_by [btm_simps]:
  assumes st: "strict_total lt"
  shows "keys_sorted lt m \<Longrightarrow> map_of (ins_by lt k v m) = (map_of m)(k \<mapsto> v)"
proof (induction m)
  case Nil
  then show ?case by auto
next
  case (Cons e m)
  consider (before) "lt k (fst e)" | (same) "k = fst e" "\<not> lt k k" | (after) "lt (fst e) k" "\<not> lt k (fst e)"
    using strict_totalD(1,3,4) [OF st] by blast
  then show ?case
  proof cases
    case after
    then have "k \<noteq> fst e" using strict_totalD(1) [OF st] by auto
    with after Cons show ?thesis by (cases e) (simp, rule ext, simp)
  next
    case before
    then show ?thesis by (simp, intro ext, simp)
  next
    case same
    then show ?thesis by (simp, intro ext, simp)
  qed
qed

text \<open>A fresh key lands between the smaller and the greater ones.\<close>

lemma ins_by_fresh:
  assumes st: "strict_total lt"
  shows "keys_sorted lt m \<Longrightarrow> k \<notin> fst ` set m \<Longrightarrow>
    ins_by lt k v m = takeWhile (\<lambda>e. lt (fst e) k) m @ (k, v) # dropWhile (\<lambda>e. lt (fst e) k) m"
proof (induction m)
  case Nil
  then show ?case by simp
next
  case (Cons e m)
  then show ?case using strict_totalD(3,4) [OF st, of k "fst e"] by auto
qed

lemma map_fst_modify [simp, btm_simps]: "map fst (btm_modify k f m) = map fst m"
  by (auto simp: btm_modify_def)

lemma map_of_modify [btm_simps]:
  "map_of (btm_modify k f m) = (\<lambda>x. if x = k then map_option f (map_of m k) else map_of m x)"
  by (induction m) (auto simp: btm_modify_def fun_eq_iff)

lemma sorted_remove [btm_simps]: "keys_sorted lt m \<Longrightarrow> keys_sorted lt (btm_remove k m)"
  by (induction m) (auto simp: btm_remove_def)

lemma map_of_remove [btm_simps]: "map_of (btm_remove k m) = (map_of m)(k := None)"
  by (induction m) (auto simp: btm_remove_def fun_eq_iff)

lemma keys_sorted_distinct: "strict_total lt \<Longrightarrow> keys_sorted lt m \<Longrightarrow> distinct (map fst m)"
  by (induction m) (auto simp: strict_total_def)

text \<open>A strictly sorted association list is determined by the map it stands for.\<close>

lemma sorted_ext:
  assumes "strict_total lt"
  shows "keys_sorted lt xs \<Longrightarrow> keys_sorted lt ys \<Longrightarrow> map_of xs = map_of ys \<Longrightarrow> xs = ys"
proof (induction xs arbitrary: ys)
  case Nil
  then show ?case by (cases ys) (auto simp: fun_eq_iff split: if_splits)
next
  case (Cons x xs)
  obtain y ys' where ys: "ys = y # ys'" using Cons.prems(3) by (cases ys) (auto simp: fun_eq_iff split: if_splits)
  have keys: "fst ` set (x # xs) = fst ` set (y # ys')" using Cons.prems(3) ys by (metis dom_map_of_conv_image_fst)
  have least: "fst x = fst y"
  proof (rule ccontr)
    assume "fst x \<noteq> fst y"
    moreover have "fst x \<in> insert (fst y) (fst ` set ys')" "fst y \<in> insert (fst x) (fst ` set xs)"
      using keys by (metis list.set_intros(1) list.simps(15) image_insert imageI)+
    ultimately have "fst x \<in> fst ` set ys'" "fst y \<in> fst ` set xs" by simp_all
    then have "lt (fst y) (fst x)" "lt (fst x) (fst y)" using Cons.prems(1,2) ys by (auto simp: image_iff)
    then show False using strict_totalD(4) [OF assms] by blast
  qed
  have "snd x = snd y" using fun_cong [OF Cons.prems(3), of "fst x"] ys least by simp
  then have xy: "x = y" using least by (rule prod_eqI [rotated])
  have nx: "fst x \<notin> fst ` set xs" "fst x \<notin> fst ` set ys'"
    using keys_sorted_distinct [OF assms Cons.prems(1)] keys_sorted_distinct [OF assms Cons.prems(2)] ys xy by simp_all
  have "map_of xs = map_of ys'"
  proof
    fix k
    show "map_of xs k = map_of ys' k"
    proof (cases "k = fst x")
      case True
      then show ?thesis using nx by (metis map_of_eq_None_iff)
    next
      case False
      then show ?thesis using fun_cong [OF Cons.prems(3), of k] ys xy by simp
    qed
  qed
  then show ?case using Cons.IH [of ys'] Cons.prems ys xy by simp
qed

lemma map_key_ins_by:
  "(\<And>a b. lt (f a) (f b) \<longleftrightarrow> lt' a b) \<Longrightarrow>
   map (\<lambda>e. (f (fst e), snd e)) (ins_by lt' k v m) = ins_by lt (f k) v (map (\<lambda>e. (f (fst e), snd e)) m)"
  by (induction m) auto

section \<open>The \<open>Reverse\<close> key wrapper\<close>

datatype 'a reverse = Reverse (un_reverse: 'a)

instantiation reverse :: (linorder) linorder
begin

definition less_eq_reverse :: "'a reverse \<Rightarrow> 'a reverse \<Rightarrow> bool" where
  "less_eq_reverse x y \<longleftrightarrow> un_reverse y \<le> un_reverse x"

definition less_reverse :: "'a reverse \<Rightarrow> 'a reverse \<Rightarrow> bool" where
  "less_reverse x y \<longleftrightarrow> un_reverse y < un_reverse x"

instance
  by standard (auto simp: less_eq_reverse_def less_reverse_def intro: reverse.expand)

end

lemma less_Reverse [simp]: "Reverse a < Reverse b \<longleftrightarrow> b < a"
  by (simp add: less_reverse_def)

lemma un_reverse_less: "un_reverse x < un_reverse y \<longleftrightarrow> y < x"
  by (simp add: less_reverse_def)

section \<open>Lists\<close>

lemma filter_neq_front: "distinct (x # xs) \<Longrightarrow> filter (\<lambda>y. y \<noteq> x) xs = xs"
  by (induction xs) auto

lemma sum_list_filter_neq:
  fixes f :: "'a \<Rightarrow> int"
  shows "distinct xs \<Longrightarrow> x \<in> set xs \<Longrightarrow> sum_list (map f (filter (\<lambda>y. y \<noteq> x) xs)) = sum_list (map f xs) - f x"
proof (induction xs)
  case Nil
  then show ?case by simp
next
  case (Cons y ys)
  then show ?case by (cases "y = x") (auto simp: filter_neq_front)
qed

end
