(* ===== verification/Hp_Types.thy ===== *)
theory Hp_Types
  imports Prelude
begin

text \<open>
  Data of the high-performance matching core (\<open>crates/match-core-hp/src/types.rs\<close> and
  \<open>level.rs\<close>): sides, resting orders in tick/lot space, events, commands and the price
  level.  \<open>i64\<close> ticks and lots are \<open>int\<close>, \<open>u64\<close> identifiers and timestamps are
  \<open>nat\<close>: the engine only compares those.
\<close>

datatype side = Buy | Sell

record symbol_scale =
  price_scale :: nat
  qty_scale :: nat

record hp_order =
  o_id :: nat
  o_side :: side
  o_price_tick :: int
  o_qty_lot :: int
  o_open_lot :: int
  o_ts :: nat
  o_client_id :: nat

definition limit :: "side \<Rightarrow> int \<Rightarrow> int \<Rightarrow> nat \<Rightarrow> hp_order" where
  "limit s price_tick qty_lot client_id =
     \<lparr>o_id = 0, o_side = s, o_price_tick = price_tick, o_qty_lot = qty_lot,
      o_open_lot = qty_lot, o_ts = 0, o_client_id = client_id\<rparr>"

datatype hp_event =
    Fill (f_maker_id: nat) (f_taker_id: nat) (f_maker_client_id: nat) (f_taker_client_id: nat)
         (f_price_tick: int) (f_qty_lot: int) (f_maker_open_lot: int) (f_taker_open_lot: int)
  | Rest (r_id: nat) (r_client_id: nat) (r_side: side) (r_price_tick: int) (r_qty_lot: int)
  | Revoke (v_id: nat) (v_client_id: nat) (v_reason: nat)

datatype hp_command =
    Limit (c_side: side) (c_price_tick: int) (c_qty_lot: int) (c_ts: nat) (c_client_id: nat)
  | Cancel (c_id: nat)
  | Market (c_side: side) (c_qty_lot: int) (c_ts: nat) (c_max_fills: "nat option") (c_client_id: nat)

section \<open>A price level\<close>

record level =
  total_lot :: int
  ids :: "nat list"

definition level_default :: level where
  "level_default = \<lparr>total_lot = 0, ids = []\<rparr>"

definition level_push :: "nat \<Rightarrow> int \<Rightarrow> level \<Rightarrow> level" where
  "level_push oid lot l = l\<lparr>ids := ids l @ [oid], total_lot := i64_add (total_lot l) lot\<rparr>"

definition level_clear :: "level \<Rightarrow> level" where
  "level_clear l = l\<lparr>total_lot := 0, ids := []\<rparr>"

text \<open>The side an order trades against, and which of two ticks of a side ranks first.\<close>

fun opposite :: "side \<Rightarrow> side" where
  "opposite Buy = Sell"
| "opposite Sell = Buy"

fun better :: "side \<Rightarrow> int \<Rightarrow> int \<Rightarrow> bool" where
  "better Buy a b = (b < a)"
| "better Sell a b = (a < b)"

lemma better_strict_total [simp]: "strict_total (better s)"
  by (cases s) (auto simp: strict_total_def)

lemma better_antisym: "\<not> better s a b \<Longrightarrow> \<not> better s b a \<Longrightarrow> a = b"
  by (cases s) auto

lemma better_trans: "better s a b \<Longrightarrow> better s b c \<Longrightarrow> better s a c"
  by (cases s) auto

lemma better_irrefl [simp]: "\<not> better s a a"
  by (cases s) auto

lemma better_asym: "better s a b \<Longrightarrow> \<not> better s b a"
  by (cases s) auto

lemma opposite_neq [simp]: "opposite s \<noteq> s" "s \<noteq> opposite s"
  by (cases s; simp)+

lemma opposite_opposite [simp]: "opposite (opposite s) = s"
  by (cases s) simp_all

lemma better_opposite: "better (opposite s) a b = better s b a"
  by (cases s) auto

lemma level_clear_default [simp]: "level_clear l = level_default"
  by (simp add: level_clear_def level_default_def)

end
