(* ===== verification/Order_Store.thy ===== *)
theory Order_Store
  imports Hp_Types
begin

text \<open>
  The order slots with their free list (\<open>crates/match-core-hp/src/order_store.rs\<close>).  A
  \<open>Vec\<close> is a list; \<open>push\<close> and \<open>pop\<close> work at its end.  Identifiers are one-based slot
  numbers.  \<^term>\<open>store_inv\<close> ties slots, free list and live counter together; every
  operation keeps it, and \<open>insert\<close> reaches no out-of-range slot under it.
\<close>

record order_store =
  slots :: "hp_order option list"
  free :: "nat list"
  live :: nat

definition store_new :: order_store where
  "store_new = \<lparr>slots = [], free = [], live = 0\<rparr>"

definition store_with_capacity :: "nat \<Rightarrow> order_store" where
  "store_with_capacity cap = \<lparr>slots = [], free = [], live = 0\<rparr>"

definition live_len :: "order_store \<Rightarrow> nat" where
  "live_len st = live st"

text \<open>\<open>insert\<close>: the popped or fresh identifier, with the slot write's bounds check.\<close>

definition store_insert :: "hp_order \<Rightarrow> order_store \<Rightarrow> (order_store \<times> nat) option" where
  "store_insert ord st =
     (let (st1, oid) =
        (if free st \<noteq> [] then (st\<lparr>free := butlast (free st)\<rparr>, last (free st))
         else (st\<lparr>slots := slots st @ [None]\<rparr>, length (slots st) + 1))
      in if oid = 0 \<or> length (slots st1) \<le> oid - 1 then None
         else Some (st1\<lparr>slots := (slots st1)[oid - 1 := Some (ord\<lparr>o_id := oid\<rparr>)],
                        live := live st1 + 1\<rparr>, oid))"

definition store_get :: "order_store \<Rightarrow> nat \<Rightarrow> hp_order option" where
  "store_get st oid =
     (if oid = 0 then None
      else if oid - 1 < length (slots st) then slots st ! (oid - 1) else None)"

text \<open>Writing through \<open>get_mut\<close>: the identified order, when present, is updated in place.\<close>

definition store_modify :: "nat \<Rightarrow> (hp_order \<Rightarrow> hp_order) \<Rightarrow> order_store \<Rightarrow> order_store" where
  "store_modify oid f st =
     (case store_get st oid of
        None \<Rightarrow> st
      | Some ord \<Rightarrow> st\<lparr>slots := (slots st)[oid - 1 := Some (f ord)]\<rparr>)"

definition store_remove :: "nat \<Rightarrow> order_store \<Rightarrow> order_store \<times> hp_order option" where
  "store_remove oid st =
     (case store_get st oid of
        None \<Rightarrow> (st, None)
      | Some ord \<Rightarrow>
          (st\<lparr>slots := (slots st)[oid - 1 := None], free := free st @ [oid], live := live st - 1\<rparr>,
           Some ord))"

definition store_contains :: "order_store \<Rightarrow> nat \<Rightarrow> bool" where
  "store_contains st oid \<longleftrightarrow> store_get st oid \<noteq> None"

section \<open>Invariant\<close>

definition occupied :: "order_store \<Rightarrow> nat" where
  "occupied st = length (filter (\<lambda>x. \<not> Option.is_none x) (slots st))"

definition store_inv :: "order_store \<Rightarrow> bool" where
  "store_inv st \<longleftrightarrow>
     distinct (free st) \<and>
     (\<forall>oid. oid \<in> set (free st) \<longleftrightarrow> oid \<noteq> 0 \<and> oid \<le> length (slots st) \<and> slots st ! (oid - 1) = None) \<and>
     (\<forall>oid ord. store_get st oid = Some ord \<longrightarrow> o_id ord = oid) \<and>
     live st = occupied st"

text \<open>The identifier the next \<open>insert\<close> hands out.\<close>

definition next_id :: "order_store \<Rightarrow> nat" where
  "next_id st = (if free st \<noteq> [] then last (free st) else length (slots st) + 1)"

section \<open>Lemmas\<close>

lemma store_get_zero [simp]: "store_get st 0 = None"
  by (simp add: store_get_def)

lemma store_get_new [simp]: "store_get store_new oid = None"
  by (simp add: store_get_def store_new_def)

lemma store_with_capacity_new [simp]: "store_with_capacity cap = store_new"
  by (simp add: store_with_capacity_def store_new_def)

lemma store_inv_new [simp]: "store_inv store_new"
  by (auto simp: store_inv_def store_new_def occupied_def store_get_def)

lemma store_invD:
  assumes "store_inv st"
  shows "store_get st oid = Some ord \<Longrightarrow> o_id ord = oid" and "live st = occupied st"
  using assms by (auto simp: store_inv_def)

lemma occupied_set_none:
  "i < length xs \<Longrightarrow> xs ! i = Some v \<Longrightarrow>
   Suc (length (filter (\<lambda>x. \<not> Option.is_none x) (xs[i := None]))) = length (filter (\<lambda>x. \<not> Option.is_none x) xs)"
  by (induction xs arbitrary: i) (auto split: nat.splits)

lemma occupied_set_some:
  "i < length xs \<Longrightarrow> xs ! i = None \<Longrightarrow>
   length (filter (\<lambda>x. \<not> Option.is_none x) (xs[i := Some v])) = Suc (length (filter (\<lambda>x. \<not> Option.is_none x) xs))"
  by (induction xs arbitrary: i) (auto split: nat.splits)

lemma occupied_keep:
  "i < length xs \<Longrightarrow> xs ! i = Some v \<Longrightarrow>
   length (filter (\<lambda>x. \<not> Option.is_none x) (xs[i := Some w])) = length (filter (\<lambda>x. \<not> Option.is_none x) xs)"
  by (induction xs arbitrary: i) (auto split: nat.splits)

lemma store_get_bounds:
  "store_get st oid = Some ord \<Longrightarrow>
     oid \<noteq> 0 \<and> oid - 1 < length (slots st) \<and> slots st ! (oid - 1) = Some ord"
  by (auto simp: store_get_def split: if_splits)

lemma store_get_update [simp]:
  "store_get (store_modify oid f st) x =
     (if x = oid then map_option f (store_get st oid) else store_get st x)"
  by (auto simp: store_modify_def store_get_def nth_list_update split: option.splits)

lemma occupied_update [simp]: "occupied (store_modify oid f st) = occupied st"
  by (auto simp: store_modify_def occupied_def split: option.splits
      dest!: store_get_bounds intro!: occupied_keep)

lemma free_update [simp]: "free (store_modify oid f st) = free st"
  by (simp add: store_modify_def split: option.splits)

lemma length_slots_update [simp]: "length (slots (store_modify oid f st)) = length (slots st)"
  by (simp add: store_modify_def split: option.splits)

lemma live_update [simp]: "live (store_modify oid f st) = live st"
  by (simp add: store_modify_def split: option.splits)

lemma next_id_update [simp]: "next_id (store_modify oid f st) = next_id st"
  by (simp add: next_id_def)

lemma slots_none_iff:
  "oid \<noteq> 0 \<Longrightarrow> oid \<le> length (slots st) \<Longrightarrow> slots st ! (oid - 1) = None \<longleftrightarrow> store_get st oid = None"
  by (auto simp: store_get_def)

lemma store_inv_free_iff:
  "store_inv st \<Longrightarrow>
   oid \<in> set (free st) \<longleftrightarrow> oid \<noteq> 0 \<and> oid \<le> length (slots st) \<and> store_get st oid = None"
  by (auto simp: store_inv_def store_get_def)

lemma store_invI:
  assumes "distinct (free st)"
    and "\<And>oid. oid \<in> set (free st) \<longleftrightarrow> oid \<noteq> 0 \<and> oid \<le> length (slots st) \<and> store_get st oid = None"
    and "\<And>oid ord. store_get st oid = Some ord \<Longrightarrow> o_id ord = oid"
    and "live st = occupied st"
  shows "store_inv st"
  unfolding store_inv_def using assms slots_none_iff by blast

lemma store_inv_update:
  assumes inv: "store_inv st" and keep: "\<And>ord. o_id (f ord) = o_id ord"
  shows "store_inv (store_modify oid f st)"
proof (rule store_invI)
  show "distinct (free (store_modify oid f st))" using inv by (simp add: store_inv_def)
  show "x \<in> set (free (store_modify oid f st)) \<longleftrightarrow>
      x \<noteq> 0 \<and> x \<le> length (slots (store_modify oid f st)) \<and> store_get (store_modify oid f st) x = None" for x
    using store_inv_free_iff [OF inv, of x] by auto
  show "o_id ord = x" if "store_get (store_modify oid f st) x = Some ord" for x ord
    using that store_invD(1) [OF inv] keep by (auto split: if_splits)
  show "live (store_modify oid f st) = occupied (store_modify oid f st)"
    using store_invD(2) [OF inv] by simp
qed

section \<open>Removal\<close>

lemma store_remove_snd [simp]: "snd (store_remove oid st) = store_get st oid"
  by (simp add: store_remove_def split: option.splits)

lemma store_get_remove [simp]:
  "store_get (fst (store_remove oid st)) x = (if x = oid then None else store_get st x)"
  by (auto simp: store_remove_def store_get_def nth_list_update split: option.splits)

lemma occupied_remove:
  "store_get st oid = Some ord \<Longrightarrow> Suc (occupied (fst (store_remove oid st))) = occupied st"
  by (auto simp: store_remove_def occupied_def dest!: store_get_bounds intro!: occupied_set_none)

lemma store_remove_absent: "store_get st oid = None \<Longrightarrow> fst (store_remove oid st) = st"
  by (simp add: store_remove_def)

lemma store_remove_fields:
  assumes "store_get st oid = Some ord"
  shows "free (fst (store_remove oid st)) = free st @ [oid]"
    and "length (slots (fst (store_remove oid st))) = length (slots st)"
    and "live (fst (store_remove oid st)) = live st - 1"
  using assms by (simp_all add: store_remove_def)

lemma store_inv_remove:
  assumes inv: "store_inv st"
  shows "store_inv (fst (store_remove oid st))"
proof (cases "store_get st oid")
  case None
  then show ?thesis using inv by (simp add: store_remove_absent)
next
  case (Some ord)
  note f = store_remove_fields [OF Some]
  note b = store_get_bounds [OF Some]
  show ?thesis
  proof (rule store_invI)
    show "distinct (free (fst (store_remove oid st)))"
      using inv Some store_inv_free_iff [OF inv, of oid] f by (auto simp: store_inv_def)
    show "x \<in> set (free (fst (store_remove oid st))) \<longleftrightarrow>
        x \<noteq> 0 \<and> x \<le> length (slots (fst (store_remove oid st))) \<and> store_get (fst (store_remove oid st)) x = None" for x
      using store_inv_free_iff [OF inv, of x] b f by auto
    show "o_id ord' = x" if "store_get (fst (store_remove oid st)) x = Some ord'" for x ord'
      using that store_invD(1) [OF inv] by (auto split: if_splits)
    show "live (fst (store_remove oid st)) = occupied (fst (store_remove oid st))"
      using occupied_remove [OF Some] store_invD(2) [OF inv] f by simp
  qed
qed

section \<open>Insertion\<close>

lemma next_id_fresh: "store_inv st \<Longrightarrow> store_get st (next_id st) = None"
  using store_inv_free_iff [of st "last (free st)"]
  by (auto simp: next_id_def store_get_def)

lemma next_id_pos: "store_inv st \<Longrightarrow> next_id st \<noteq> 0"
  using store_inv_free_iff [of st "last (free st)"] last_in_set [of "free st"]
  by (auto simp: next_id_def)

lemma store_insert_ok:
  assumes inv: "store_inv st"
  obtains st' where "store_insert ord st = Some (st', next_id st)"
    and "store_inv st'"
    and "\<And>x. store_get st' x = (if x = next_id st then Some (ord\<lparr>o_id := next_id st\<rparr>) else store_get st x)"
    and "live st' = live st + 1"
proof (cases "free st = []")
  case True
  define st' where "st' = st\<lparr>slots := slots st @ [Some (ord\<lparr>o_id := next_id st\<rparr>)], live := live st + 1\<rparr>"
  have n: "next_id st = length (slots st) + 1" using True by (simp add: next_id_def)
  have ins: "store_insert ord st = Some (st', next_id st)"
    using True n by (simp add: store_insert_def st'_def)
  have get: "store_get st' x = (if x = next_id st then Some (ord\<lparr>o_id := next_id st\<rparr>) else store_get st x)" for x
    using n by (auto simp: st'_def store_get_def nth_append)
  have "store_inv st'"
  proof (rule store_invI)
    show "distinct (free st')" using inv by (simp add: st'_def store_inv_def)
    show "x \<in> set (free st') \<longleftrightarrow> x \<noteq> 0 \<and> x \<le> length (slots st') \<and> store_get st' x = None" for x
      using store_inv_free_iff [OF inv, of x] True n unfolding get by (auto simp: st'_def)
    show "o_id ord' = x" if "store_get st' x = Some ord'" for x ord'
      using that store_invD(1) [OF inv] unfolding get by (auto split: if_splits)
    show "live st' = occupied st'"
      using store_invD(2) [OF inv] by (simp add: st'_def occupied_def)
  qed
  then show thesis using that [OF ins] get by (simp add: st'_def)
next
  case False
  define oid where "oid = last (free st)"
  define st' where "st' = st\<lparr>free := butlast (free st),
      slots := (slots st)[oid - 1 := Some (ord\<lparr>o_id := oid\<rparr>)], live := live st + 1\<rparr>"
  have n: "next_id st = oid" using False by (simp add: next_id_def oid_def)
  have mem: "oid \<in> set (free st)" using False by (simp add: oid_def)
  then have b: "oid \<noteq> 0" "oid \<le> length (slots st)" "store_get st oid = None"
    using store_inv_free_iff [OF inv, of oid] by auto
  have ins: "store_insert ord st = Some (st', next_id st)"
    using False b n by (simp add: store_insert_def st'_def oid_def)
  have get: "store_get st' x = (if x = oid then Some (ord\<lparr>o_id := oid\<rparr>) else store_get st x)" for x
    using b by (auto simp: st'_def store_get_def nth_list_update)
  have free_split: "free st = butlast (free st) @ [oid]"
    using False by (simp add: oid_def)
  have dist: "distinct (butlast (free st) @ [oid])"
    using inv free_split by (simp add: store_inv_def)
  have "store_inv st'"
  proof (rule store_invI)
    show "distinct (free st')" using dist by (simp add: st'_def)
    show "x \<in> set (free st') \<longleftrightarrow> x \<noteq> 0 \<and> x \<le> length (slots st') \<and> store_get st' x = None" for x
    proof -
      have "x \<in> set (butlast (free st)) \<longleftrightarrow> x \<in> set (free st) \<and> x \<noteq> oid"
        using dist by (subst (2) free_split) auto
      then show ?thesis
        using store_inv_free_iff [OF inv, of x] unfolding get by (auto simp: st'_def)
    qed
    show "o_id ord' = x" if "store_get st' x = Some ord'" for x ord'
      using that store_invD(1) [OF inv] unfolding get by (auto split: if_splits)
    have "slots st ! (oid - 1) = None" using b slots_none_iff by blast
    then show "live st' = occupied st'"
      using store_invD(2) [OF inv] b by (simp add: st'_def occupied_def occupied_set_some)
  qed
  then show thesis using that [OF ins] get n by (simp add: st'_def)
qed

end
