(* ===== verification/Level_Index.thy ===== *)
theory Level_Index
  imports Order_Store
begin

text \<open>
  The ordered price-level maps of \<open>crates/match-core-hp/src/level_index.rs\<close>: the trait
  \<open>LevelIndex\<close> is the locale \<open>level_index\<close>, its \<open>BTreeMap\<close> implementations for asks
  (lowest tick first) and bids (highest tick first, keys wrapped in \<open>Reverse\<close>) are the
  definitions \<open>ask_*\<close> and \<open>bid_*\<close>.  The contract is stated on \<open>levels\<close>, the best-first
  list of price levels; the laws a book relies on (what the best tick is after an insertion
  or a removal) are proved once in the locale.
\<close>

section \<open>The two BTreeMap implementations\<close>

type_synonym ask_index = "(int, level) btreemap"
type_synonym bid_index = "(int reverse, level) btreemap"

definition ask_get :: "ask_index \<Rightarrow> int \<Rightarrow> level option" where
  "ask_get m tick = btm_get m tick"

definition ask_modify :: "int \<Rightarrow> (level \<Rightarrow> level) \<Rightarrow> ask_index \<Rightarrow> ask_index" where
  "ask_modify tick f m = btm_modify tick f m"

definition ask_contains :: "ask_index \<Rightarrow> int \<Rightarrow> bool" where
  "ask_contains m tick \<longleftrightarrow> btm_get m tick \<noteq> None"

definition ask_insert :: "int \<Rightarrow> level \<Rightarrow> ask_index \<Rightarrow> ask_index" where
  "ask_insert tick lvl m = btm_insert tick lvl m"

definition ask_remove :: "int \<Rightarrow> ask_index \<Rightarrow> ask_index \<times> level option" where
  "ask_remove tick m = (btm_remove tick m, btm_get m tick)"

definition ask_best_tick :: "ask_index \<Rightarrow> int option" where
  "ask_best_tick m = map_option fst (btm_first m)"

definition ask_depth :: "ask_index \<Rightarrow> nat \<Rightarrow> (int \<times> int) list" where
  "ask_depth m n = map (\<lambda>(t, lvl). (t, total_lot lvl)) (take n m)"

text \<open>\<open>get_or_insert_with\<close>: the map after \<open>entry(tick).or_insert_with(f)\<close>.\<close>

definition ask_entry :: "int \<Rightarrow> level \<Rightarrow> ask_index \<Rightarrow> ask_index" where
  "ask_entry tick lvl m = (case btm_get m tick of Some _ \<Rightarrow> m | None \<Rightarrow> btm_insert tick lvl m)"

definition bid_get :: "bid_index \<Rightarrow> int \<Rightarrow> level option" where
  "bid_get m tick = btm_get m (Reverse tick)"

definition bid_modify :: "int \<Rightarrow> (level \<Rightarrow> level) \<Rightarrow> bid_index \<Rightarrow> bid_index" where
  "bid_modify tick f m = btm_modify (Reverse tick) f m"

definition bid_contains :: "bid_index \<Rightarrow> int \<Rightarrow> bool" where
  "bid_contains m tick \<longleftrightarrow> btm_get m (Reverse tick) \<noteq> None"

definition bid_insert :: "int \<Rightarrow> level \<Rightarrow> bid_index \<Rightarrow> bid_index" where
  "bid_insert tick lvl m = btm_insert (Reverse tick) lvl m"

definition bid_remove :: "int \<Rightarrow> bid_index \<Rightarrow> bid_index \<times> level option" where
  "bid_remove tick m = (btm_remove (Reverse tick) m, btm_get m (Reverse tick))"

definition bid_best_tick :: "bid_index \<Rightarrow> int option" where
  "bid_best_tick m = map_option (un_reverse \<circ> fst) (btm_first m)"

definition bid_depth :: "bid_index \<Rightarrow> nat \<Rightarrow> (int \<times> int) list" where
  "bid_depth m n = map (\<lambda>(t, lvl). (un_reverse t, total_lot lvl)) (take n m)"

definition bid_entry :: "int \<Rightarrow> level \<Rightarrow> bid_index \<Rightarrow> bid_index" where
  "bid_entry tick lvl m =
     (case btm_get m (Reverse tick) of Some _ \<Rightarrow> m | None \<Rightarrow> btm_insert (Reverse tick) lvl m)"

section \<open>The trait as an interface\<close>

definition best_of :: "(int \<times> level) list \<Rightarrow> int option" where
  "best_of lv = (case lv of [] \<Rightarrow> None | e # _ \<Rightarrow> Some (fst e))"

definition depth_of :: "(int \<times> level) list \<Rightarrow> nat \<Rightarrow> (int \<times> int) list" where
  "depth_of lv n = map (\<lambda>e. (fst e, total_lot (snd e))) (take n lv)"

locale level_index =
  fixes lt :: "int \<Rightarrow> int \<Rightarrow> bool"
    and ix_inv :: "'i \<Rightarrow> bool"
    and levels :: "'i \<Rightarrow> (int \<times> level) list"
    and ix_empty :: 'i
    and ix_get :: "'i \<Rightarrow> int \<Rightarrow> level option"
    and ix_modify :: "int \<Rightarrow> (level \<Rightarrow> level) \<Rightarrow> 'i \<Rightarrow> 'i"
    and ix_contains :: "'i \<Rightarrow> int \<Rightarrow> bool"
    and ix_insert :: "int \<Rightarrow> level \<Rightarrow> 'i \<Rightarrow> 'i"
    and ix_remove :: "int \<Rightarrow> 'i \<Rightarrow> 'i \<times> level option"
    and ix_best :: "'i \<Rightarrow> int option"
    and ix_depth :: "'i \<Rightarrow> nat \<Rightarrow> (int \<times> int) list"
  assumes lt_total: "strict_total lt"
    and inv_empty: "ix_inv ix_empty"
    and levels_empty: "levels ix_empty = []"
    and inv_sorted: "ix_inv m \<Longrightarrow> keys_sorted lt (levels m)"
    and get_levels: "ix_inv m \<Longrightarrow> ix_get m t = map_of (levels m) t"
    and contains_levels: "ix_inv m \<Longrightarrow> ix_contains m t \<longleftrightarrow> map_of (levels m) t \<noteq> None"
    and inv_modify: "ix_inv m \<Longrightarrow> ix_inv (ix_modify t f m)"
    and levels_modify: "ix_inv m \<Longrightarrow> levels (ix_modify t f m) = btm_modify t f (levels m)"
    and inv_insert: "ix_inv m \<Longrightarrow> ix_inv (ix_insert t l m)"
    and levels_insert: "ix_inv m \<Longrightarrow> levels (ix_insert t l m) = ins_by lt t l (levels m)"
    and inv_remove: "ix_inv m \<Longrightarrow> ix_inv (fst (ix_remove t m))"
    and levels_remove: "ix_inv m \<Longrightarrow> levels (fst (ix_remove t m)) = btm_remove t (levels m)"
    and removed_levels: "ix_inv m \<Longrightarrow> snd (ix_remove t m) = map_of (levels m) t"
    and best_levels: "ix_inv m \<Longrightarrow> ix_best m = best_of (levels m)"
    and depth_levels: "ix_inv m \<Longrightarrow> ix_depth m n = depth_of (levels m) n"
begin

text \<open>The best tick is stored, and every stored tick is it or ranks after it.\<close>

lemma best_is_extreme:
  assumes "ix_inv m" and "ix_best m = Some b"
  shows "ix_get m b \<noteq> None" and "ix_get m t \<noteq> None \<Longrightarrow> t = b \<or> lt b t"
proof -
  from assms obtain l rest where lv: "levels m = (b, l) # rest"
    by (auto simp: best_levels best_of_def split: list.splits)
  then show "ix_get m b \<noteq> None" using assms(1) by (simp add: get_levels)
  assume "ix_get m t \<noteq> None"
  then have "t \<in> fst ` set (levels m)"
    using assms(1) by (auto simp: get_levels dest!: map_of_SomeD) force
  with inv_sorted [OF assms(1)] lv show "t = b \<or> lt b t" by auto
qed

lemma best_none_iff: "ix_inv m \<Longrightarrow> ix_best m = None \<longleftrightarrow> (\<forall>t. ix_get m t = None)"
  by (cases "levels m") (auto simp: best_levels best_of_def get_levels)

text \<open>The cache update after an insertion: the new tick wins exactly if it ranks first.\<close>

lemma best_insert:
  assumes "ix_inv m"
  shows "ix_best (ix_insert t l m) =
    (case ix_best m of None \<Rightarrow> Some t | Some b \<Rightarrow> if lt t b then Some t else Some b)"
  using strict_totalD(3) [OF lt_total, of t] assms
  by (cases "levels m") (auto simp: best_levels inv_insert levels_insert best_of_def)

lemma best_modify: "ix_inv m \<Longrightarrow> ix_best (ix_modify t f m) = ix_best m"
  by (cases "levels m") (auto simp: best_levels inv_modify levels_modify best_of_def btm_modify_def)

text \<open>Removing a tick other than the best one leaves the best one.\<close>

lemma best_remove_other:
  "ix_inv m \<Longrightarrow> ix_best m \<noteq> Some t \<Longrightarrow> ix_best (fst (ix_remove t m)) = ix_best m"
  by (cases "levels m") (auto simp: best_levels inv_remove levels_remove best_of_def btm_remove_def)

lemma get_insert: "ix_inv m \<Longrightarrow> ix_get (ix_insert t l m) x = (if x = t then Some l else ix_get m x)"
  by (simp add: get_levels inv_insert levels_insert map_of_ins_by [OF lt_total] inv_sorted)

lemma get_remove: "ix_inv m \<Longrightarrow> ix_get (fst (ix_remove t m)) x = (if x = t then None else ix_get m x)"
  by (simp add: get_levels inv_remove levels_remove map_of_remove)

lemma depth_sorted: "ix_inv m \<Longrightarrow> keys_sorted lt (ix_depth m n)"
  using inv_sorted [of m]
  by (simp add: depth_levels depth_of_def comp_def sorted_wrt_take flip: take_map)

lemma depth_head: "ix_inv m \<Longrightarrow> map_option fst (btm_first (ix_depth m (Suc n))) = ix_best m"
  by (cases "levels m") (auto simp: depth_levels depth_of_def best_levels best_of_def btm_first_def)

end

section \<open>The implementations meet the interface\<close>

definition ask_levels :: "ask_index \<Rightarrow> (int \<times> level) list" where
  "ask_levels m = m"

definition ask_inv :: "ask_index \<Rightarrow> bool" where
  "ask_inv m \<longleftrightarrow> keys_sorted (<) m"

definition bid_levels :: "bid_index \<Rightarrow> (int \<times> level) list" where
  "bid_levels m = map (\<lambda>e. (un_reverse (fst e), snd e)) m"

definition bid_inv :: "bid_index \<Rightarrow> bool" where
  "bid_inv m \<longleftrightarrow> keys_sorted (<) m"

lemmas ask_defs = ask_levels_def ask_inv_def ask_get_def ask_modify_def ask_contains_def
  ask_insert_def ask_remove_def ask_best_tick_def ask_depth_def btm_insert_def

lemmas bid_defs = bid_levels_def bid_inv_def bid_get_def bid_modify_def bid_contains_def
  bid_insert_def bid_remove_def bid_best_tick_def bid_depth_def btm_insert_def

lemma map_of_unreverse: "map_of (bid_levels m) t = map_of m (Reverse t)"
  by (induction m) (auto simp: bid_levels_def)

lemma sorted_unreverse: "keys_sorted (better Buy) (bid_levels m) \<longleftrightarrow> keys_sorted (<) m"
  by (induction m) (auto simp: bid_levels_def less_reverse_def)

lemma unreverse_remove: "bid_levels (btm_remove (Reverse t) m) = btm_remove t (bid_levels m)"
  by (induction m) (auto simp: bid_levels_def btm_remove_def)

lemma unreverse_modify: "bid_levels (btm_modify (Reverse t) f m) = btm_modify t f (bid_levels m)"
  by (induction m) (auto simp: bid_levels_def btm_modify_def)

lemma unreverse_insert: "bid_levels (ins_by (<) (Reverse t) l m) = ins_by (better Buy) t l (bid_levels m)"
  unfolding bid_levels_def
  using map_key_ins_by [of "better Buy" un_reverse "(<)" "Reverse t" l m]
  by (simp add: less_reverse_def)

interpretation asks_ix: level_index "better Sell" ask_inv ask_levels "[]"
  ask_get ask_modify ask_contains ask_insert ask_remove ask_best_tick ask_depth
proof unfold_locales
  fix m :: ask_index and t l f n
  have st: "better Sell = (<)" by (intro ext) simp
  show "strict_total (better Sell)" by simp
  show "ask_inv []" "ask_levels [] = []" by (simp_all add: ask_defs)
  assume inv: "ask_inv m"
  then show "keys_sorted (better Sell) (ask_levels m)" by (simp add: ask_defs st)
  show "ask_inv (ask_insert t l m)" using inv by (simp add: ask_defs sorted_ins_by)
  show "ask_levels (ask_insert t l m) = ins_by (better Sell) t l (ask_levels m)"
    by (simp add: ask_defs st)
  show "ask_inv (fst (ask_remove t m))" using inv by (simp add: ask_defs sorted_remove)
  show "ask_inv (ask_modify t f m)" using inv by (simp add: ask_defs)
qed (auto simp: ask_defs best_of_def depth_of_def btm_first_def split: list.splits)

interpretation bids_ix: level_index "better Buy" bid_inv bid_levels "[]"
  bid_get bid_modify bid_contains bid_insert bid_remove bid_best_tick bid_depth
proof unfold_locales
  fix m :: bid_index and t l f n
  show "strict_total (better Buy)" by simp
  show "bid_inv []" "bid_levels [] = []" by (simp_all add: bid_defs)
  show "bid_get m t = map_of (bid_levels m) t" "bid_contains m t \<longleftrightarrow> map_of (bid_levels m) t \<noteq> None"
    "snd (bid_remove t m) = map_of (bid_levels m) t"
    by (simp_all add: map_of_unreverse bid_get_def bid_contains_def bid_remove_def)
  show "bid_levels (bid_modify t f m) = btm_modify t f (bid_levels m)"
    by (simp add: bid_modify_def unreverse_modify)
  show "bid_levels (fst (bid_remove t m)) = btm_remove t (bid_levels m)"
    by (simp add: bid_remove_def unreverse_remove)
  show "bid_levels (bid_insert t l m) = ins_by (better Buy) t l (bid_levels m)"
    by (simp add: bid_insert_def btm_insert_def unreverse_insert)
  assume inv: "bid_inv m"
  then show "keys_sorted (better Buy) (bid_levels m)" by (simp add: bid_inv_def sorted_unreverse)
  show "bid_inv (bid_insert t l m)" using inv by (simp add: bid_defs sorted_ins_by)
  show "bid_inv (fst (bid_remove t m))" using inv by (simp add: bid_defs sorted_remove)
  show "bid_inv (bid_modify t f m)" using inv by (simp add: bid_defs)
qed (auto simp: bid_defs best_of_def depth_of_def btm_first_def take_map split: list.splits)

end
