(* ===== verification/Hp_Book.thy ===== *)
theory Hp_Book
  imports Level_Index
begin

text \<open>
  The price-level book of \<open>crates/match-core-hp/src/book.rs\<close>: two level maps, the order
  store, cached best ticks and a pool of recycled levels.  References that a Rust method
  returns for writing are modelled by a function applied at that place.  The invariant
  \<open>book_inv P\<close> says that the levels hold exactly the stored orders other than the
  in-flight ones of \<open>P\<close>, each once, on its own side and tick, with the caches exact; the
  abstraction \<open>queue\<close> is the best-first, first-in-first-out list of a side's orders.
\<close>

section \<open>State\<close>

definition LEVEL_POOL_CAP :: nat where
  "LEVEL_POOL_CAP = 256"

record book =
  bids :: bid_index
  asks :: ask_index
  store :: order_store
  best_bid_tick :: "int option"
  best_ask_tick :: "int option"
  level_pool :: "level list"

definition book_new :: book where
  "book_new = \<lparr>bids = [], asks = [], store = store_new, best_bid_tick = None,
               best_ask_tick = None, level_pool = []\<rparr>"

definition book_with_capacity :: "nat \<Rightarrow> book" where
  "book_with_capacity order_cap =
     (let prefill = max (LEVEL_POOL_CAP div 4) 16
      in \<lparr>bids = [], asks = [], store = store_with_capacity order_cap, best_bid_tick = None,
          best_ask_tick = None, level_pool = replicate prefill level_default\<rparr>)"

section \<open>Operations\<close>

definition best_ask :: "book \<Rightarrow> int option" where
  "best_ask bk = best_ask_tick bk"

definition best_bid :: "book \<Rightarrow> int option" where
  "best_bid bk = best_bid_tick bk"

definition book_level :: "book \<Rightarrow> side \<Rightarrow> int \<Rightarrow> level option" where
  "book_level bk s tick =
     (case s of Buy \<Rightarrow> bid_get (bids bk) tick | Sell \<Rightarrow> ask_get (asks bk) tick)"

definition front_id :: "book \<Rightarrow> side \<Rightarrow> int \<Rightarrow> nat option" where
  "front_id bk s tick =
     (case book_level bk s tick of
        None \<Rightarrow> None
      | Some lvl \<Rightarrow> (case ids lvl of [] \<Rightarrow> None | x # _ \<Rightarrow> Some x))"

definition depth :: "book \<Rightarrow> side \<Rightarrow> nat \<Rightarrow> (int \<times> int) list" where
  "depth bk s n = (case s of Buy \<Rightarrow> bid_depth (bids bk) n | Sell \<Rightarrow> ask_depth (asks bk) n)"

definition take_level :: "book \<Rightarrow> level \<times> book" where
  "take_level bk =
     (if level_pool bk = [] then (level_default, bk)
      else (last (level_pool bk), bk\<lparr>level_pool := butlast (level_pool bk)\<rparr>))"

definition recycle_level :: "level \<Rightarrow> book \<Rightarrow> book" where
  "recycle_level lvl bk =
     (if length (level_pool bk) < LEVEL_POOL_CAP
      then bk\<lparr>level_pool := level_pool bk @ [level_clear lvl]\<rparr> else bk)"

text \<open>\<open>level_mut side tick\<close>, with \<open>f\<close> the write its caller makes through the reference.\<close>

definition level_mut :: "side \<Rightarrow> int \<Rightarrow> (level \<Rightarrow> level) \<Rightarrow> book \<Rightarrow> book" where
  "level_mut s tick f bk =
     (case s of
        Buy \<Rightarrow>
          if bid_contains (bids bk) tick then bk\<lparr>bids := bid_modify tick f (bids bk)\<rparr>
          else (let (lvl, bk1) = take_level bk
                in bk1\<lparr>bids := bid_modify tick f (bid_entry tick lvl (bids bk1))\<rparr>)
      | Sell \<Rightarrow>
          if ask_contains (asks bk) tick then bk\<lparr>asks := ask_modify tick f (asks bk)\<rparr>
          else (let (lvl, bk1) = take_level bk
                in bk1\<lparr>asks := ask_modify tick f (ask_entry tick lvl (asks bk1))\<rparr>))"

definition note_insert :: "side \<Rightarrow> int \<Rightarrow> book \<Rightarrow> book" where
  "note_insert s tick bk =
     (case s of
        Buy \<Rightarrow> if (case best_bid_tick bk of None \<Rightarrow> True | Some b \<Rightarrow> tick > b)
               then bk\<lparr>best_bid_tick := Some tick\<rparr> else bk
      | Sell \<Rightarrow> if (case best_ask_tick bk of None \<Rightarrow> True | Some a \<Rightarrow> tick < a)
               then bk\<lparr>best_ask_tick := Some tick\<rparr> else bk)"

definition note_remove_level :: "side \<Rightarrow> int \<Rightarrow> book \<Rightarrow> book" where
  "note_remove_level s tick bk =
     (case s of
        Buy \<Rightarrow> if best_bid_tick bk = Some tick
               then bk\<lparr>best_bid_tick := bid_best_tick (bids bk)\<rparr> else bk
      | Sell \<Rightarrow> if best_ask_tick bk = Some tick
               then bk\<lparr>best_ask_tick := ask_best_tick (asks bk)\<rparr> else bk)"

text \<open>\<open>level_mut_for_remove\<close>: the write through \<open>get_mut\<close> of an existing level.\<close>

definition level_mut_for_remove :: "side \<Rightarrow> int \<Rightarrow> (level \<Rightarrow> level) \<Rightarrow> book \<Rightarrow> book" where
  "level_mut_for_remove s tick f bk =
     (case s of
        Buy \<Rightarrow> bk\<lparr>bids := bid_modify tick f (bids bk)\<rparr>
      | Sell \<Rightarrow> bk\<lparr>asks := ask_modify tick f (asks bk)\<rparr>)"

definition recycle_removed :: "level option \<Rightarrow> book \<Rightarrow> book" where
  "recycle_removed removed bk = (case removed of None \<Rightarrow> bk | Some lvl \<Rightarrow> recycle_level lvl bk)"

definition remove_empty_level :: "side \<Rightarrow> int \<Rightarrow> book \<Rightarrow> book" where
  "remove_empty_level s tick bk =
     (let (bk1, removed) =
        (case s of
           Buy \<Rightarrow> (bk\<lparr>bids := fst (bid_remove tick (bids bk))\<rparr>, snd (bid_remove tick (bids bk)))
         | Sell \<Rightarrow> (bk\<lparr>asks := fst (ask_remove tick (asks bk))\<rparr>, snd (ask_remove tick (asks bk))))
      in note_remove_level s tick (recycle_removed removed bk1))"

definition insert_limit :: "hp_order \<Rightarrow> book \<Rightarrow> (book \<times> nat) option" where
  "insert_limit ord bk =
     (case store_insert ord (store bk) of
        None \<Rightarrow> None
      | Some (st, oid) \<Rightarrow>
          Some (note_insert (o_side ord) (o_price_tick ord)
                 (level_mut (o_side ord) (o_price_tick ord) (level_push oid (o_open_lot ord))
                   (bk\<lparr>store := st\<rparr>)), oid))"

text \<open>\<open>rest\<close> panics when the order is not stored.\<close>

definition rest :: "nat \<Rightarrow> book \<Rightarrow> book option" where
  "rest oid bk =
     (case store_get (store bk) oid of
        None \<Rightarrow> None
      | Some ord \<Rightarrow>
          Some (note_insert (o_side ord) (o_price_tick ord)
                 (level_mut (o_side ord) (o_price_tick ord) (level_push oid (o_open_lot ord)) bk)))"

definition debit :: "int \<Rightarrow> level \<Rightarrow> level" where
  "debit lot lvl =
     (let t = i64_sub (total_lot lvl) lot in lvl\<lparr>total_lot := (if t < 0 then 0 else t)\<rparr>)"

definition remove_from_level :: "side \<Rightarrow> int \<Rightarrow> nat \<Rightarrow> int \<Rightarrow> book \<Rightarrow> book" where
  "remove_from_level s tick oid open_lot bk =
     (case book_level bk s tick of
        None \<Rightarrow> bk
      | Some lvl \<Rightarrow>
          let upd = (\<lambda>l. debit open_lot (l\<lparr>ids := filter (\<lambda>x. x \<noteq> oid) (ids l)\<rparr>));
              bk1 = level_mut_for_remove s tick upd bk
          in if ids (upd lvl) = [] then remove_empty_level s tick bk1 else bk1)"

definition cancel :: "nat \<Rightarrow> book \<Rightarrow> book \<times> bool" where
  "cancel oid bk =
     (case store_remove oid (store bk) of
        (_, None) \<Rightarrow> (bk, False)
      | (st, Some ord) \<Rightarrow>
          (remove_from_level (o_side ord) (o_price_tick ord) oid (o_open_lot ord) (bk\<lparr>store := st\<rparr>), True))"

definition pop_id :: "nat \<Rightarrow> level \<Rightarrow> level" where
  "pop_id oid l =
     l\<lparr>ids := (if ids l \<noteq> [] \<and> hd (ids l) = oid then tl (ids l) else filter (\<lambda>x. x \<noteq> oid) (ids l))\<rparr>"

definition fill_order :: "nat \<Rightarrow> int \<Rightarrow> book \<Rightarrow> book \<times> hp_order option" where
  "fill_order oid qty_lot bk =
     (case store_get (store bk) oid of
        None \<Rightarrow> (bk, None)
      | Some ord \<Rightarrow>
          let s = o_side ord;
              tick = o_price_tick ord;
              remaining = i64_sub (o_open_lot ord) qty_lot;
              bk1 = bk\<lparr>store := store_modify oid
                        (\<lambda>ord. ord\<lparr>o_open_lot := (if remaining < 0 then 0 else remaining)\<rparr>) (store bk)\<rparr>
          in (case book_level bk1 s tick of
                None \<Rightarrow>
                  let bk2 = (if remaining \<le> 0 then bk1\<lparr>store := fst (store_remove oid (store bk1))\<rparr> else bk1)
                  in (bk2, store_get (store bk2) oid)
              | Some lvl \<Rightarrow>
                  if remaining \<le> 0 then
                    let upd = (\<lambda>l. pop_id oid (debit qty_lot l));
                        bk2 = level_mut_for_remove s tick upd bk1;
                        bk3 = (if ids (upd lvl) = [] then remove_empty_level s tick bk2 else bk2)
                    in (bk3\<lparr>store := fst (store_remove oid (store bk3))\<rparr>, None)
                  else
                    let bk2 = level_mut_for_remove s tick (debit qty_lot) bk1
                    in (bk2, store_get (store bk2) oid)))"

section \<open>Views, invariant and abstraction\<close>

definition book_levels :: "book \<Rightarrow> side \<Rightarrow> (int \<times> level) list" where
  "book_levels bk s = (case s of Buy \<Rightarrow> bid_levels (bids bk) | Sell \<Rightarrow> ask_levels (asks bk))"

definition best_cache :: "book \<Rightarrow> side \<Rightarrow> int option" where
  "best_cache bk s = (case s of Buy \<Rightarrow> best_bid bk | Sell \<Rightarrow> best_ask bk)"

text \<open>The identifiers of a side with their ticks, in matching order.\<close>

definition tagged :: "(int \<times> level) list \<Rightarrow> (int \<times> nat) list" where
  "tagged lv = concat (map (\<lambda>e. map (Pair (fst e)) (ids (snd e))) lv)"

definition resting_ok :: "side \<Rightarrow> order_store \<Rightarrow> int \<times> nat \<Rightarrow> bool" where
  "resting_ok s st p =
     (case store_get st (snd p) of
        None \<Rightarrow> False
      | Some ord \<Rightarrow> o_side ord = s \<and> o_price_tick ord = fst p \<and> 0 < o_open_lot ord \<and> i64_ok (o_open_lot ord))"

definition levels_inv :: "side \<Rightarrow> order_store \<Rightarrow> (int \<times> level) list \<Rightarrow> bool" where
  "levels_inv s st lv \<longleftrightarrow>
     keys_sorted (better s) lv \<and> (\<forall>e \<in> set lv. ids (snd e) \<noteq> []) \<and>
     distinct (map snd (tagged lv)) \<and> (\<forall>p \<in> set (tagged lv). resting_ok s st p)"

definition book_inv :: "nat set \<Rightarrow> book \<Rightarrow> bool" where
  "book_inv P bk \<longleftrightarrow>
     store_inv (store bk) \<and>
     (\<forall>s. levels_inv s (store bk) (book_levels bk s) \<and> best_cache bk s = best_of (book_levels bk s)) \<and>
     (\<forall>oid ord. store_get (store bk) oid = Some ord \<longrightarrow>
        oid \<in> P \<or> (o_price_tick ord, oid) \<in> set (tagged (book_levels bk (o_side ord)))) \<and>
     (\<forall>s. P \<inter> snd ` set (tagged (book_levels bk s)) = {}) \<and>
     (\<forall>lvl \<in> set (level_pool bk). lvl = level_default)"

definition order_at :: "order_store \<Rightarrow> nat \<Rightarrow> hp_order" where
  "order_at st oid = (case store_get st oid of Some ord \<Rightarrow> ord | None \<Rightarrow> limit Buy 0 0 0)"

definition queue :: "book \<Rightarrow> side \<Rightarrow> hp_order list" where
  "queue bk s = map (order_at (store bk) \<circ> snd) (tagged (book_levels bk s))"


section \<open>Lists of levels\<close>

lemma tagged_Nil [simp]: "tagged [] = []"
  by (simp add: tagged_def)

lemma tagged_Cons [simp]: "tagged (e # lv) = map (Pair (fst e)) (ids (snd e)) @ tagged lv"
  by (simp add: tagged_def)

lemma tagged_keys: "fst ` set (tagged lv) \<subseteq> fst ` set lv"
  by (induction lv) auto

lemma tagged_modify_ids:
  "(\<And>l. ids (f l) = ids l) \<Longrightarrow> tagged (btm_modify t f lv) = tagged lv"
  by (induction lv) (auto simp: btm_modify_def)

text \<open>Appending an identifier to a level, opening the level if it does not exist.\<close>

definition levels_push :: "side \<Rightarrow> int \<Rightarrow> nat \<Rightarrow> int \<Rightarrow> (int \<times> level) list \<Rightarrow> (int \<times> level) list" where
  "levels_push s t oid lot lv =
     (if map_of lv t \<noteq> None then btm_modify t (level_push oid lot) lv
      else ins_by (better s) t (level_push oid lot level_default) lv)"

lemma levels_push_Cons:
  assumes "keys_sorted (better s) (e # lv)"
  shows "levels_push s t oid lot (e # lv) =
    (if better s t (fst e) then (t, level_push oid lot level_default) # e # lv
     else if better s (fst e) t then e # levels_push s t oid lot lv
     else (t, level_push oid lot (snd e)) # lv)"
proof -
  have off: "map_of lv t = None" if "\<not> better s (fst e) t"
    using that assms by (auto simp: map_of_eq_None_iff)
  have id: "btm_modify t f lv = lv" if "\<not> better s (fst e) t" for f
    using that assms by (auto simp: btm_modify_def intro!: map_idI)
  consider (lt) "better s t (fst e)" "\<not> better s (fst e) t" "fst e \<noteq> t"
    | (gt) "better s (fst e) t" "\<not> better s t (fst e)" "fst e \<noteq> t" | (eq) "fst e = t"
    using better_antisym better_asym by (metis better_irrefl)
  then show ?thesis
  proof cases
    case lt
    then show ?thesis using off by (simp add: levels_push_def)
  next
    case gt
    then show ?thesis by (cases e) (simp add: levels_push_def btm_modify_def)
  next
    case eq
    then show ?thesis using id by (cases e) (auto simp: levels_push_def btm_modify_def)
  qed
qed

lemma while_skip_level:
  assumes "\<not> better s t u"
  shows "takeWhile (\<lambda>p. \<not> better s t (fst p)) (map (Pair u) xs @ ys) =
           map (Pair u) xs @ takeWhile (\<lambda>p. \<not> better s t (fst p)) ys"
    and "dropWhile (\<lambda>p. \<not> better s t (fst p)) (map (Pair u) xs @ ys) =
           dropWhile (\<lambda>p. \<not> better s t (fst p)) ys"
  using assms by (induction xs) auto

text \<open>A pushed identifier stands after everything at its tick or better, before the rest.\<close>

lemma tagged_push:
  "keys_sorted (better s) lv \<Longrightarrow>
   tagged (levels_push s t oid lot lv) =
     takeWhile (\<lambda>p. \<not> better s t (fst p)) (tagged lv) @ (t, oid) #
     dropWhile (\<lambda>p. \<not> better s t (fst p)) (tagged lv)"
proof (induction lv)
  case Nil
  then show ?case by (simp add: levels_push_def level_push_def level_default_def)
next
  case (Cons e lv)
  have tl: "keys_sorted (better s) lv" and "\<forall>x \<in> fst ` set lv. better s (fst e) x"
    using Cons.prems by auto
  then have hd: "\<forall>p \<in> set (tagged lv). better s (fst e) (fst p)"
    using tagged_keys [of lv] by blast
  consider (lt) "better s t (fst e)" | (gt) "better s (fst e) t" "\<not> better s t (fst e)" | (eq) "fst e = t"
    using better_antisym by (metis better_asym)
  then show ?case
  proof cases
    case lt
    have "\<forall>p \<in> set (tagged (e # lv)). better s t (fst p)"
      using lt hd better_trans [OF lt] by auto
    then have "takeWhile (\<lambda>p. \<not> better s t (fst p)) (tagged (e # lv)) = []"
      "dropWhile (\<lambda>p. \<not> better s t (fst p)) (tagged (e # lv)) = tagged (e # lv)"
      by (cases "tagged (e # lv)"; simp)+
    moreover have "tagged (levels_push s t oid lot (e # lv)) = (t, oid) # tagged (e # lv)"
      using lt by (simp add: levels_push_Cons [OF Cons.prems] level_push_def level_default_def)
    ultimately show ?thesis by simp
  next
    case gt
    then show ?thesis using Cons.IH [OF tl]
      by (simp add: levels_push_Cons [OF Cons.prems] while_skip_level)
  next
    case eq
    have "\<forall>p \<in> set (tagged lv). better s t (fst p)"
      using eq hd by auto
    then have "takeWhile (\<lambda>p. \<not> better s t (fst p)) (tagged lv) = []"
      "dropWhile (\<lambda>p. \<not> better s t (fst p)) (tagged lv) = tagged lv"
      by (cases "tagged lv"; simp)+
    then show ?thesis using eq
      by (simp add: levels_push_Cons [OF Cons.prems] while_skip_level level_push_def)
  qed
qed

lemma levels_push_keys: "fst ` set (levels_push s t oid lot lv) = insert t (fst ` set lv)"
proof (cases "map_of lv t")
  case None
  then show ?thesis by (simp add: levels_push_def keys_ins_by)
next
  case (Some l)
  then have "t \<in> fst ` set lv" by (force dest: map_of_SomeD)
  moreover have "fst ` set (btm_modify t f lv) = fst ` set lv" for f
    by (metis list.set_map map_fst_modify)
  ultimately show ?thesis using Some by (auto simp: levels_push_def)
qed

lemma levels_push_sorted: "keys_sorted (better s) lv \<Longrightarrow> keys_sorted (better s) (levels_push s t oid lot lv)"
  by (simp add: levels_push_def sorted_ins_by)

lemma set_ins_by_subset: "set (ins_by lt k v m) \<subseteq> insert (k, v) (set m)"
  by (induction m) auto

lemma levels_push_nonempty:
  "\<forall>e \<in> set lv. ids (snd e) \<noteq> [] \<Longrightarrow> \<forall>e \<in> set (levels_push s t oid lot lv). ids (snd e) \<noteq> []"
  using set_ins_by_subset [of "better s" t "level_push oid lot level_default" lv]
  by (auto simp: levels_push_def btm_modify_def level_push_def)

lemma best_of_push:
  "keys_sorted (better s) lv \<Longrightarrow> best_of (levels_push s t oid lot lv) =
     (case best_of lv of None \<Rightarrow> Some t | Some b \<Rightarrow> if better s t b then Some t else Some b)"
proof (cases lv)
  case Nil
  then show ?thesis by (simp add: levels_push_def best_of_def)
next
  case (Cons e lv')
  moreover assume "keys_sorted (better s) lv"
  ultimately show ?thesis using better_antisym [of s t "fst e"]
    by (auto simp: levels_push_Cons best_of_def)
qed

text \<open>Taking an identifier off its level, closing the level when it was the last one.\<close>

definition levels_drop :: "int \<Rightarrow> (level \<Rightarrow> level) \<Rightarrow> (int \<times> level) list \<Rightarrow> (int \<times> level) list" where
  "levels_drop t f lv =
     (case map_of lv t of
        None \<Rightarrow> lv
      | Some l \<Rightarrow> if ids (f l) = [] then btm_remove t lv else btm_modify t f lv)"

lemma modify_absent: "map_of lv t = None \<Longrightarrow> btm_modify t f lv = lv"
  by (induction lv) (auto simp: btm_modify_def split: if_splits)

lemma remove_absent: "map_of lv t = None \<Longrightarrow> btm_remove t lv = lv"
  by (induction lv) (auto simp: btm_remove_def split: if_splits)

lemma filter_tagged_absent: "oid \<notin> snd ` set ps \<Longrightarrow> filter (\<lambda>p. snd p \<noteq> oid) ps = ps"
  by (induction ps) auto

lemma tagged_mem: "map_of lv t = Some l \<Longrightarrow> x \<in> set (ids l) \<Longrightarrow> (t, x) \<in> set (tagged lv)"
  by (induction lv) (auto split: if_splits)

lemma tagged_memE:
  assumes "(t, x) \<in> set (tagged lv)" and "distinct (map fst lv)"
  obtains l where "map_of lv t = Some l" and "x \<in> set (ids l)"
  using assms by (fastforce simp: tagged_def)

lemma filter_Pair: "filter (\<lambda>p. snd p \<noteq> oid) (map (Pair t) xs) = map (Pair t) (filter (\<lambda>x. x \<noteq> oid) xs)"
  by (induction xs) auto

lemma tagged_drop:
  assumes "distinct (map fst lv)" and "distinct (map snd (tagged lv))"
    and "map_of lv t = Some l" and "oid \<in> set (ids l)"
    and "ids (f l) = filter (\<lambda>x. x \<noteq> oid) (ids l)"
  shows "tagged (levels_drop t f lv) = filter (\<lambda>p. snd p \<noteq> oid) (tagged lv)"
  using assms
proof (induction lv)
  case Nil
  then show ?case by simp
next
  case (Cons e lv)
  show ?case
  proof (cases "fst e = t")
    case True
    have absent: "map_of lv t = None" using Cons.prems(1) True by (simp add: map_of_eq_None_iff)
    have l: "snd e = l" using Cons.prems(3) True by simp
    have "oid \<notin> snd ` set (tagged lv)" using Cons.prems(2,4) l by auto
    then have "filter (\<lambda>p. snd p \<noteq> oid) (tagged lv) = tagged lv" by (rule filter_tagged_absent)
    moreover have "btm_remove t (e # lv) = lv"
      using True remove_absent [OF absent] by (simp add: btm_remove_def)
    moreover have "btm_modify t f (e # lv) = (t, f l) # lv"
      using True l modify_absent [OF absent, of f] by (simp add: btm_modify_def)
    ultimately show ?thesis
      using True l Cons.prems(5) by (simp add: levels_drop_def filter_Pair)
  next
    case False
    have m: "map_of lv t = Some l" using Cons.prems(3) False by auto
    then have "oid \<in> snd ` set (tagged lv)" using tagged_mem Cons.prems(4) by force
    then have "oid \<notin> set (ids (snd e))" using Cons.prems(2) by auto
    then have "filter (\<lambda>x. x \<noteq> oid) (ids (snd e)) = ids (snd e)" by (auto intro: filter_True)
    moreover have "levels_drop t f (e # lv) = e # levels_drop t f lv"
      using False m Cons.prems(3) by (simp add: levels_drop_def btm_remove_def btm_modify_def)
    ultimately show ?thesis using Cons m by (simp add: filter_Pair)
  qed
qed

lemma levels_drop_sorted: "keys_sorted lt lv \<Longrightarrow> keys_sorted lt (levels_drop t f lv)"
  by (simp add: levels_drop_def sorted_remove split: option.split)

lemma levels_drop_nonempty:
  assumes "\<forall>e \<in> set lv. ids (snd e) \<noteq> []" and "distinct (map fst lv)"
  shows "\<forall>e \<in> set (levels_drop t f lv). ids (snd e) \<noteq> []"
proof (cases "map_of lv t")
  case None
  then show ?thesis using assms by (simp add: levels_drop_def)
next
  case (Some l)
  then have "snd e = l" if "e \<in> set lv" "fst e = t" for e
    using that assms(2) Some by (metis map_of_is_SomeI option.inject prod.collapse)
  then have "\<forall>e \<in> set (btm_modify t f lv). ids (snd e) \<noteq> []" if "ids (f l) \<noteq> []"
    using that assms(1) by (auto simp: btm_modify_def)
  then show ?thesis using assms(1) Some by (simp add: levels_drop_def btm_remove_def)
qed

lemma best_of_remove_other: "best_of lv \<noteq> Some t \<Longrightarrow> best_of (btm_remove t lv) = best_of lv"
  by (cases lv) (auto simp: best_of_def btm_remove_def)

lemma best_of_modify [simp]: "best_of (btm_modify t f lv) = best_of lv"
  by (cases lv) (auto simp: best_of_def btm_modify_def)

lemma modify_ins_by:
  assumes "strict_total lt"
  shows "keys_sorted lt m \<Longrightarrow> btm_modify k f (ins_by lt k v m) = ins_by lt k (f v) m"
proof (induction m)
  case Nil
  then show ?case by (simp add: btm_modify_def)
next
  case (Cons e m)
  have other: "btm_modify k f m = m" if "lt k (fst e) \<or> k = fst e"
  proof (rule modify_absent)
    have "\<forall>x \<in> set m. lt k (fst x)"
      using that Cons.prems strict_totalD(2) [OF assms, of k "fst e"] by auto
    then show "map_of m k = None"
      using strict_totalD(1) [OF assms] by (auto simp: map_of_eq_None_iff)
  qed
  consider (before) "lt k (fst e)" "fst e \<noteq> k" | (same) "k = fst e" "\<not> lt k k"
    | (after) "lt (fst e) k" "\<not> lt k (fst e)" "fst e \<noteq> k"
    using strict_totalD(1,3,4) [OF assms] by metis
  then show ?case
    by cases (use Cons other in \<open>simp_all add: btm_modify_def\<close>)
qed

section \<open>What the operations do to the views\<close>

definition pool_ok :: "book \<Rightarrow> bool" where
  "pool_ok bk \<longleftrightarrow> (\<forall>lvl \<in> set (level_pool bk). lvl = level_default)"

definition index_ok :: "book \<Rightarrow> bool" where
  "index_ok bk \<longleftrightarrow> (\<forall>s. keys_sorted (better s) (book_levels bk s))"

lemma view_simps [simp]:
  "book_levels bk Buy = bid_levels (bids bk)" "book_levels bk Sell = ask_levels (asks bk)"
  "best_cache bk Buy = best_bid_tick bk" "best_cache bk Sell = best_ask_tick bk"
  by (simp_all add: book_levels_def best_cache_def best_bid_def best_ask_def)

lemma all_side: "(\<forall>s. P s) \<longleftrightarrow> P Buy \<and> P Sell"
  by (metis side.exhaust)

lemma index_okD: "index_ok bk \<Longrightarrow> bid_inv (bids bk) \<and> ask_inv (asks bk)"
proof -
  have "better Sell = (<)" by (intro ext) simp
  then show "index_ok bk \<Longrightarrow> bid_inv (bids bk) \<and> ask_inv (asks bk)"
    by (simp add: index_ok_def all_side bid_inv_def sorted_unreverse ask_inv_def ask_levels_def del: better.simps)
qed

lemma book_level_view: "index_ok bk \<Longrightarrow> book_level bk s t = map_of (book_levels bk s) t"
  using index_okD [of bk] by (cases s) (simp_all add: book_level_def asks_ix.get_levels bids_ix.get_levels)

lemma depth_view: "index_ok bk \<Longrightarrow> depth bk s n = depth_of (book_levels bk s) n"
  using index_okD [of bk] by (cases s) (simp_all add: depth_def asks_ix.depth_levels bids_ix.depth_levels)

lemma views_store [simp]:
  "book_levels (bk\<lparr>store := st\<rparr>) s = book_levels bk s"
  "best_cache (bk\<lparr>store := st\<rparr>) s = best_cache bk s"
  "pool_ok (bk\<lparr>store := st\<rparr>) = pool_ok bk"
  "index_ok (bk\<lparr>store := st\<rparr>) = index_ok bk"
  by (cases s; simp add: pool_ok_def index_ok_def all_side)+

lemma take_level_views:
  assumes "pool_ok bk"
  shows "fst (take_level bk) = level_default" "bids (snd (take_level bk)) = bids bk"
    "asks (snd (take_level bk)) = asks bk" "store (snd (take_level bk)) = store bk"
    "best_cache (snd (take_level bk)) s = best_cache bk s" "pool_ok (snd (take_level bk))"
  using assms
  by (cases s; auto simp: take_level_def pool_ok_def dest: in_set_butlastD)+

end
