(* ===== verification/Hp_Book_Inv.thy ===== *)
theory Hp_Book_Inv
  imports Hp_Book "HOL-Library.Multiset"
begin

text \<open>
  Every operation of the book keeps \<^const>\<open>book_inv\<close>, and its effect on the abstract
  queues: resting inserts behind all orders of the same or a better tick, cancelling
  filters one order out, filling replaces or drops it.
\<close>

section \<open>Placing and dropping an identifier\<close>

definition caches_ok :: "book \<Rightarrow> bool" where
  "caches_ok bk \<longleftrightarrow> (\<forall>s. best_cache bk s = best_of (book_levels bk s))"

definition place :: "side \<Rightarrow> int \<Rightarrow> nat \<Rightarrow> int \<Rightarrow> book \<Rightarrow> book" where
  "place s t oid lot bk = note_insert s t (level_mut s t (level_push oid lot) bk)"

definition take_off :: "side \<Rightarrow> int \<Rightarrow> (level \<Rightarrow> level) \<Rightarrow> level \<Rightarrow> book \<Rightarrow> book" where
  "take_off s t f lvl bk =
     (if ids (f lvl) = [] then remove_empty_level s t (level_mut_for_remove s t f bk)
      else level_mut_for_remove s t f bk)"

lemma caches_ok_store [simp]: "caches_ok (bk\<lparr>store := st\<rparr>) = caches_ok bk"
  by (simp add: caches_ok_def)

lemma level_mut_views:
  assumes ix: "index_ok bk" and pool: "pool_ok bk"
  shows "book_levels (level_mut s t (level_push oid lot) bk) s' =
           (if s' = s then levels_push s t oid lot (book_levels bk s) else book_levels bk s')"
    and "best_cache (level_mut s t (level_push oid lot) bk) s' = best_cache bk s'"
    and "store (level_mut s t (level_push oid lot) bk) = store bk"
    and "pool_ok (level_mut s t (level_push oid lot) bk)"
proof -
  note inv = index_okD [OF ix]
  obtain lvl bk1 where tk: "take_level bk = (lvl, bk1)" by (cases "take_level bk")
  note tv = take_level_views [OF pool, unfolded tk, simplified]
  have srt: "keys_sorted (better s) (book_levels bk s)" using ix by (simp add: index_ok_def)
  note new = modify_ins_by [OF better_strict_total srt, of t "level_push oid lot" level_default]
  show "book_levels (level_mut s t (level_push oid lot) bk) s' =
      (if s' = s then levels_push s t oid lot (book_levels bk s) else book_levels bk s')"
  proof (cases s)
    case Buy
    then show ?thesis using inv tv tk new
      by (cases s') (auto simp: level_mut_def levels_push_def bids_ix.contains_levels bids_ix.levels_modify
          bids_ix.levels_insert bids_ix.inv_insert bid_entry_def bid_insert_def [symmetric]
          map_of_unreverse split: option.split)
  next
    case Sell
    have "better Sell = (<)" by (intro ext) simp
    then show ?thesis using Sell tv tk new
      by (cases s') (auto simp: level_mut_def levels_push_def ask_contains_def ask_modify_def
          ask_entry_def btm_insert_def ask_levels_def split: option.split)
  qed
  show "best_cache (level_mut s t (level_push oid lot) bk) s' = best_cache bk s'"
    using tv(5) [of s'] tk by (cases s; cases s') (auto simp: level_mut_def)
  show "store (level_mut s t (level_push oid lot) bk) = store bk"
    using tv tk by (cases s) (auto simp: level_mut_def)
  show "pool_ok (level_mut s t (level_push oid lot) bk)"
    using tv tk pool by (cases s) (auto simp: level_mut_def pool_ok_def)
qed

lemma note_insert_views [simp]:
  "book_levels (note_insert s t bk) s' = book_levels bk s'"
  "store (note_insert s t bk) = store bk"
  "pool_ok (note_insert s t bk) = pool_ok bk"
  by (cases s; cases s'; simp add: note_insert_def pool_ok_def)+

lemma note_insert_cache:
  "best_cache (note_insert s t bk) s' =
     (if s' = s then (case best_cache bk s of None \<Rightarrow> Some t | Some b \<Rightarrow> if better s t b then Some t else Some b)
      else best_cache bk s')"
  by (cases s; cases s') (auto simp: note_insert_def split: option.splits)

lemma place_views:
  assumes "index_ok bk" and "pool_ok bk" and "caches_ok bk"
  shows "book_levels (place s t oid lot bk) s' =
           (if s' = s then levels_push s t oid lot (book_levels bk s) else book_levels bk s')"
    and "store (place s t oid lot bk) = store bk"
    and "pool_ok (place s t oid lot bk)"
    and "caches_ok (place s t oid lot bk)"
proof -
  note v = level_mut_views [OF assms(1,2)]
  show "book_levels (place s t oid lot bk) s' =
      (if s' = s then levels_push s t oid lot (book_levels bk s) else book_levels bk s')" for s'
    by (simp add: place_def v)
  show "store (place s t oid lot bk) = store bk" "pool_ok (place s t oid lot bk)"
    by (simp_all add: place_def v)
  have srt: "keys_sorted (better s) (book_levels bk s)" using assms(1) by (simp add: index_ok_def)
  show "caches_ok (place s t oid lot bk)"
    using assms(3) by (simp add: caches_ok_def place_def v note_insert_cache best_of_push [OF srt])
qed

lemma for_remove_views:
  assumes ix: "index_ok bk"
  shows "book_levels (level_mut_for_remove s t f bk) s' =
           (if s' = s then btm_modify t f (book_levels bk s) else book_levels bk s')"
    and "best_cache (level_mut_for_remove s t f bk) s' = best_cache bk s'"
    and "store (level_mut_for_remove s t f bk) = store bk"
    and "pool_ok (level_mut_for_remove s t f bk) = pool_ok bk"
    and "index_ok (level_mut_for_remove s t f bk)"
proof -
  note inv = index_okD [OF ix]
  show lv: "book_levels (level_mut_for_remove s t f bk) s' =
      (if s' = s then btm_modify t f (book_levels bk s) else book_levels bk s')" for s'
    using inv by (cases s; cases s') (simp_all add: level_mut_for_remove_def bids_ix.levels_modify asks_ix.levels_modify)
  show "best_cache (level_mut_for_remove s t f bk) s' = best_cache bk s'"
    "store (level_mut_for_remove s t f bk) = store bk"
    "pool_ok (level_mut_for_remove s t f bk) = pool_ok bk"
    by (cases s; cases s'; simp add: level_mut_for_remove_def pool_ok_def)+
  show "index_ok (level_mut_for_remove s t f bk)" using ix by (simp add: index_ok_def lv)
qed

lemma recycle_views [simp]:
  "bids (recycle_removed r bk) = bids bk" "asks (recycle_removed r bk) = asks bk"
  "best_bid_tick (recycle_removed r bk) = best_bid_tick bk"
  "best_ask_tick (recycle_removed r bk) = best_ask_tick bk"
  "store (recycle_removed r bk) = store bk"
  "pool_ok bk \<Longrightarrow> pool_ok (recycle_removed r bk)"
  by (auto simp: recycle_removed_def recycle_level_def pool_ok_def split: option.split)

lemma pool_ok_fields:
  "pool_ok (bk\<lparr>bids := b\<rparr>) = pool_ok bk" "pool_ok (bk\<lparr>asks := a\<rparr>) = pool_ok bk"
  "pool_ok (note_remove_level s t bk) = pool_ok bk"
  by (cases s; simp add: pool_ok_def note_remove_level_def)+

lemma remove_empty_views:
  assumes ix: "index_ok bk"
  shows "book_levels (remove_empty_level s t bk) s' =
           (if s' = s then btm_remove t (book_levels bk s) else book_levels bk s')"
    and "best_cache (remove_empty_level s t bk) s' =
           (if s' = s \<and> best_cache bk s = Some t then best_of (btm_remove t (book_levels bk s)) else best_cache bk s')"
    and "store (remove_empty_level s t bk) = store bk"
    and "pool_ok bk \<Longrightarrow> pool_ok (remove_empty_level s t bk)"
proof -
  note inv = index_okD [OF ix]
  note r = bids_ix.levels_remove asks_ix.levels_remove bids_ix.best_levels asks_ix.best_levels
    bids_ix.inv_remove asks_ix.inv_remove
  show "book_levels (remove_empty_level s t bk) s' =
      (if s' = s then btm_remove t (book_levels bk s) else book_levels bk s')"
    using inv by (cases s; cases s') (simp_all add: remove_empty_level_def note_remove_level_def Let_def r)
  show "best_cache (remove_empty_level s t bk) s' =
      (if s' = s \<and> best_cache bk s = Some t then best_of (btm_remove t (book_levels bk s)) else best_cache bk s')"
    using inv by (cases s; cases s') (simp_all add: remove_empty_level_def note_remove_level_def Let_def r)
  show "store (remove_empty_level s t bk) = store bk"
    by (cases s) (simp_all add: remove_empty_level_def note_remove_level_def Let_def)
  show "pool_ok bk \<Longrightarrow> pool_ok (remove_empty_level s t bk)"
    by (cases s) (simp_all add: remove_empty_level_def Let_def pool_ok_fields)
qed

lemma take_off_views:
  assumes ix: "index_ok bk" and pool: "pool_ok bk" and ca: "caches_ok bk"
    and l: "map_of (book_levels bk s) t = Some lvl"
  shows "book_levels (take_off s t f lvl bk) s' =
           (if s' = s then levels_drop t f (book_levels bk s) else book_levels bk s')"
    and "store (take_off s t f lvl bk) = store bk"
    and "pool_ok (take_off s t f lvl bk)"
    and "caches_ok (take_off s t f lvl bk)"
proof -
  note v = for_remove_views [OF ix] remove_empty_views [OF for_remove_views(5) [OF ix]]
  have rm: "btm_remove t (btm_modify t f lv) = btm_remove t lv" for lv :: "(int \<times> level) list"
    by (induction lv) (auto simp: btm_remove_def btm_modify_def)
  show lv: "book_levels (take_off s t f lvl bk) s' =
      (if s' = s then levels_drop t f (book_levels bk s) else book_levels bk s')" for s'
    using l by (simp add: take_off_def v rm levels_drop_def)
  show "store (take_off s t f lvl bk) = store bk" "pool_ok (take_off s t f lvl bk)"
    using pool by (simp_all add: take_off_def v)
  show "caches_ok (take_off s t f lvl bk)"
    unfolding caches_ok_def lv
    using ca l best_of_remove_other [of "book_levels bk s" t]
    by (simp add: take_off_def v rm levels_drop_def caches_ok_def)
qed

section \<open>The invariant\<close>

lemma book_invD:
  assumes "book_inv P bk"
  shows "store_inv (store bk)" and "index_ok bk" and "pool_ok bk" and "caches_ok bk"
    and "levels_inv s (store bk) (book_levels bk s)"
    and "store_get (store bk) oid = Some ord \<Longrightarrow> oid \<notin> P \<Longrightarrow>
           (o_price_tick ord, oid) \<in> set (tagged (book_levels bk (o_side ord)))"
    and "p \<in> set (tagged (book_levels bk s)) \<Longrightarrow> snd p \<notin> P"
    and "p \<in> set (tagged (book_levels bk s)) \<Longrightarrow> resting_ok s (store bk) p"
  using assms
  unfolding book_inv_def index_ok_def levels_inv_def pool_ok_def caches_ok_def by blast+

lemma book_invI:
  assumes "store_inv (store bk)" and "pool_ok bk" and "caches_ok bk"
    and "\<And>s. levels_inv s (store bk) (book_levels bk s)"
    and "\<And>oid ord. store_get (store bk) oid = Some ord \<Longrightarrow> oid \<notin> P \<Longrightarrow>
           (o_price_tick ord, oid) \<in> set (tagged (book_levels bk (o_side ord)))"
    and "\<And>s p. p \<in> set (tagged (book_levels bk s)) \<Longrightarrow> snd p \<notin> P"
  shows "book_inv P bk"
  using assms unfolding book_inv_def pool_ok_def caches_ok_def by blast

lemma levels_invI:
  assumes "keys_sorted (better s) lv" and "\<forall>e \<in> set lv. ids (snd e) \<noteq> []"
    and "distinct (map snd (tagged lv))" and "\<And>p. p \<in> set (tagged lv) \<Longrightarrow> resting_ok s st p"
  shows "levels_inv s st lv"
  using assms by (simp add: levels_inv_def)

lemma levels_invD:
  assumes "levels_inv s st lv"
  shows "keys_sorted (better s) lv" and "\<forall>e \<in> set lv. ids (snd e) \<noteq> []"
    and "distinct (map snd (tagged lv))" and "p \<in> set (tagged lv) \<Longrightarrow> resting_ok s st p"
    and "distinct (map fst lv)"
  using assms keys_sorted_distinct [OF better_strict_total] by (auto simp: levels_inv_def)

lemma book_inv_new: "book_inv {} book_new"
  by (rule book_invI)
     (simp_all add: book_new_def pool_ok_def caches_ok_def levels_inv_def all_side bid_levels_def
       ask_levels_def best_of_def split: side.splits add: book_levels_def)

lemma book_inv_with_capacity: "book_inv {} (book_with_capacity n)"
  by (rule book_invI)
     (simp_all add: book_with_capacity_def pool_ok_def caches_ok_def levels_inv_def all_side bid_levels_def
       ask_levels_def best_of_def split: side.splits add: book_levels_def)

lemma resting_okE:
  assumes "resting_ok s st p"
  obtains ord where "store_get st (snd p) = Some ord" "o_side ord = s" "o_price_tick ord = fst p"
    "0 < o_open_lot ord" "i64_ok (o_open_lot ord)"
  using assms by (auto simp: resting_ok_def split: option.splits)

lemma order_at_get [simp]: "store_get st oid = Some ord \<Longrightarrow> order_at st oid = ord"
  by (simp add: order_at_def)

lemma order_at_resting:
  assumes "resting_ok s st p"
  shows "o_price_tick (order_at st (snd p)) = fst p" and "o_side (order_at st (snd p)) = s"
    and "0 < o_open_lot (order_at st (snd p))"
  using assms by (auto elim!: resting_okE)

lemma queue_ids:
  assumes "book_inv P bk"
  shows "map o_id (queue bk s) = map snd (tagged (book_levels bk s))"
proof -
  have "o_id (order_at (store bk) (snd p)) = snd p" if "p \<in> set (tagged (book_levels bk s))" for p
    using book_invD(8) [OF assms that] store_invD(1) [OF book_invD(1) [OF assms]]
    by (auto elim!: resting_okE)
  then show ?thesis by (simp add: queue_def)
qed

section \<open>Resting an order\<close>

definition enqueue :: "side \<Rightarrow> hp_order \<Rightarrow> hp_order list \<Rightarrow> hp_order list" where
  "enqueue s ord q =
     takeWhile (\<lambda>x. \<not> better s (o_price_tick ord) (o_price_tick x)) q @ ord #
     dropWhile (\<lambda>x. \<not> better s (o_price_tick ord) (o_price_tick x)) q"

lemma rest_place:
  "store_get (store bk) oid = Some ord \<Longrightarrow>
     rest oid bk = Some (place (o_side ord) (o_price_tick ord) oid (o_open_lot ord) bk)"
  by (simp add: rest_def place_def)

lemma while_map_cong:
  assumes "\<And>p. p \<in> set ps \<Longrightarrow> P (f p) = Q p"
  shows "takeWhile P (map f ps) = map f (takeWhile Q ps)" and "dropWhile P (map f ps) = map f (dropWhile Q ps)"
  using assms by (induction ps) auto

lemma place_inv:
  assumes inv: "book_inv (insert oid P) bk" and fresh: "oid \<notin> P"
    and get: "store_get (store bk) oid = Some ord"
    and pos: "0 < o_open_lot ord" "i64_ok (o_open_lot ord)"
  defines "s0 \<equiv> o_side ord" and "t0 \<equiv> o_price_tick ord"
  defines "bk' \<equiv> place s0 t0 oid (o_open_lot ord) bk"
  shows "book_inv P bk'" and "store bk' = store bk"
    and "queue bk' s = (if s = s0 then enqueue s ord (queue bk s) else queue bk s)"
proof -
  note d = book_invD [OF inv]
  note v = place_views [OF d(2,3,4), of s0 t0 oid "o_open_lot ord", folded bk'_def]
  note li = levels_invD [OF d(5)]
  define Q where "Q = (\<lambda>p :: int \<times> nat. \<not> better s0 t0 (fst p))"
  have tg: "tagged (book_levels bk' s) =
      (if s = s0 then takeWhile Q (tagged (book_levels bk s)) @ (t0, oid) # dropWhile Q (tagged (book_levels bk s))
       else tagged (book_levels bk s))" for s
    using tagged_push [OF li(1)] by (simp add: v Q_def)
  have sp: "mset (takeWhile Q xs) + mset (dropWhile Q xs) = mset xs" for xs
    by (metis mset_append takeWhile_dropWhile_id)
  have ms: "mset (tagged (book_levels bk' s)) =
      (if s = s0 then add_mset (t0, oid) (mset (tagged (book_levels bk s))) else mset (tagged (book_levels bk s)))" for s
    by (simp add: tg sp)
  have st: "set (tagged (book_levels bk' s)) =
      (if s = s0 then insert (t0, oid) (set (tagged (book_levels bk s))) else set (tagged (book_levels bk s)))" for s
    using arg_cong [OF ms [of s], of set_mset] by (simp split: if_splits)
  have new: "oid \<notin> snd ` set (tagged (book_levels bk s))" for s using d(7) by blast
  show sv: "store bk' = store bk" by (rule v)
  show "book_inv P bk'"
  proof (rule book_invI)
    fix s
    have "distinct (map snd (tagged (book_levels bk' s)))"
    proof -
      have "mset (map snd (tagged (book_levels bk' s))) =
          (if s = s0 then mset (oid # map snd (tagged (book_levels bk s))) else mset (map snd (tagged (book_levels bk s))))"
        using ms [of s] by simp
      then show ?thesis using new [of s] li(3) [of s] by (metis distinct.simps(2) list.set_map mset_eq_imp_distinct_iff)
    qed
    moreover have "resting_ok s0 (store bk) (t0, oid)"
      using get pos by (simp add: s0_def t0_def resting_ok_def)
    then have "resting_ok s (store bk') p" if "p \<in> set (tagged (book_levels bk' s))" for p
      using that li(4) [of p s] unfolding st sv by (auto split: if_splits)
    moreover have "keys_sorted (better s) (book_levels bk' s)" "\<forall>e \<in> set (book_levels bk' s). ids (snd e) \<noteq> []"
      using levels_push_sorted [OF li(1)] levels_push_nonempty [OF li(2)] li(1,2) by (simp_all only: v split: if_splits) simp_all
    ultimately show "levels_inv s (store bk') (book_levels bk' s)" by (intro levels_invI)
  next
    show "(o_price_tick ord', x) \<in> set (tagged (book_levels bk' (o_side ord')))"
      if "store_get (store bk') x = Some ord'" "x \<notin> P" for x ord'
      using that d(6) [of x ord'] get unfolding st sv by (cases "x = oid") (auto simp: s0_def t0_def)
    show "snd p \<notin> P" if "p \<in> set (tagged (book_levels bk' s))" for s p
      using that d(7) [of p s] fresh unfolding st by (auto split: if_splits)
  qed (simp_all add: v d)
  have "Q p = (\<not> better s0 (o_price_tick ord) (o_price_tick (order_at (store bk) (snd p))))"
    if "p \<in> set (tagged (book_levels bk s))" for p
    using order_at_resting(1) [OF li(4) [OF that]] by (simp add: Q_def t0_def)
  then have "takeWhile (\<lambda>x. \<not> better s0 (o_price_tick ord) (o_price_tick x)) (queue bk s) =
        map (order_at (store bk) \<circ> snd) (takeWhile Q (tagged (book_levels bk s)))"
    "dropWhile (\<lambda>x. \<not> better s0 (o_price_tick ord) (o_price_tick x)) (queue bk s) =
        map (order_at (store bk) \<circ> snd) (dropWhile Q (tagged (book_levels bk s)))"
    unfolding queue_def by (auto intro!: while_map_cong)
  then show "queue bk' s = (if s = s0 then enqueue s ord (queue bk s) else queue bk s)"
    using get by (cases "s = s0") (simp_all add: queue_def tg sv enqueue_def)
qed

section \<open>Taking an order off the book\<close>

lemma resting_elsewhere:
  assumes inv: "book_inv P bk" and get: "store_get (store bk) oid = Some ord" and s: "s \<noteq> o_side ord"
  shows "oid \<notin> snd ` set (tagged (book_levels bk s))"
proof
  assume "oid \<in> snd ` set (tagged (book_levels bk s))"
  then obtain p where p: "p \<in> set (tagged (book_levels bk s))" "snd p = oid" by blast
  show False using book_invD(8) [OF inv p(1)] p(2) get s by (auto elim!: resting_okE)
qed

lemma order_level:
  assumes inv: "book_inv P bk" and get: "store_get (store bk) oid = Some ord" and P: "oid \<notin> P"
  obtains lvl where "map_of (book_levels bk (o_side ord)) (o_price_tick ord) = Some lvl" and "oid \<in> set (ids lvl)"
  using tagged_memE [OF book_invD(6) [OF inv get P] levels_invD(5) [OF book_invD(5) [OF inv]]] by blast

text \<open>
  The common part of \<open>cancel\<close> and of a depleting \<open>fill_order\<close>: whatever the intermediate
  steps, a book whose levels have lost the identifier and whose store has lost the order.
\<close>

lemma drop_inv:
  assumes inv: "book_inv P bk" and get: "store_get (store bk) oid = Some ord" and P: "oid \<notin> P"
    and lvl: "map_of (book_levels bk (o_side ord)) (o_price_tick ord) = Some lvl" "oid \<in> set (ids lvl)"
    and f: "ids (f lvl) = filter (\<lambda>x. x \<noteq> oid) (ids lvl)"
    and lv: "\<And>s. book_levels bk' s =
      (if s = o_side ord then levels_drop (o_price_tick ord) f (book_levels bk s) else book_levels bk s)"
    and ca: "caches_ok bk'" and pool: "pool_ok bk'" and st: "store_inv (store bk')"
    and gt: "\<And>x. store_get (store bk') x = (if x = oid then None else store_get (store bk) x)"
  shows "book_inv P bk'" and "queue bk' s = filter (\<lambda>x. o_id x \<noteq> oid) (queue bk s)"
proof -
  note d = book_invD [OF inv]
  note li = levels_invD [OF d(5)]
  have tg: "tagged (book_levels bk' s) = filter (\<lambda>p. snd p \<noteq> oid) (tagged (book_levels bk s))" for s
    using tagged_drop [where f = f, OF li(5,3) lvl f] filter_tagged_absent [OF resting_elsewhere [OF inv get]]
    by (cases "s = o_side ord") (simp_all add: lv)
  show "book_inv P bk'"
  proof (rule book_invI)
    fix s
    have "keys_sorted (better s) (book_levels bk' s)" "\<forall>e \<in> set (book_levels bk' s). ids (snd e) \<noteq> []"
      using levels_drop_sorted [OF li(1)] levels_drop_nonempty [OF li(2,5)] li(1,2)
      by (simp_all only: lv split: if_splits) simp_all
    moreover have "distinct (map snd (tagged (book_levels bk' s)))"
      using li(3) [of s] by (simp add: tg distinct_map_filter)
    moreover have "resting_ok s (store bk') p" if "p \<in> set (tagged (book_levels bk' s))" for p
      using that li(4) [of p s] by (simp add: tg resting_ok_def gt)
    ultimately show "levels_inv s (store bk') (book_levels bk' s)" by (intro levels_invI)
  next
    show "(o_price_tick ord', x) \<in> set (tagged (book_levels bk' (o_side ord')))"
      if "store_get (store bk') x = Some ord'" "x \<notin> P" for x ord'
      using that d(6) [of x ord'] by (auto simp: tg gt split: if_splits)
    show "snd p \<notin> P" if "p \<in> set (tagged (book_levels bk' s))" for s p
      using that d(7) [of p s] by (simp add: tg)
  qed (simp_all add: st ca pool)
  have "order_at (store bk') (snd p) = order_at (store bk) (snd p)" if "snd p \<noteq> oid" for p :: "int \<times> nat"
    using that by (simp add: order_at_def gt)
  moreover have "o_id (order_at (store bk) (snd p)) = snd p" if "p \<in> set (tagged (book_levels bk s))" for p
    using d(8) [OF that] store_invD(1) [OF d(1)] by (auto elim!: resting_okE)
  ultimately show "queue bk' s = filter (\<lambda>x. o_id x \<noteq> oid) (queue bk s)"
    unfolding queue_def tg filter_map by (auto intro!: filter_cong map_cong)
qed

lemma remove_from_level_take_off:
  "index_ok bk \<Longrightarrow> map_of (book_levels bk s) t = Some lvl \<Longrightarrow>
   remove_from_level s t oid lot bk =
     take_off s t (\<lambda>l. debit lot (l\<lparr>ids := filter (\<lambda>x. x \<noteq> oid) (ids l)\<rparr>)) lvl bk"
  by (simp add: remove_from_level_def take_off_def book_level_view Let_def)

lemma ids_debit [simp]: "ids (debit lot l) = ids l"
  by (simp add: debit_def Let_def)

lemma cancel_absent: "store_get (store bk) oid = None \<Longrightarrow> cancel oid bk = (bk, False)"
  by (simp add: cancel_def store_remove_def)

lemma cancel_present:
  "store_get (store bk) oid = Some ord \<Longrightarrow>
   cancel oid bk = (remove_from_level (o_side ord) (o_price_tick ord) oid (o_open_lot ord)
                      (bk\<lparr>store := fst (store_remove oid (store bk))\<rparr>), True)"
  by (simp add: cancel_def store_remove_def)

lemma cancel_effect:
  assumes inv: "book_inv P bk" and get: "store_get (store bk) oid = Some ord" and P: "oid \<notin> P"
  shows "snd (cancel oid bk)" and "book_inv P (fst (cancel oid bk))"
    and "queue (fst (cancel oid bk)) s = filter (\<lambda>x. o_id x \<noteq> oid) (queue bk s)"
    and "store (fst (cancel oid bk)) = fst (store_remove oid (store bk))"
proof -
  note d = book_invD [OF inv]
  obtain lvl where l: "map_of (book_levels bk (o_side ord)) (o_price_tick ord) = Some lvl" "oid \<in> set (ids lvl)"
    by (rule order_level [OF inv get P])
  define b1 where "b1 = bk\<lparr>store := fst (store_remove oid (store bk))\<rparr>"
  define f where "f = (\<lambda>l. debit (o_open_lot ord) (l\<lparr>ids := filter (\<lambda>x. x \<noteq> oid) (ids l)\<rparr>))"
  have c: "fst (cancel oid bk) = take_off (o_side ord) (o_price_tick ord) f lvl b1"
    using d(2) l by (simp add: cancel_present [OF get] b1_def f_def remove_from_level_take_off)
  have v: "book_levels (fst (cancel oid bk)) s =
      (if s = o_side ord then levels_drop (o_price_tick ord) f (book_levels bk s) else book_levels bk s)"
    "store (fst (cancel oid bk)) = fst (store_remove oid (store bk))"
    "pool_ok (fst (cancel oid bk))" "caches_ok (fst (cancel oid bk))" for s
    using take_off_views [of b1 "o_side ord" "o_price_tick ord" lvl] d(2,3,4) l unfolding c
    by (simp_all add: b1_def)
  show "snd (cancel oid bk)" using get by (simp add: cancel_present)
  show "store (fst (cancel oid bk)) = fst (store_remove oid (store bk))" by (rule v)
  show "book_inv P (fst (cancel oid bk))" "queue (fst (cancel oid bk)) s = filter (\<lambda>x. o_id x \<noteq> oid) (queue bk s)"
    using store_inv_remove [OF d(1)]
    by (auto intro!: drop_inv [OF inv get P l, of f] simp: v f_def)
qed

section \<open>Filling an order\<close>

lemma level_ids_distinct:
  "map_of lv t = Some l \<Longrightarrow> distinct (map snd (tagged lv)) \<Longrightarrow> distinct (ids l)"
  by (induction lv) (auto simp: comp_def split: if_splits)

lemma ids_pop: "distinct (ids l) \<Longrightarrow> ids (pop_id oid l) = filter (\<lambda>x. x \<noteq> oid) (ids l)"
  by (cases "ids l") (auto simp: pop_id_def filter_neq_front)

definition set_open :: "int \<Rightarrow> hp_order \<Rightarrow> hp_order" where
  "set_open q ord = ord\<lparr>o_open_lot := q\<rparr>"

lemma set_open_simps [simp]:
  "o_id (set_open q ord) = o_id ord" "o_side (set_open q ord) = o_side ord"
  "o_price_tick (set_open q ord) = o_price_tick ord" "o_open_lot (set_open q ord) = q"
  "o_client_id (set_open q ord) = o_client_id ord" "o_qty_lot (set_open q ord) = o_qty_lot ord"
  by (simp_all add: set_open_def)

lemma fill_order_deplete:
  assumes inv: "book_inv P bk" and get: "store_get (store bk) oid = Some ord" and P: "oid \<notin> P"
  shows "snd (fill_order oid (o_open_lot ord) bk) = None"
    and "book_inv P (fst (fill_order oid (o_open_lot ord) bk))"
    and "queue (fst (fill_order oid (o_open_lot ord) bk)) s = filter (\<lambda>x. o_id x \<noteq> oid) (queue bk s)"
    and "store_get (store (fst (fill_order oid (o_open_lot ord) bk))) x = (if x = oid then None else store_get (store bk) x)"
proof -
  note d = book_invD [OF inv]
  obtain lvl where l: "map_of (book_levels bk (o_side ord)) (o_price_tick ord) = Some lvl" "oid \<in> set (ids lvl)"
    by (rule order_level [OF inv get P])
  define b1 where "b1 = bk\<lparr>store := store_modify oid (\<lambda>ord. ord\<lparr>o_open_lot := 0\<rparr>) (store bk)\<rparr>"
  define f where "f = (\<lambda>l. pop_id oid (debit (o_open_lot ord) l))"
  define b3 where "b3 = take_off (o_side ord) (o_price_tick ord) f lvl b1"
  have c: "fill_order oid (o_open_lot ord) bk = (b3\<lparr>store := fst (store_remove oid (store b3))\<rparr>, None)"
    using get l d(2)
    by (simp add: fill_order_def Let_def book_level_view b1_def [symmetric] b3_def take_off_def f_def)
  have v: "book_levels b3 s =
      (if s = o_side ord then levels_drop (o_price_tick ord) f (book_levels bk s) else book_levels bk s)"
    "store b3 = store b1" "pool_ok b3" "caches_ok b3" for s
    using take_off_views [of b1 "o_side ord" "o_price_tick ord" lvl] d(2,3,4) l unfolding b3_def
    by (simp_all add: b1_def)
  have f: "ids (f lvl) = filter (\<lambda>x. x \<noteq> oid) (ids lvl)"
    using level_ids_distinct [OF l(1) levels_invD(3) [OF d(5)]] by (simp add: f_def ids_pop)
  have st: "store_inv (store b1)" unfolding b1_def using store_inv_update [OF d(1)] by simp
  show "snd (fill_order oid (o_open_lot ord) bk) = None" by (simp add: c)
  show gt: "store_get (store (fst (fill_order oid (o_open_lot ord) bk))) x =
      (if x = oid then None else store_get (store bk) x)" for x
    by (simp add: c v b1_def)
  show "book_inv P (fst (fill_order oid (o_open_lot ord) bk))"
    "queue (fst (fill_order oid (o_open_lot ord) bk)) s = filter (\<lambda>x. o_id x \<noteq> oid) (queue bk s)"
    using store_inv_remove [OF st]
    by (auto intro!: drop_inv [where f = f, OF inv get P l f] simp: gt) (simp_all add: c v)
qed

lemma fill_order_partial:
  assumes inv: "book_inv P bk" and get: "store_get (store bk) oid = Some ord" and P: "oid \<notin> P"
    and q: "0 < q" "q < o_open_lot ord"
  defines "ord' \<equiv> set_open (o_open_lot ord - q) ord"
  shows "snd (fill_order oid q bk) = Some ord'"
    and "book_inv P (fst (fill_order oid q bk))"
    and "queue (fst (fill_order oid q bk)) s = map (\<lambda>x. if o_id x = oid then ord' else x) (queue bk s)"
    and "store_get (store (fst (fill_order oid q bk))) x = (if x = oid then Some ord' else store_get (store bk) x)"
proof -
  note d = book_invD [OF inv]
  note li = levels_invD [OF d(5)]
  note mem = d(6) [OF get P]
  have ro: "resting_ok (o_side ord) (store bk) (o_price_tick ord, oid)" by (rule d(8) [OF mem])
  obtain lvl where l: "map_of (book_levels bk (o_side ord)) (o_price_tick ord) = Some lvl" "oid \<in> set (ids lvl)"
    by (rule order_level [OF inv get P])
  have ok: "i64_ok (o_open_lot ord)" using ro get by (auto elim!: resting_okE)
  then have ok': "i64_ok (o_open_lot ord - q)" using q by (simp add: i64_ok_sub_nonneg)
  define b1 where "b1 = bk\<lparr>store := store_modify oid (\<lambda>ord'. ord'\<lparr>o_open_lot := o_open_lot ord - q\<rparr>) (store bk)\<rparr>"
  define b2 where "b2 = level_mut_for_remove (o_side ord) (o_price_tick ord) (debit q) b1"
  have ix: "index_ok b1" using d(2) by (simp add: b1_def)
  note v = for_remove_views [OF ix, of "o_side ord" "o_price_tick ord" "debit q", folded b2_def]
  have c: "fill_order oid q bk = (b2, store_get (store b2) oid)"
    using get l d(2) q
    by (simp add: fill_order_def Let_def book_level_view i64_sub_exact [OF ok'] b1_def [symmetric] b2_def)
  have gt: "store_get (store b2) x = (if x = oid then Some ord' else store_get (store bk) x)" for x
    using get by (simp add: v b1_def ord'_def set_open_def)
  have tg: "tagged (book_levels b2 s) = tagged (book_levels bk s)" for s
    by (simp add: v b1_def tagged_modify_ids)
  show "snd (fill_order oid q bk) = Some ord'"
    "store_get (store (fst (fill_order oid q bk))) x = (if x = oid then Some ord' else store_get (store bk) x)"
    by (simp_all add: c gt)
  have "book_inv P b2"
  proof (rule book_invI)
    show "store_inv (store b2)" using store_inv_update [OF d(1)] by (simp add: v b1_def)
    show "pool_ok b2" "caches_ok b2" using d(3,4) by (simp_all add: v caches_ok_def) (simp_all add: b1_def caches_ok_def)
    show "(o_price_tick ord1, x) \<in> set (tagged (book_levels b2 (o_side ord1)))"
      if "store_get (store b2) x = Some ord1" "x \<notin> P" for x ord1
      using that d(6) [of x ord1] mem by (auto simp: gt tg ord'_def split: if_splits)
    show "snd p \<notin> P" if "p \<in> set (tagged (book_levels b2 s))" for s p
      using that d(7) [of p s] by (simp add: tg)
    fix s
    have "resting_ok s (store b2) p" if "p \<in> set (tagged (book_levels b2 s))" for p
      using that li(4) [of p s] get q ok' by (auto simp: tg gt resting_ok_def ord'_def)
    moreover have "keys_sorted (better s) (book_levels b2 s)" using v(5) by (simp add: index_ok_def)
    moreover have "\<forall>e \<in> set (book_levels b2 s). ids (snd e) \<noteq> []"
      using li(2) [of s] by (auto simp: v b1_def btm_modify_def)
    ultimately show "levels_inv s (store b2) (book_levels b2 s)"
      using li(3) [of s] by (intro levels_invI) (simp_all add: tg)
  qed
  then show "book_inv P (fst (fill_order oid q bk))" by (simp add: c)
  have "order_at (store b2) (snd p) =
      (if o_id (order_at (store bk) (snd p)) = oid then ord' else order_at (store bk) (snd p))"
    if "p \<in> set (tagged (book_levels bk s))" for p
    using d(8) [OF that] store_invD(1) [OF d(1)] by (auto elim!: resting_okE simp: order_at_def gt)
  then show "queue (fst (fill_order oid q bk)) s = map (\<lambda>x. if o_id x = oid then ord' else x) (queue bk s)"
    by (simp add: c queue_def tg)
qed

end
