(* ===== verification/Hp_Engine.thy ===== *)
theory Hp_Engine
  imports Hp_Book_Inv
begin

text \<open>
  The matching engine of \<open>crates/match-core-hp/src/engine.rs\<close>: limit, market and cancel
  commands over the book, with the event buffer and the map from clients to their resting
  orders.  The two matching loops are recursive functions whose termination is proved from
  the number of occupied slots.
\<close>

section \<open>Defensive lookups\<close>

definition remaining_open :: "order_store \<Rightarrow> nat \<Rightarrow> int" where
  "remaining_open st oid = (case store_get st oid of None \<Rightarrow> 0 | Some ord \<Rightarrow> o_open_lot ord)"

definition maker_open_and_client :: "order_store \<Rightarrow> nat \<Rightarrow> (int \<times> nat) option" where
  "maker_open_and_client st oid =
     (case store_get st oid of
        None \<Rightarrow> None
      | Some ord \<Rightarrow> if o_open_lot ord \<le> 0 then None else Some (o_open_lot ord, o_client_id ord))"

definition set_taker_open :: "nat \<Rightarrow> int \<Rightarrow> order_store \<Rightarrow> order_store" where
  "set_taker_open oid opn st = store_modify oid (\<lambda>taker. taker\<lparr>o_open_lot := opn\<rparr>) st"

section \<open>State\<close>

record hp_engine =
  book :: book
  events :: "hp_event list"
  client_to_id :: "nat \<Rightarrow> nat list option"

definition engine_new :: hp_engine where
  "engine_new = \<lparr>book = book_new, events = [], client_to_id = (\<lambda>_. None)\<rparr>"

definition engine_with_capacity :: "nat \<Rightarrow> nat \<Rightarrow> hp_engine" where
  "engine_with_capacity order_cap event_cap =
     \<lparr>book = book_with_capacity order_cap, events = [], client_to_id = (\<lambda>_. None)\<rparr>"

definition client_map_len :: "hp_engine \<Rightarrow> nat" where
  "client_map_len e = card (dom (client_to_id e))"

definition push_event :: "hp_event \<Rightarrow> hp_engine \<Rightarrow> hp_engine" where
  "push_event ev e = e\<lparr>events := events e @ [ev]\<rparr>"

text \<open>Dropping one order from a client's list, and the client with its last order.\<close>

definition forget :: "nat \<Rightarrow> nat \<Rightarrow> (nat \<Rightarrow> nat list option) \<Rightarrow> (nat \<Rightarrow> nat list option)" where
  "forget client oid m =
     (case m client of
        None \<Rightarrow> m
      | Some lst \<Rightarrow> let lst' = filter (\<lambda>x. x \<noteq> oid) lst
                  in if lst' = [] then m(client := None) else m(client \<mapsto> lst'))"

section \<open>Cancel\<close>

fun cancel_all :: "nat \<Rightarrow> nat list \<Rightarrow> hp_engine \<Rightarrow> hp_engine" where
  "cancel_all client [] e = e"
| "cancel_all client (slot # lst) e =
     (case cancel slot (book e) of
        (bk, True) \<Rightarrow> cancel_all client lst (push_event (Revoke slot client 0) (e\<lparr>book := bk\<rparr>))
      | (bk, False) \<Rightarrow> cancel_all client lst (e\<lparr>book := bk\<rparr>))"

definition on_cancel :: "nat \<Rightarrow> hp_engine \<Rightarrow> hp_engine" where
  "on_cancel oid e =
     (case store_get (store (book e)) oid of
        Some ord \<Rightarrow>
          (case cancel oid (book e) of
             (bk, True) \<Rightarrow>
               push_event (Revoke oid (o_client_id ord) 0)
                 (e\<lparr>book := bk, client_to_id := forget (o_client_id ord) oid (client_to_id e)\<rparr>)
           | (bk, False) \<Rightarrow> e\<lparr>book := bk\<rparr>)
      | None \<Rightarrow>
          (case client_to_id e oid of
             Some lst \<Rightarrow> cancel_all oid lst (e\<lparr>client_to_id := (client_to_id e)(oid := None)\<rparr>)
           | None \<Rightarrow> e))"

section \<open>Matching\<close>

lemma remove_empty_level_store [simp]: "store (remove_empty_level s t bk) = store bk"
  by (cases s) (simp_all add: remove_empty_level_def note_remove_level_def Let_def)

lemma level_mut_for_remove_store [simp]: "store (level_mut_for_remove s t f bk) = store bk"
  by (cases s) (simp_all add: level_mut_for_remove_def)

lemma fill_order_occupied:
  assumes "store_get (store bk) oid = Some ord"
  shows "occupied (store (fst (fill_order oid q bk))) \<le> occupied (store bk)"
    and "q = o_open_lot ord \<Longrightarrow> occupied (store (fst (fill_order oid q bk))) < occupied (store bk)"
proof -
  have u: "store_get (store_modify oid f (store bk)) oid = Some (f ord)" for f using assms by simp
  have less: "occupied (fst (store_remove oid (store_modify oid f (store bk)))) < occupied (store bk)" for f
    using occupied_remove [OF u [of f]] by simp
  show "occupied (store (fst (fill_order oid q bk))) \<le> occupied (store bk)"
    using less by (auto simp: fill_order_def assms Let_def intro: less_imp_le split: option.split)
  show "q = o_open_lot ord \<Longrightarrow> occupied (store (fst (fill_order oid q bk))) < occupied (store bk)"
    using less by (auto simp: fill_order_def assms Let_def split: option.split)
qed

text \<open>
  The loop of \<open>match_buy\<close>: the result is the taker's open quantity when the loop breaks
  and the engine state then.  \<open>fill_count\<close> is a \<open>u32\<close>.
\<close>

function match_buy_loop ::
  "nat \<Rightarrow> nat \<Rightarrow> int option \<Rightarrow> nat option \<Rightarrow> nat \<Rightarrow> int \<Rightarrow> hp_engine \<Rightarrow> int \<times> hp_engine" where
  "match_buy_loop taker_id taker_client limit_tick max_fills fill_count taker_open e =
     (if (case max_fills of Some mx \<Rightarrow> fill_count \<ge> mx | None \<Rightarrow> False) then (taker_open, e)
      else if taker_open \<le> 0 then (taker_open, e)
      else case best_ask (book e) of
        None \<Rightarrow> (taker_open, e)
      | Some ask_tick \<Rightarrow>
          if (case limit_tick of Some lim \<Rightarrow> ask_tick > lim | None \<Rightarrow> False) then (taker_open, e)
          else case front_id (book e) Sell ask_tick of
            None \<Rightarrow> (taker_open, e)
          | Some maker_id \<Rightarrow>
              case maker_open_and_client (store (book e)) maker_id of
                None \<Rightarrow> (taker_open, e)
              | Some (maker_open, maker_client) \<Rightarrow>
                  let fill_qty = min maker_open taker_open;
                      taker_open' = i64_sub taker_open fill_qty;
                      (bk, res) = fill_order maker_id fill_qty (book e);
                      maker_gone = (res = None);
                      maker_open_after = (if maker_gone then 0 else i64_sub maker_open fill_qty);
                      e1 = push_event (Fill maker_id taker_id maker_client taker_client ask_tick
                             fill_qty maker_open_after taker_open') (e\<lparr>book := bk\<rparr>);
                      e2 = (if maker_gone \<and> maker_client \<noteq> 0
                            then e1\<lparr>client_to_id := forget maker_client maker_id (client_to_id e1)\<rparr> else e1)
                  in match_buy_loop taker_id taker_client limit_tick max_fills
                       (u32_inc fill_count) taker_open' e2)"
  by pat_completeness auto

definition loop_measure :: "int \<Rightarrow> book \<Rightarrow> nat" where
  "loop_measure taker_open bk = occupied (store bk) + (if 0 < taker_open then 1 else 0)"

lemma loop_measure_decreases:
  assumes "0 < taker_open" and "maker_open_and_client (store bk) maker_id = Some (maker_open, c)"
    and "(bk', r) = fill_order maker_id (min maker_open taker_open) bk"
  shows "loop_measure (i64_sub taker_open (min maker_open taker_open)) bk' < loop_measure taker_open bk"
proof -
  obtain ord where g: "store_get (store bk) maker_id = Some ord" "o_open_lot ord = maker_open" "0 < maker_open"
    using assms(2) by (auto simp: maker_open_and_client_def split: option.splits if_splits)
  show ?thesis
  proof (cases "maker_open \<le> taker_open")
    case True
    then have "occupied (store bk') < occupied (store bk)"
      using fill_order_occupied(2) [OF g(1), of "min maker_open taker_open"] g(2) assms(3) [symmetric] by simp
    then show ?thesis using assms(1) by (simp add: loop_measure_def)
  next
    case False
    have "occupied (store bk') \<le> occupied (store bk)"
      using fill_order_occupied(1) [OF g(1), of "min maker_open taker_open"] assms(3) [symmetric] by simp
    then show ?thesis using False assms(1) by (simp add: loop_measure_def)
  qed
qed

termination match_buy_loop
proof (relation "measure (\<lambda>(_, _, _, _, _, opn, e). loop_measure opn (book e))", goal_cases)
  case 1
  then show ?case by simp
next
  case 2
  then show ?case
    by (clarsimp simp: push_event_def if_distrib [of book]) (auto intro!: loop_measure_decreases)
qed

function match_sell_loop ::
  "nat \<Rightarrow> nat \<Rightarrow> int option \<Rightarrow> nat option \<Rightarrow> nat \<Rightarrow> int \<Rightarrow> hp_engine \<Rightarrow> int \<times> hp_engine" where
  "match_sell_loop taker_id taker_client limit_tick max_fills fill_count taker_open e =
     (if (case max_fills of Some mx \<Rightarrow> fill_count \<ge> mx | None \<Rightarrow> False) then (taker_open, e)
      else if taker_open \<le> 0 then (taker_open, e)
      else case best_bid (book e) of
        None \<Rightarrow> (taker_open, e)
      | Some bid_tick \<Rightarrow>
          if (case limit_tick of Some lim \<Rightarrow> bid_tick < lim | None \<Rightarrow> False) then (taker_open, e)
          else case front_id (book e) Buy bid_tick of
            None \<Rightarrow> (taker_open, e)
          | Some maker_id \<Rightarrow>
              case maker_open_and_client (store (book e)) maker_id of
                None \<Rightarrow> (taker_open, e)
              | Some (maker_open, maker_client) \<Rightarrow>
                  let fill_qty = min maker_open taker_open;
                      taker_open' = i64_sub taker_open fill_qty;
                      (bk, res) = fill_order maker_id fill_qty (book e);
                      maker_gone = (res = None);
                      maker_open_after = (if maker_gone then 0 else i64_sub maker_open fill_qty);
                      e1 = push_event (Fill maker_id taker_id maker_client taker_client bid_tick
                             fill_qty maker_open_after taker_open') (e\<lparr>book := bk\<rparr>);
                      e2 = (if maker_gone \<and> maker_client \<noteq> 0
                            then e1\<lparr>client_to_id := forget maker_client maker_id (client_to_id e1)\<rparr> else e1)
                  in match_sell_loop taker_id taker_client limit_tick max_fills
                       (u32_inc fill_count) taker_open' e2)"
  by pat_completeness auto

termination match_sell_loop
proof (relation "measure (\<lambda>(_, _, _, _, _, opn, e). loop_measure opn (book e))", goal_cases)
  case 1
  then show ?case by simp
next
  case 2
  then show ?case
    by (clarsimp simp: push_event_def if_distrib [of book]) (auto intro!: loop_measure_decreases)
qed

definition match_buy :: "nat \<Rightarrow> nat \<Rightarrow> int option \<Rightarrow> nat option \<Rightarrow> hp_engine \<Rightarrow> hp_engine" where
  "match_buy taker_id taker_client limit_tick max_fills e =
     (let (opn, e') = match_buy_loop taker_id taker_client limit_tick max_fills 0
                        (remaining_open (store (book e)) taker_id) e
      in e'\<lparr>book := (book e')\<lparr>store := set_taker_open taker_id opn (store (book e'))\<rparr>\<rparr>)"

definition match_sell :: "nat \<Rightarrow> nat \<Rightarrow> int option \<Rightarrow> nat option \<Rightarrow> hp_engine \<Rightarrow> hp_engine" where
  "match_sell taker_id taker_client limit_tick max_fills e =
     (let (opn, e') = match_sell_loop taker_id taker_client limit_tick max_fills 0
                        (remaining_open (store (book e)) taker_id) e
      in e'\<lparr>book := (book e')\<lparr>store := set_taker_open taker_id opn (store (book e'))\<rparr>\<rparr>)"

section \<open>Commands\<close>

definition remember :: "nat \<Rightarrow> nat \<Rightarrow> (nat \<Rightarrow> nat list option) \<Rightarrow> (nat \<Rightarrow> nat list option)" where
  "remember client oid m = m(client \<mapsto> (case m client of None \<Rightarrow> [] | Some lst \<Rightarrow> lst) @ [oid])"

definition on_limit :: "side \<Rightarrow> int \<Rightarrow> int \<Rightarrow> nat \<Rightarrow> nat \<Rightarrow> hp_engine \<Rightarrow> hp_engine option" where
  "on_limit s price_tick qty_lot ts client_id e =
     (if qty_lot \<le> 0 then Some e
      else case store_insert \<lparr>o_id = 0, o_side = s, o_price_tick = price_tick, o_qty_lot = qty_lot,
             o_open_lot = qty_lot, o_ts = ts, o_client_id = client_id\<rparr> (store (book e)) of
        None \<Rightarrow> None
      | Some (st, taker_id) \<Rightarrow>
          let e1 = e\<lparr>book := (book e)\<lparr>store := st\<rparr>\<rparr>;
              e2 = (case s of Buy \<Rightarrow> match_buy taker_id client_id (Some price_tick) None e1
                            | Sell \<Rightarrow> match_sell taker_id client_id (Some price_tick) None e1);
              remaining = remaining_open (store (book e2)) taker_id
          in if remaining > 0 then
               (case rest taker_id (book e2) of
                  None \<Rightarrow> None
                | Some bk \<Rightarrow>
                    Some (push_event (Rest taker_id client_id s price_tick remaining)
                      (e2\<lparr>book := bk, client_to_id := remember client_id taker_id (client_to_id e2)\<rparr>)))
             else Some (e2\<lparr>book := (book e2)\<lparr>store := fst (store_remove taker_id (store (book e2)))\<rparr>\<rparr>))"

definition on_market :: "side \<Rightarrow> int \<Rightarrow> nat \<Rightarrow> nat option \<Rightarrow> nat \<Rightarrow> hp_engine \<Rightarrow> hp_engine option" where
  "on_market s qty_lot ts max_fills client_id e =
     (if qty_lot \<le> 0 then Some e
      else case store_insert \<lparr>o_id = 0, o_side = s, o_price_tick = 0, o_qty_lot = qty_lot,
             o_open_lot = qty_lot, o_ts = ts, o_client_id = client_id\<rparr> (store (book e)) of
        None \<Rightarrow> None
      | Some (st, taker_id) \<Rightarrow>
          let e1 = e\<lparr>book := (book e)\<lparr>store := st\<rparr>\<rparr>;
              e2 = (case s of Buy \<Rightarrow> match_buy taker_id client_id None max_fills e1
                            | Sell \<Rightarrow> match_sell taker_id client_id None max_fills e1);
              remaining = remaining_open (store (book e2)) taker_id;
              e3 = (if remaining > 0 then push_event (Revoke taker_id client_id 1) e2 else e2)
          in Some (e3\<lparr>book := (book e3)\<lparr>store := fst (store_remove taker_id (store (book e3)))\<rparr>\<rparr>))"

text \<open>\<open>on_order\<close>: the events of the call are the buffer of the resulting state.\<close>

fun on_order :: "hp_command \<Rightarrow> hp_engine \<Rightarrow> hp_engine option" where
  "on_order (Limit s price_tick qty_lot ts client_id) e =
     on_limit s price_tick qty_lot ts client_id (e\<lparr>events := []\<rparr>)"
| "on_order (Cancel oid) e = Some (on_cancel oid (e\<lparr>events := []\<rparr>))"
| "on_order (Market s qty_lot ts max_fills client_id) e =
     on_market s qty_lot ts max_fills client_id (e\<lparr>events := []\<rparr>)"

section \<open>One loop for both sides\<close>

definition crosses :: "side \<Rightarrow> int option \<Rightarrow> int \<Rightarrow> bool" where
  "crosses s lim tick = (case lim of None \<Rightarrow> True | Some l \<Rightarrow> \<not> better s tick l)"

definition exhausted :: "nat option \<Rightarrow> nat \<Rightarrow> bool" where
  "exhausted max_fills fill_count = (case max_fills of Some mx \<Rightarrow> fill_count \<ge> mx | None \<Rightarrow> False)"

definition fill_step :: "nat \<Rightarrow> nat \<Rightarrow> int \<Rightarrow> nat \<Rightarrow> int \<Rightarrow> nat \<Rightarrow> int \<Rightarrow> hp_engine \<Rightarrow> hp_engine" where
  "fill_step taker_id taker_client tick maker_id maker_open maker_client taker_open e =
     (let fill_qty = min maker_open taker_open;
          (bk, res) = fill_order maker_id fill_qty (book e);
          e1 = push_event (Fill maker_id taker_id maker_client taker_client tick fill_qty
                 (if res = None then 0 else i64_sub maker_open fill_qty)
                 (i64_sub taker_open fill_qty)) (e\<lparr>book := bk\<rparr>)
      in (if res = None \<and> maker_client \<noteq> 0
          then e1\<lparr>client_to_id := forget maker_client maker_id (client_to_id e1)\<rparr> else e1))"

function match_loop ::
  "side \<Rightarrow> nat \<Rightarrow> nat \<Rightarrow> int option \<Rightarrow> nat option \<Rightarrow> nat \<Rightarrow> int \<Rightarrow> hp_engine \<Rightarrow> int \<times> hp_engine" where
  "match_loop s tid tc lim mx fc opn e =
     (if exhausted mx fc \<or> opn \<le> 0 then (opn, e)
      else case best_cache (book e) (opposite s) of
        None \<Rightarrow> (opn, e)
      | Some tick \<Rightarrow>
          if \<not> crosses s lim tick then (opn, e)
          else case front_id (book e) (opposite s) tick of
            None \<Rightarrow> (opn, e)
          | Some mid \<Rightarrow>
              case maker_open_and_client (store (book e)) mid of
                None \<Rightarrow> (opn, e)
              | Some (mo, mc) \<Rightarrow>
                  match_loop s tid tc lim mx (u32_inc fc) (i64_sub opn (min mo opn))
                    (fill_step tid tc tick mid mo mc opn e))"
  by pat_completeness auto

lemma fill_step_book:
  "book (fill_step tid tc tick mid mo mc opn e) = fst (fill_order mid (min mo opn) (book e))"
  by (simp add: fill_step_def Let_def split_beta push_event_def)

termination match_loop
proof (relation "measure (\<lambda>(_, _, _, _, _, _, opn, e). loop_measure opn (book e))", goal_cases)
  case 1
  then show ?case by simp
next
  case 2
  then show ?case
    by (auto simp: fill_step_book intro!: loop_measure_decreases [OF _ _ prod.collapse])
qed

declare match_buy_loop.simps [simp del] match_sell_loop.simps [simp del] match_loop.simps [simp del]

lemma match_buy_loop_unfold:
  "match_buy_loop tid tc lim mx fc opn e =
     (if exhausted mx fc \<or> opn \<le> 0 then (opn, e)
      else case best_cache (book e) Sell of
        None \<Rightarrow> (opn, e)
      | Some tick \<Rightarrow>
          if \<not> crosses Buy lim tick then (opn, e)
          else case front_id (book e) Sell tick of
            None \<Rightarrow> (opn, e)
          | Some mid \<Rightarrow>
              case maker_open_and_client (store (book e)) mid of
                None \<Rightarrow> (opn, e)
              | Some (mo, mc) \<Rightarrow>
                  match_buy_loop tid tc lim mx (u32_inc fc) (i64_sub opn (min mo opn))
                    (fill_step tid tc tick mid mo mc opn e))"
  by (subst match_buy_loop.simps)
     (simp add: exhausted_def crosses_def fill_step_def best_ask_def best_bid_def Let_def split_beta
       split: option.split)

lemma match_sell_loop_unfold:
  "match_sell_loop tid tc lim mx fc opn e =
     (if exhausted mx fc \<or> opn \<le> 0 then (opn, e)
      else case best_cache (book e) Buy of
        None \<Rightarrow> (opn, e)
      | Some tick \<Rightarrow>
          if \<not> crosses Sell lim tick then (opn, e)
          else case front_id (book e) Buy tick of
            None \<Rightarrow> (opn, e)
          | Some mid \<Rightarrow>
              case maker_open_and_client (store (book e)) mid of
                None \<Rightarrow> (opn, e)
              | Some (mo, mc) \<Rightarrow>
                  match_sell_loop tid tc lim mx (u32_inc fc) (i64_sub opn (min mo opn))
                    (fill_step tid tc tick mid mo mc opn e))"
  by (subst match_sell_loop.simps)
     (simp add: exhausted_def crosses_def fill_step_def best_ask_def best_bid_def Let_def split_beta
       split: option.split)

lemma fill_step_decreases:
  "\<not> opn \<le> 0 \<Longrightarrow> maker_open_and_client (store (book e)) mid = Some (mo, mc) \<Longrightarrow>
   loop_measure (i64_sub opn (min mo opn)) (book (fill_step tid tc tick mid mo mc opn e)) < loop_measure opn (book e)"
  unfolding fill_step_book by (rule loop_measure_decreases [OF _ _ prod.collapse]) simp_all

lemma match_buy_loop_generic: "match_buy_loop tid tc lim mx fc opn e = match_loop Buy tid tc lim mx fc opn e"
proof (induction "loop_measure opn (book e)" arbitrary: fc opn e rule: less_induct)
  case less
  show ?case
    by (subst match_buy_loop_unfold, subst match_loop.simps)
       (auto simp: less fill_step_decreases split: option.split)
qed

lemma match_sell_loop_generic: "match_sell_loop tid tc lim mx fc opn e = match_loop Sell tid tc lim mx fc opn e"
proof (induction "loop_measure opn (book e)" arbitrary: fc opn e rule: less_induct)
  case less
  show ?case
    by (subst match_sell_loop_unfold, subst match_loop.simps)
       (auto simp: less fill_step_decreases split: option.split)
qed

end
