(* ===== verification/Hp_Spec.thy ===== *)
theory Hp_Spec
  imports Hp_Engine
begin

text \<open>
  What the engine of \<open>match-core-hp\<close> promises, on two plain queues: an incoming order
  walks the opposite queue from its head (price-time priority), and what is left of a limit
  order is queued behind every order of the same or a better price.  The engine's state is
  related to the queues by \<^const>\<open>queue\<close>; \<open>engine_inv\<close> adds the client lookup table.
\<close>

section \<open>Abstract matching\<close>

fun amatch :: "(int \<Rightarrow> bool) \<Rightarrow> nat option \<Rightarrow> nat \<Rightarrow> nat \<Rightarrow> int \<Rightarrow> hp_order list \<Rightarrow>
    hp_event list \<times> int \<times> hp_order list" where
  "amatch cr k tid tc opn [] = ([], opn, [])"
| "amatch cr k tid tc opn (m # q) =
     (if k = Some 0 \<or> opn \<le> 0 \<or> \<not> cr (o_price_tick m) then ([], opn, m # q)
      else if o_open_lot m \<le> opn then
        (let (evs, r, q') = amatch cr (map_option (\<lambda>n. n - 1) k) tid tc (opn - o_open_lot m) q
         in (Fill (o_id m) tid (o_client_id m) tc (o_price_tick m) (o_open_lot m) 0 (opn - o_open_lot m) # evs, r, q'))
      else ([Fill (o_id m) tid (o_client_id m) tc (o_price_tick m) opn (o_open_lot m - opn) 0], 0,
            set_open (o_open_lot m - opn) m # q))"

type_synonym aqueues = "side \<Rightarrow> hp_order list"

definition spec_limit :: "side \<Rightarrow> int \<Rightarrow> int \<Rightarrow> nat \<Rightarrow> nat \<Rightarrow> nat \<Rightarrow> aqueues \<Rightarrow> hp_event list \<times> aqueues" where
  "spec_limit s price qty ts client tid Q =
     (if qty \<le> 0 then ([], Q)
      else let (evs, r, q') = amatch (crosses s (Some price)) None tid client qty (Q (opposite s))
           in if r > 0 then
                (evs @ [Rest tid client s price r],
                 Q(opposite s := q',
                   s := enqueue s \<lparr>o_id = tid, o_side = s, o_price_tick = price, o_qty_lot = qty,
                                   o_open_lot = r, o_ts = ts, o_client_id = client\<rparr> (Q s)))
              else (evs, Q(opposite s := q')))"

definition spec_market :: "side \<Rightarrow> int \<Rightarrow> nat option \<Rightarrow> nat \<Rightarrow> nat \<Rightarrow> aqueues \<Rightarrow> hp_event list \<times> aqueues" where
  "spec_market s qty max_fills client tid Q =
     (if qty \<le> 0 then ([], Q)
      else let (evs, r, q') = amatch (crosses s None) max_fills tid client qty (Q (opposite s))
           in (evs @ (if r > 0 then [Revoke tid client 1] else []), Q(opposite s := q')))"

section \<open>Invariant of the engine\<close>

definition client_ids :: "(nat \<Rightarrow> nat list option) \<Rightarrow> nat \<Rightarrow> nat list" where
  "client_ids m c = (case m c of None \<Rightarrow> [] | Some lst \<Rightarrow> lst)"

definition orders_of :: "nat set \<Rightarrow> order_store \<Rightarrow> nat \<Rightarrow> nat set" where
  "orders_of P st c = {oid. oid \<notin> P \<and> (\<exists>ord. store_get st oid = Some ord \<and> o_client_id ord = c)}"

text \<open>
  The table is exact for every client other than 0.  The flag \<open>K\<close> says whether that is
  claimed: cancelling by the client number 0 can break it, and nothing about the book
  depends on it.
\<close>

definition clients_inv :: "bool \<Rightarrow> nat set \<Rightarrow> hp_engine \<Rightarrow> bool" where
  "clients_inv K P e \<longleftrightarrow>
     (K \<longrightarrow> (\<forall>c. c \<noteq> 0 \<longrightarrow> client_to_id e c \<noteq> Some [] \<and> distinct (client_ids (client_to_id e) c) \<and>
        set (client_ids (client_to_id e) c) = orders_of P (store (book e)) c))"

definition engine_inv :: "bool \<Rightarrow> hp_engine \<Rightarrow> bool" where
  "engine_inv K e \<longleftrightarrow> book_inv {} (book e) \<and> clients_inv K {} e"

section \<open>The head of a queue\<close>

lemma queue_mem:
  assumes inv: "book_inv P bk" and x: "x \<in> set (queue bk s)"
  shows "store_get (store bk) (o_id x) = Some x" and "o_side x = s" and "o_id x \<notin> P"
    and "0 < o_open_lot x" and "i64_ok (o_open_lot x)"
proof -
  obtain p where p: "p \<in> set (tagged (book_levels bk s))" "x = order_at (store bk) (snd p)"
    using x by (auto simp: queue_def)
  obtain ord where o: "store_get (store bk) (snd p) = Some ord" "o_side ord = s" "0 < o_open_lot ord" "i64_ok (o_open_lot ord)"
    using book_invD(8) [OF inv p(1)] by (auto elim!: resting_okE)
  moreover have "o_id ord = snd p" using store_invD(1) [OF book_invD(1) [OF inv] o(1)] .
  ultimately show "store_get (store bk) (o_id x) = Some x" "o_side x = s" "o_id x \<notin> P"
    "0 < o_open_lot x" "i64_ok (o_open_lot x)"
    using book_invD(7) [OF inv p(1)] p(2) by simp_all
qed

lemma queue_mem_iff:
  assumes inv: "book_inv P bk"
  shows "x \<in> set (queue bk s) \<longleftrightarrow> o_side x = s \<and> o_id x \<notin> P \<and> store_get (store bk) (o_id x) = Some x"
proof
  assume r: "o_side x = s \<and> o_id x \<notin> P \<and> store_get (store bk) (o_id x) = Some x"
  then have "(o_price_tick x, o_id x) \<in> set (tagged (book_levels bk s))"
    using book_invD(6) [OF inv] by blast
  then show "x \<in> set (queue bk s)" using r by (force simp: queue_def)
qed (use queue_mem [OF inv] in blast)

lemma queue_distinct: "book_inv P bk \<Longrightarrow> distinct (map o_id (queue bk s))"
  using queue_ids [of P bk s] levels_invD(3) [OF book_invD(5)] by simp

lemma queue_other_side:
  assumes "book_inv P bk" and "m \<in> set (queue bk (opposite s))"
  shows "filter (\<lambda>x. o_id x \<noteq> o_id m) (queue bk s) = queue bk s"
    and "map (\<lambda>x. if o_id x = o_id m then y else x) (queue bk s) = queue bk s"
proof -
  have "o_id x \<noteq> o_id m" if "x \<in> set (queue bk s)" for x
    using queue_mem(1,2) [OF assms] queue_mem(1,2) [OF assms(1) that] by auto
  then show "filter (\<lambda>x. o_id x \<noteq> o_id m) (queue bk s) = queue bk s"
    "map (\<lambda>x. if o_id x = o_id m then y else x) (queue bk s) = queue bk s"
    by (auto intro: filter_True map_idI)
qed

lemma queue_tail_ids:
  assumes "book_inv P bk" and "queue bk s = m # q" and "x \<in> set q"
  shows "o_id x \<noteq> o_id m"
  using queue_distinct [OF assms(1), of s] assms(2,3) by (metis distinct.simps(2) image_eqI list.set_map list.simps(9))

lemma queue_Nil:
  assumes "book_inv P bk" and "queue bk s = []"
  shows "best_cache bk s = None"
proof -
  have "tagged (book_levels bk s) = []" using assms(2) by (simp add: queue_def)
  then have "book_levels bk s = []"
    using levels_invD(2) [OF book_invD(5) [OF assms(1)], of s] by (cases "book_levels bk s") auto
  then show ?thesis using book_invD(4) [OF assms(1)] by (simp add: caches_ok_def best_of_def)
qed

lemma queue_Cons:
  assumes inv: "book_inv P bk" and q: "queue bk s = m # q"
  shows "best_cache bk s = Some (o_price_tick m)" and "front_id bk s (o_price_tick m) = Some (o_id m)"
proof -
  obtain e lv where lv: "book_levels bk s = e # lv"
    using q by (cases "book_levels bk s") (auto simp: queue_def)
  obtain i xs where i: "ids (snd e) = i # xs"
    using levels_invD(2) [OF book_invD(5) [OF inv], of s] lv by (cases "ids (snd e)") auto
  have p: "(fst e, i) \<in> set (tagged (book_levels bk s))" using lv i by simp
  have m: "m = order_at (store bk) i" using q lv i by (simp add: queue_def)
  have t: "o_price_tick m = fst e" using order_at_resting(1) [OF book_invD(8) [OF inv p]] m by simp
  have oid: "o_id m = i" using queue_ids [OF inv, of s] q lv i by simp
  show "best_cache bk s = Some (o_price_tick m)"
    using book_invD(4) [OF inv] lv t by (simp add: caches_ok_def best_of_def)
  show "front_id bk s (o_price_tick m) = Some (o_id m)"
    using book_invD(2) [OF inv] lv i t oid by (simp add: front_id_def book_level_view)
qed

text \<open>Queues are ordered by price: a later order never has a better tick.\<close>

lemma tagged_sorted: "keys_sorted (better s) lv \<Longrightarrow> sorted_wrt (\<lambda>a b. \<not> better s b a) (map fst (tagged lv))"
proof (induction lv)
  case Nil
  then show ?case by simp
next
  case (Cons e lv)
  have "\<not> better s (fst p) (fst e)" if "p \<in> set (tagged lv)" for p
  proof -
    have "fst p \<in> fst ` set lv" using that tagged_keys [of lv] by blast
    then have "better s (fst e) (fst p)" using Cons.prems by auto
    then show ?thesis by (rule better_asym)
  qed
  moreover have "sorted_wrt (\<lambda>a b. \<not> better s b a) (map (\<lambda>_. fst e) xs)" for xs :: "nat list"
    by (induction xs) auto
  ultimately show ?case using Cons by (auto simp: sorted_wrt_append comp_def)
qed

lemma queue_sorted:
  assumes inv: "book_inv P bk"
  shows "sorted_wrt (\<lambda>x y. \<not> better s (o_price_tick y) (o_price_tick x)) (queue bk s)"
proof -
  have "map o_price_tick (queue bk s) = map fst (tagged (book_levels bk s))"
    using order_at_resting(1) [OF book_invD(8) [OF inv]] by (simp add: queue_def)
  then have "sorted_wrt (\<lambda>a b. \<not> better s b a) (map o_price_tick (queue bk s))"
    using tagged_sorted [OF levels_invD(1) [OF book_invD(5) [OF inv]], of s] by simp
  then show ?thesis by (simp add: sorted_wrt_map)
qed

section \<open>One fill\<close>

lemma client_ids_forget:
  "client_ids (forget c oid m) c' = (if c' = c then filter (\<lambda>x. x \<noteq> oid) (client_ids m c) else client_ids m c')"
  by (auto simp: forget_def client_ids_def Let_def split: option.split)

lemma forget_nonempty: "m c' \<noteq> Some [] \<Longrightarrow> forget c oid m c' \<noteq> Some []"
  by (auto simp: forget_def Let_def split: option.split)

lemma clients_inv_forget:
  assumes ci: "clients_inv K P e" and get: "store_get (store (book e)) oid = Some ord"
    and bk: "\<And>x. store_get (store (book e')) x = (if x = oid then None else store_get (store (book e)) x)"
    and m: "client_to_id e' = (if o_client_id ord \<noteq> 0 then forget (o_client_id ord) oid (client_to_id e) else client_to_id e)"
  shows "clients_inv K P e'"
proof -
  have o: "orders_of P (store (book e')) c = orders_of P (store (book e)) c - {oid}" for c
    by (auto simp: orders_of_def bk)
  have "orders_of P (store (book e)) c - {oid} = orders_of P (store (book e)) c" if "c \<noteq> o_client_id ord" for c
    using that get by (auto simp: orders_of_def)
  then show ?thesis
    using ci unfolding clients_inv_def o m
    by (auto simp: client_ids_forget forget_nonempty)
qed

lemma fill_step_fields:
  assumes "fill_order mid (min mo opn) (book e) = (bk, r)"
  shows "events (fill_step tid tc t mid mo mc opn e) = events e @
           [Fill mid tid mc tc t (min mo opn) (if r = None then 0 else i64_sub mo (min mo opn)) (i64_sub opn (min mo opn))]"
    and "client_to_id (fill_step tid tc t mid mo mc opn e) =
           (if r = None \<and> mc \<noteq> 0 then forget mc mid (client_to_id e) else client_to_id e)"
  using assms by (simp_all add: fill_step_def Let_def push_event_def)

text \<open>The loop state after a fill, against the queue \<open>m # q\<close> it works on.\<close>

definition fill_post :: "bool \<Rightarrow> nat set \<Rightarrow> side \<Rightarrow> hp_engine \<Rightarrow> hp_event list \<Rightarrow> hp_order list \<Rightarrow> hp_engine \<Rightarrow> bool" where
  "fill_post K P s e evs q e' \<longleftrightarrow>
     events e' = events e @ evs \<and> book_inv P (book e') \<and> clients_inv K P e' \<and>
     queue (book e') (opposite s) = q \<and> queue (book e') s = queue (book e) s \<and>
     (\<forall>x \<in> P. store_get (store (book e')) x = store_get (store (book e)) x)"

lemma fill_post_trans:
  "fill_post K P s e evs q e' \<Longrightarrow> fill_post K P s e' evs' q' e'' \<Longrightarrow> fill_post K P s e (evs @ evs') q' e''"
  by (simp add: fill_post_def)

lemma fill_post_refl:
  "book_inv P (book e) \<Longrightarrow> clients_inv K P e \<Longrightarrow> fill_post K P s e [] (queue (book e) (opposite s)) e"
  by (simp add: fill_post_def)

lemma fill_step_deplete:
  assumes inv: "book_inv P (book e)" and ci: "clients_inv K P e"
    and q: "queue (book e) (opposite s) = m # q" and le: "o_open_lot m \<le> opn" "i64_ok opn"
  shows "fill_post K P s e [Fill (o_id m) tid (o_client_id m) tc (o_price_tick m) (o_open_lot m) 0 (opn - o_open_lot m)] q
    (fill_step tid tc (o_price_tick m) (o_id m) (o_open_lot m) (o_client_id m) opn e)" (is "fill_post _ _ _ _ _ _ ?e'")
proof -
  have mem: "m \<in> set (queue (book e) (opposite s))" using q by simp
  note mm = queue_mem [OF inv mem]
  note fd = fill_order_deplete [OF inv mm(1,3)]
  obtain bk where fo: "fill_order (o_id m) (o_open_lot m) (book e) = (bk, None)"
    using fd(1) by (metis prod.collapse)
  have mn: "min (o_open_lot m) opn = o_open_lot m" using le by simp
  have b: "book ?e' = bk" by (simp add: fill_step_book mn fo)
  have ex: "i64_sub opn (o_open_lot m) = opn - o_open_lot m"
    using mm(4) le by (intro i64_sub_exact i64_ok_sub_nonneg) simp_all
  have ev: "events ?e' = events e @
      [Fill (o_id m) tid (o_client_id m) tc (o_price_tick m) (o_open_lot m) 0 (opn - o_open_lot m)]"
    using fill_step_fields(1) [of "o_id m" "o_open_lot m" opn e] fo mn ex by simp
  have "client_to_id ?e' =
      (if o_client_id m \<noteq> 0 then forget (o_client_id m) (o_id m) (client_to_id e) else client_to_id e)"
    using fill_step_fields(2) [of "o_id m" "o_open_lot m" opn e] fo mn by simp
  then have "clients_inv K P ?e'"
    using fd(4) fo b by (intro clients_inv_forget [OF ci mm(1)]) simp_all
  moreover have "filter (\<lambda>x. o_id x \<noteq> o_id m) q = q"
    using queue_tail_ids [OF inv q] by (intro filter_True) auto
  ultimately show ?thesis
    using fd(2,3,4) fo b ev queue_other_side(1) [OF inv mem] q mm(3) by (auto simp: fill_post_def)
qed

lemma fill_step_partial:
  assumes inv: "book_inv P (book e)" and ci: "clients_inv K P e"
    and q: "queue (book e) (opposite s) = m # q" and le: "0 < opn" "opn < o_open_lot m"
  shows "fill_post K P s e [Fill (o_id m) tid (o_client_id m) tc (o_price_tick m) opn (o_open_lot m - opn) 0]
    (set_open (o_open_lot m - opn) m # q)
    (fill_step tid tc (o_price_tick m) (o_id m) (o_open_lot m) (o_client_id m) opn e)" (is "fill_post _ _ _ _ _ _ ?e'")
proof -
  have mem: "m \<in> set (queue (book e) (opposite s))" using q by simp
  note mm = queue_mem [OF inv mem]
  note fp = fill_order_partial [OF inv mm(1,3) le]
  obtain bk where fo: "fill_order (o_id m) opn (book e) = (bk, Some (set_open (o_open_lot m - opn) m))"
    using fp(1) by (metis prod.collapse)
  have mn: "min (o_open_lot m) opn = opn" using le by simp
  have b: "book ?e' = bk" by (simp add: fill_step_book mn fo)
  have ex: "i64_sub (o_open_lot m) opn = o_open_lot m - opn"
    using mm(5) le by (intro i64_sub_exact i64_ok_sub_nonneg) simp_all
  have ev: "events ?e' = events e @ [Fill (o_id m) tid (o_client_id m) tc (o_price_tick m) opn (o_open_lot m - opn) 0]"
    using fill_step_fields(1) [of "o_id m" "o_open_lot m" opn e] fo mn ex by simp
  have cm: "client_to_id ?e' = client_to_id e"
    using fill_step_fields(2) [of "o_id m" "o_open_lot m" opn e] fo mn by simp
  have "orders_of P (store (book ?e')) c = orders_of P (store (book e)) c" for c
    using fp(4) mm(1) fo b by (auto simp: orders_of_def)
  then have "clients_inv K P ?e'" using ci cm by (simp add: clients_inv_def)
  moreover have "map (\<lambda>x. if o_id x = o_id m then set_open (o_open_lot m - opn) m else x) q = q"
    using queue_tail_ids [OF inv q] by (intro map_idI) auto
  ultimately show ?thesis
    using fp(2,3,4) fo b ev queue_other_side(2) [OF inv mem] q mm(3) by (auto simp: fill_post_def)
qed

section \<open>The loop refines abstract matching\<close>

definition fills_left :: "nat option \<Rightarrow> nat \<Rightarrow> nat option" where
  "fills_left mx fc = map_option (\<lambda>n. n - fc) mx"

definition u32_opt :: "nat option \<Rightarrow> bool" where
  "u32_opt mx = (case mx of None \<Rightarrow> True | Some n \<Rightarrow> n < 2 ^ 32)"

lemma fills_left_zero: "exhausted mx fc \<longleftrightarrow> fills_left mx fc = Some 0"
  by (auto simp: exhausted_def fills_left_def split: option.split)

lemma fills_left_step:
  "u32_opt mx \<Longrightarrow> \<not> exhausted mx fc \<Longrightarrow>
   fills_left mx (u32_inc fc) = map_option (\<lambda>n. n - 1) (fills_left mx fc)"
  by (auto simp: exhausted_def fills_left_def u32_opt_def u32_inc_mod split: option.splits)

lemma maker_lookup:
  "book_inv P bk \<Longrightarrow> m \<in> set (queue bk s) \<Longrightarrow>
   maker_open_and_client (store bk) (o_id m) = Some (o_open_lot m, o_client_id m)"
  using queue_mem(1,4) [of P bk m s] by (simp add: maker_open_and_client_def)

lemma match_loop_Cons:
  assumes inv: "book_inv P (book e)" and q: "queue (book e) (opposite s) = m # q"
  shows "match_loop s tid tc lim mx fc opn e =
    (if exhausted mx fc \<or> opn \<le> 0 \<or> \<not> crosses s lim (o_price_tick m) then (opn, e)
     else match_loop s tid tc lim mx (u32_inc fc) (i64_sub opn (min (o_open_lot m) opn))
            (fill_step tid tc (o_price_tick m) (o_id m) (o_open_lot m) (o_client_id m) opn e))"
  using queue_Cons [OF inv q] maker_lookup [OF inv, of m "opposite s"] q
  by (subst match_loop.simps) simp

lemma match_loop_done: "opn \<le> 0 \<Longrightarrow> match_loop s tid tc lim mx fc opn e = (opn, e)"
  by (subst match_loop.simps) simp

lemma match_loop_refines:
  assumes "u32_opt mx" and "book_inv P (book e)" and "clients_inv K P e" and "i64_ok opn"
    and "queue (book e) (opposite s) = q"
    and "amatch (crosses s lim) (fills_left mx fc) tid tc opn q = (evs, r, q')"
  shows "\<exists>e'. match_loop s tid tc lim mx fc opn e = (r, e') \<and> fill_post K P s e evs q' e'"
  using assms
proof (induction q arbitrary: fc opn e evs)
  case Nil
  have "match_loop s tid tc lim mx fc opn e = (opn, e)"
    using queue_Nil [OF Nil.prems(2,5)] by (subst match_loop.simps) simp
  then show ?case using Nil fill_post_refl [OF Nil.prems(2,3), of s] by simp
next
  case (Cons m q)
  note inv = Cons.prems(2) and ci = Cons.prems(3) and q = Cons.prems(5)
  note am = Cons.prems(6)
  let ?e1 = "fill_step tid tc (o_price_tick m) (o_id m) (o_open_lot m) (o_client_id m) opn e"
  let ?fc1 = "u32_inc fc"
  note mm = queue_mem [OF inv, of m "opposite s", unfolded q, simplified]
  show ?case
  proof (cases "exhausted mx fc \<or> opn \<le> 0 \<or> \<not> crosses s lim (o_price_tick m)")
    case True
    then show ?thesis
      using am fill_post_refl [OF inv ci, of s] by (auto simp: match_loop_Cons [OF inv q] fills_left_zero q)
  next
    case go: False
    then have ex: "\<not> exhausted mx fc" and pos: "0 < opn" by auto
    note step = match_loop_Cons [OF inv q, of tid tc lim mx fc opn] go
    show ?thesis
    proof (cases "o_open_lot m \<le> opn")
      case True
      obtain evs1 where am1: "amatch (crosses s lim) (fills_left mx ?fc1) tid tc (opn - o_open_lot m) q = (evs1, r, q')"
        and evs: "evs = Fill (o_id m) tid (o_client_id m) tc (o_price_tick m) (o_open_lot m) 0 (opn - o_open_lot m) # evs1"
        using am go True fills_left_step [OF Cons.prems(1) ex]
        by (auto simp: fills_left_zero split: prod.splits)
      note post = fill_step_deplete [OF inv ci q True Cons.prems(4), of tid tc]
      have ok: "i64_ok (opn - o_open_lot m)" using Cons.prems(4) mm(4) True by (simp add: i64_ok_sub_nonneg)
      have sub: "i64_sub opn (min (o_open_lot m) opn) = opn - o_open_lot m" using True ok by (simp add: i64_sub_exact)
      obtain e' where "match_loop s tid tc lim mx ?fc1 (opn - o_open_lot m) ?e1 = (r, e')" "fill_post K P s ?e1 evs1 q' e'"
        using Cons.IH [OF Cons.prems(1) _ _ ok _ am1, of ?e1] post by (auto simp: fill_post_def)
      then show ?thesis using step sub fill_post_trans [OF post] evs by auto
    next
      case False
      have "match_loop s tid tc lim mx fc opn e = (0, ?e1)" using step False by (simp add: match_loop_done)
      then show ?thesis
        using am go False fill_step_partial [OF inv ci q pos, of tid tc] by (auto simp: fills_left_zero)
    qed
  qed
qed

end
