(* ===== verification/Hp_Refine.thy ===== *)
theory Hp_Refine
  imports Hp_Spec
begin

text \<open>
  Commands of the engine against the abstract queues: no command panics, each keeps
  \<^const>\<open>engine_inv\<close>, and its events and queues are those of the specification.
\<close>

section \<open>In-flight takers\<close>

text \<open>Changing only orders that are on no level: the levels and queues do not move.\<close>

lemma store_swap:
  assumes inv: "book_inv P bk" and st: "store_inv st'"
    and same: "\<And>x. x \<notin> P \<Longrightarrow> x \<notin> P' \<Longrightarrow> store_get st' x = store_get (store bk) x"
    and gone: "\<And>x. x \<in> P \<Longrightarrow> x \<notin> P' \<Longrightarrow> store_get st' x = None"
    and fresh: "\<And>x. x \<in> P' \<Longrightarrow> x \<notin> P \<Longrightarrow> store_get (store bk) x = None"
  shows "book_inv P' (bk\<lparr>store := st'\<rparr>)" and "queue (bk\<lparr>store := st'\<rparr>) s = queue bk s"
    and "orders_of P' st' c = orders_of P (store bk) c"
proof -
  note d = book_invD [OF inv]
  note li = levels_invD [OF d(5)]
  have out: "snd p \<notin> P'" and get: "store_get st' (snd p) = store_get (store bk) (snd p)"
    if p: "p \<in> set (tagged (book_levels bk s))" for p s
  proof -
    obtain ord where g: "store_get (store bk) (snd p) = Some ord"
      using d(8) [OF p] by (rule resting_okE)
    have out: "snd p \<notin> P" by (rule d(7) [OF p])
    show out': "snd p \<notin> P'" using fresh [OF _ out] g by auto
    show "store_get st' (snd p) = store_get (store bk) (snd p)" by (rule same [OF out out'])
  qed
  show "book_inv P' (bk\<lparr>store := st'\<rparr>)"
  proof (rule book_invI)
    fix s
    have "resting_ok s st' p" if "p \<in> set (tagged (book_levels bk s))" for p
      using li(4) [OF that] get [OF that] by (simp add: resting_ok_def)
    then show "levels_inv s (store (bk\<lparr>store := st'\<rparr>)) (book_levels (bk\<lparr>store := st'\<rparr>) s)"
      using li(1-3) by (intro levels_invI) simp_all
  next
    show "(o_price_tick ord, x) \<in> set (tagged (book_levels (bk\<lparr>store := st'\<rparr>) (o_side ord)))"
      if "store_get (store (bk\<lparr>store := st'\<rparr>)) x = Some ord" "x \<notin> P'" for x ord
      using that same [of x] gone [of x] d(6) [of x ord] by (cases "x \<in> P") auto
    show "snd p \<notin> P'" if "p \<in> set (tagged (book_levels (bk\<lparr>store := st'\<rparr>) s))" for s p
      using that out by simp
  qed (use st d(3,4) in simp_all)
  show "queue (bk\<lparr>store := st'\<rparr>) s = queue bk s"
    using get by (auto simp: queue_def order_at_def)
  have "x \<notin> P' \<and> store_get st' x = Some ord \<longleftrightarrow> x \<notin> P \<and> store_get (store bk) x = Some ord" for x ord
    using same [of x] gone [of x] fresh [of x] by (cases "x \<in> P"; cases "x \<in> P'") auto
  then show "orders_of P' st' c = orders_of P (store bk) c" by (auto simp: orders_of_def)
qed

lemma clients_inv_swap:
  "clients_inv K P e \<Longrightarrow> (\<And>c. orders_of P' st' c = orders_of P (store (book e)) c) \<Longrightarrow>
   clients_inv K P' (e\<lparr>book := (book e)\<lparr>store := st'\<rparr>\<rparr>)"
  by (simp add: clients_inv_def)

definition match_side :: "side \<Rightarrow> nat \<Rightarrow> nat \<Rightarrow> int option \<Rightarrow> nat option \<Rightarrow> hp_engine \<Rightarrow> hp_engine" where
  "match_side s tid tc lim mx e =
     (case s of Buy \<Rightarrow> match_buy tid tc lim mx e | Sell \<Rightarrow> match_sell tid tc lim mx e)"

lemma match_side_loop:
  assumes "match_loop s tid tc lim mx 0 (remaining_open (store (book e)) tid) e = (r, e')"
  shows "match_side s tid tc lim mx e = e'\<lparr>book := (book e')\<lparr>store := set_taker_open tid r (store (book e'))\<rparr>\<rparr>"
  using assms
  by (cases s) (simp_all add: match_side_def match_buy_def match_sell_def match_buy_loop_generic match_sell_loop_generic)

text \<open>
  From a state between commands, a stored taker and the matching of either side: the engine
  reaches a state with the taker in flight, its open quantity that of the specification.
\<close>

lemma taker_matched:
  assumes inv: "engine_inv K e" and mx: "u32_opt mx" and qty: "0 < o_open_lot ord" "i64_ok (o_open_lot ord)"
    and am: "amatch (crosses s lim) mx (next_id (store (book e))) tc (o_open_lot ord) (queue (book e) (opposite s)) = (evs, r, q')"
  defines "tid \<equiv> next_id (store (book e))"
  obtains st e2 where "store_insert ord (store (book e)) = Some (st, tid)"
    and "match_side s tid tc lim mx (e\<lparr>book := (book e)\<lparr>store := st\<rparr>\<rparr>) = e2"
    and "events e2 = events e @ evs" and "book_inv {tid} (book e2)" and "clients_inv K {tid} e2"
    and "queue (book e2) (opposite s) = q'" and "queue (book e2) s = queue (book e) s"
    and "store_get (store (book e2)) tid = Some (ord\<lparr>o_id := tid, o_open_lot := r\<rparr>)"
proof -
  have b: "book_inv {} (book e)" and c: "clients_inv K {} e" using inv by (simp_all add: engine_inv_def)
  obtain st where ins: "store_insert ord (store (book e)) = Some (st, tid)" "store_inv st"
    and get: "\<And>x. store_get st x = (if x = tid then Some (ord\<lparr>o_id := tid\<rparr>) else store_get (store (book e)) x)"
    unfolding tid_def by (rule store_insert_ok [OF book_invD(1) [OF b], of ord]) blast
  define e1 where "e1 = e\<lparr>book := (book e)\<lparr>store := st\<rparr>\<rparr>"
  have fr: "store_get (store (book e)) tid = None"
    unfolding tid_def by (rule next_id_fresh [OF book_invD(1) [OF b]])
  have sw: "book_inv {tid} (book e1)" "queue (book e1) s' = queue (book e) s'"
    "orders_of {tid} st c' = orders_of {} (store (book e)) c'" for s' c'
    using store_swap [OF b ins(2), of "{tid}"] get fr by (simp_all add: e1_def)
  have c1: "clients_inv K {tid} e1" unfolding e1_def using clients_inv_swap [OF c] sw(3) by blast
  have op: "remaining_open (store (book e1)) tid = o_open_lot ord"
    by (simp add: remaining_open_def e1_def get)
  have am': "amatch (crosses s lim) (fills_left mx 0) tid tc (o_open_lot ord) (queue (book e1) (opposite s)) = (evs, r, q')"
    using am by (cases mx) (simp_all add: sw(2) fills_left_def tid_def)
  obtain e' where ml: "match_loop s tid tc lim mx 0 (o_open_lot ord) e1 = (r, e')" and fp: "fill_post K {tid} s e1 evs q' e'"
    using match_loop_refines [OF mx sw(1) c1 qty(2) refl am'] by blast
  define st2 where "st2 = set_taker_open tid r (store (book e'))"
  define e2 where "e2 = e'\<lparr>book := (book e')\<lparr>store := st2\<rparr>\<rparr>"
  have m: "match_side s tid tc lim mx e1 = e2"
    using match_side_loop [of s tid tc lim mx e1] ml op by (simp add: e2_def st2_def)
  have fp': "events e' = events e @ evs" "book_inv {tid} (book e')" "clients_inv K {tid} e'"
    "queue (book e') (opposite s) = q'" "queue (book e') s = queue (book e) s"
    "store_get (store (book e')) tid = Some (ord\<lparr>o_id := tid\<rparr>)"
    using fp sw(2) by (simp_all add: fill_post_def) (simp_all add: e1_def get)
  have s2: "store_inv st2" "\<And>x. x \<noteq> tid \<Longrightarrow> store_get st2 x = store_get (store (book e')) x"
    using store_inv_update [OF book_invD(1) [OF fp'(2)]] by (simp_all add: st2_def set_taker_open_def)
  have sw2: "book_inv {tid} (book e2)" "queue (book e2) s' = queue (book e') s'"
    "orders_of {tid} st2 c' = orders_of {tid} (store (book e')) c'" for s' c'
    using store_swap [OF fp'(2) s2(1), of "{tid}"] s2(2) by (simp_all add: e2_def)
  have c2: "clients_inv K {tid} e2" unfolding e2_def using clients_inv_swap [OF fp'(3)] sw2(3) by blast
  have g2: "store_get (store (book e2)) tid = Some (ord\<lparr>o_id := tid, o_open_lot := r\<rparr>)"
    using fp'(6) by (simp add: e2_def st2_def set_taker_open_def)
  show thesis
    by (rule that [OF ins(1) m [unfolded e1_def]]) (use fp' sw2 c2 g2 in \<open>simp_all add: e2_def\<close>)
qed

section \<open>Abstract matching: bounds\<close>

lemma amatch_bounds:
  assumes "\<forall>m \<in> set q. 0 < o_open_lot m" and "0 \<le> opn"
    and "amatch cr k tid tc opn q = (evs, r, q')"
  shows "0 \<le> r" and "r \<le> opn"
  using assms
proof (induction q arbitrary: k opn evs)
  case (Cons m q)
  { case 1 with Cons.IH(1) [of "opn - o_open_lot m"] show ?case
      by (auto split: if_splits prod.splits) }
  { case 2 with Cons.IH(2) [of "opn - o_open_lot m"] show ?case
      by (fastforce split: if_splits prod.splits) }
qed simp_all

section \<open>Limit and market orders\<close>

lemma client_ids_remember:
  "client_ids (remember c oid m) c' = (if c' = c then client_ids m c @ [oid] else client_ids m c')"
  by (simp add: client_ids_def remember_def)

lemma clients_inv_remember:
  assumes ci: "clients_inv K {tid} e" and get: "store_get (store (book e)) tid = Some ord"
    and st: "store bk = store (book e)"
  shows "clients_inv K {} (e\<lparr>book := bk, client_to_id := remember (o_client_id ord) tid (client_to_id e)\<rparr>)"
proof -
  have o: "orders_of {} (store (book e)) c =
      (if c = o_client_id ord then insert tid (orders_of {tid} (store (book e)) c) else orders_of {tid} (store (book e)) c)" for c
    using get by (auto simp: orders_of_def)
  have n: "tid \<notin> orders_of {tid} (store (book e)) c" for c by (simp add: orders_of_def)
  show ?thesis
    using ci n by (auto simp: clients_inv_def client_ids_remember st o) (auto simp: remember_def split: if_splits)
qed

lemma clients_inv_events [simp]: "clients_inv K P (push_event ev e) = clients_inv K P e"
  by (simp add: clients_inv_def push_event_def)

lemma push_event_fields [simp]:
  "book (push_event ev e) = book e" "events (push_event ev e) = events e @ [ev]"
  "client_to_id (push_event ev e) = client_to_id e"
  by (simp_all add: push_event_def)

lemma drop_taker:
  assumes "book_inv {tid} (book e)" and "clients_inv K {tid} e"
  defines "e' \<equiv> e\<lparr>book := (book e)\<lparr>store := fst (store_remove tid (store (book e)))\<rparr>\<rparr>"
  shows "engine_inv K e'" and "queue (book e') s = queue (book e) s" and "events e' = events e"
proof -
  have "store_inv (fst (store_remove tid (store (book e))))"
    by (rule store_inv_remove [OF book_invD(1) [OF assms(1)]])
  note sw = store_swap [OF assms(1) this, of "{}", simplified]
  show "engine_inv K e'"
    using sw(1) clients_inv_swap [OF assms(2), of "{}"] sw(3) by (simp add: engine_inv_def e'_def)
  show "queue (book e') s = queue (book e) s" "events e' = events e" by (simp_all add: e'_def sw(2))
qed

lemma on_limit_refines:
  assumes inv: "engine_inv K e" and qty: "i64_ok qty"
    and spec: "spec_limit s price qty ts client (next_id (store (book e))) (queue (book e)) = (evs, Q')"
  shows "\<exists>e'. on_limit s price qty ts client e = Some e' \<and> engine_inv K e' \<and>
    events e' = events e @ evs \<and> queue (book e') = Q'"
proof (cases "qty \<le> 0")
  case True
  then show ?thesis using inv spec by (simp add: on_limit_def spec_limit_def)
next
  case False
  define tid where "tid = next_id (store (book e))"
  define ord where "ord = \<lparr>o_id = 0, o_side = s, o_price_tick = price, o_qty_lot = qty,
    o_open_lot = qty, o_ts = ts, o_client_id = client\<rparr>"
  obtain evs1 r q' where am: "amatch (crosses s (Some price)) None tid client qty (queue (book e) (opposite s)) = (evs1, r, q')"
    using prod_cases3 by blast
  have pos: "\<forall>m \<in> set (queue (book e) (opposite s)). 0 < o_open_lot m"
    using inv queue_mem(4) by (auto simp: engine_inv_def)
  have r: "0 \<le> r" "r \<le> qty" using amatch_bounds [OF pos _ am] False by simp_all
  then have okr: "i64_ok r" using qty by (simp add: i64_ok_def)
  obtain st e2 where ins: "store_insert ord (store (book e)) = Some (st, tid)"
    and ms: "match_side s tid client (Some price) None (e\<lparr>book := (book e)\<lparr>store := st\<rparr>\<rparr>) = e2"
    and e2: "events e2 = events e @ evs1" "book_inv {tid} (book e2)" "clients_inv K {tid} e2"
      "queue (book e2) (opposite s) = q'" "queue (book e2) s = queue (book e) s"
      "store_get (store (book e2)) tid = Some (ord\<lparr>o_id := tid, o_open_lot := r\<rparr>)"
    by (rule taker_matched [OF inv, of None ord s "Some price" client evs1 r q'])
       (use False qty am in \<open>simp_all add: ord_def u32_opt_def tid_def\<close>)
  have lim: "on_limit s price qty ts client e =
      (if r > 0 then
         (case rest tid (book e2) of None \<Rightarrow> None
          | Some bk \<Rightarrow> Some (push_event (Rest tid client s price r)
                (e2\<lparr>book := bk, client_to_id := remember client tid (client_to_id e2)\<rparr>)))
       else Some (e2\<lparr>book := (book e2)\<lparr>store := fst (store_remove tid (store (book e2)))\<rparr>\<rparr>))"
    using False ins [unfolded ord_def] e2(6)
    by (simp add: on_limit_def remaining_open_def Let_def match_side_def [symmetric] ms cong: option.case_cong)
  have other: "x = s" if "x \<noteq> opposite s" for x using that by (cases x; cases s) auto
  show ?thesis
  proof (cases "r > 0")
    case True
    note pl = place_inv [of tid "{}", OF e2(2) _ e2(6)]
    define ord' where "ord' = ord\<lparr>o_id := tid, o_open_lot := r\<rparr>"
    define bk where "bk = place s price tid r (book e2)"
    have rb: "rest tid (book e2) = Some bk" using rest_place [OF e2(6)] by (simp add: bk_def ord_def)
    have bi: "book_inv {} bk" "store bk = store (book e2)"
      "queue bk x = (if x = s then enqueue x ord' (queue (book e2) x) else queue (book e2) x)" for x
      using pl True okr by (simp_all add: bk_def ord'_def ord_def)
    have "engine_inv K (push_event (Rest tid client s price r)
        (e2\<lparr>book := bk, client_to_id := remember client tid (client_to_id e2)\<rparr>))"
      using clients_inv_remember [OF e2(3,6) bi(2)] bi(1) by (simp add: engine_inv_def ord_def)
    moreover have "queue bk = Q'"
    proof
      fix x show "queue bk x = Q' x"
        using spec False am True e2(4,5) bi(3) [of x] other [of x]
        by (cases "x = s") (auto simp: spec_limit_def ord'_def ord_def tid_def)
    qed
    ultimately show ?thesis
      using lim rb True spec False am e2(1) by (auto simp: spec_limit_def tid_def)
  next
    case z: False
    note dt = drop_taker [OF e2(2,3)]
    have "queue (book (e2\<lparr>book := (book e2)\<lparr>store := fst (store_remove tid (store (book e2)))\<rparr>\<rparr>)) = Q'"
    proof
      fix x show "queue (book (e2\<lparr>book := (book e2)\<lparr>store := fst (store_remove tid (store (book e2)))\<rparr>\<rparr>)) x = Q' x"
        using spec False am z e2(4,5) dt(2) [of x] other [of x]
        by (cases "x = s") (auto simp: spec_limit_def tid_def)
    qed
    then show ?thesis using lim z dt(1,3) spec False am e2(1) by (auto simp: spec_limit_def tid_def)
  qed
qed

lemma on_market_refines:
  assumes inv: "engine_inv K e" and qty: "i64_ok qty" and mx: "u32_opt mx"
    and spec: "spec_market s qty mx client (next_id (store (book e))) (queue (book e)) = (evs, Q')"
  shows "\<exists>e'. on_market s qty ts mx client e = Some e' \<and> engine_inv K e' \<and>
    events e' = events e @ evs \<and> queue (book e') = Q'"
proof (cases "qty \<le> 0")
  case True
  then show ?thesis using inv spec by (simp add: on_market_def spec_market_def)
next
  case False
  define tid where "tid = next_id (store (book e))"
  define ord where "ord = \<lparr>o_id = 0, o_side = s, o_price_tick = 0, o_qty_lot = qty,
    o_open_lot = qty, o_ts = ts, o_client_id = client\<rparr>"
  obtain evs1 r q' where am: "amatch (crosses s None) mx tid client qty (queue (book e) (opposite s)) = (evs1, r, q')"
    using prod_cases3 by blast
  obtain st e2 where ins: "store_insert ord (store (book e)) = Some (st, tid)"
    and ms: "match_side s tid client None mx (e\<lparr>book := (book e)\<lparr>store := st\<rparr>\<rparr>) = e2"
    and e2: "events e2 = events e @ evs1" "book_inv {tid} (book e2)" "clients_inv K {tid} e2"
      "queue (book e2) (opposite s) = q'" "queue (book e2) s = queue (book e) s"
      "store_get (store (book e2)) tid = Some (ord\<lparr>o_id := tid, o_open_lot := r\<rparr>)"
    by (rule taker_matched [OF inv mx, of ord s None client evs1 r q'])
       (use False qty am in \<open>simp_all add: ord_def tid_def\<close>)
  define e3 where "e3 = (if r > 0 then push_event (Revoke tid client 1) e2 else e2)"
  have mk: "on_market s qty ts mx client e =
      Some (e3\<lparr>book := (book e3)\<lparr>store := fst (store_remove tid (store (book e3)))\<rparr>\<rparr>)"
    using False ins [unfolded ord_def] e2(6)
    by (simp add: on_market_def remaining_open_def Let_def match_side_def [symmetric] ms e3_def)
  have e3: "book_inv {tid} (book e3)" "clients_inv K {tid} e3" "book e3 = book e2"
    "events e3 = events e @ evs1 @ (if r > 0 then [Revoke tid client 1] else [])"
    using e2 by (simp_all add: e3_def)
  note dt = drop_taker [OF e3(1,2)]
  have other: "x = s" if "x \<noteq> opposite s" for x using that by (cases x; cases s) auto
  have "queue (book (e3\<lparr>book := (book e3)\<lparr>store := fst (store_remove tid (store (book e3)))\<rparr>\<rparr>)) = Q'"
  proof
    fix x show "queue (book (e3\<lparr>book := (book e3)\<lparr>store := fst (store_remove tid (store (book e3)))\<rparr>\<rparr>)) x = Q' x"
      using spec False am e2(4,5) e3(3) dt(2) [of x] other [of x]
      by (cases "x = s") (auto simp: spec_market_def tid_def)
  qed
  then show ?thesis using mk dt(1,3) spec False am e3(4) by (auto simp: spec_market_def tid_def)
qed

section \<open>Cancellation\<close>

lemma cancel_all_effect:
  assumes "book_inv {} (book e)" and "distinct lst"
  shows "book_inv {} (book (cancel_all c lst e)) \<and>
    (\<forall>s. queue (book (cancel_all c lst e)) s = filter (\<lambda>x. o_id x \<notin> set lst) (queue (book e) s)) \<and>
    (\<forall>x. store_get (store (book (cancel_all c lst e))) x =
       (if x \<in> set lst then None else store_get (store (book e)) x)) \<and>
    events (cancel_all c lst e) =
      events e @ map (\<lambda>oid. Revoke oid c 0) (filter (\<lambda>oid. store_contains (store (book e)) oid) lst) \<and>
    client_to_id (cancel_all c lst e) = client_to_id e"
  using assms
proof (induction lst arbitrary: e)
  case (Cons slot lst)
  define bk where "bk = fst (cancel slot (book e))"
  define hit where "hit = store_contains (store (book e)) slot"
  define e1 where "e1 = (if hit then push_event (Revoke slot c 0) (e\<lparr>book := bk\<rparr>) else e\<lparr>book := bk\<rparr>)"
  have snd: "snd (cancel slot (book e)) = hit"
    by (cases "store_get (store (book e)) slot")
       (simp_all add: hit_def store_contains_def cancel_absent cancel_present)
  have e1: "cancel_all c (slot # lst) e = cancel_all c lst e1"
    using snd by (cases "cancel slot (book e)"; cases hit) (simp_all add: e1_def bk_def)
  have inv: "book_inv {} (book e)" and dist: "slot \<notin> set lst" "distinct lst" using Cons.prems by simp_all
  have f: "book e1 = bk" "client_to_id e1 = client_to_id e"
    "events e1 = events e @ (if hit then [Revoke slot c 0] else [])" by (simp_all add: e1_def)
  have "book_inv {} bk \<and> (\<forall>s. queue bk s = filter (\<lambda>x. o_id x \<noteq> slot) (queue (book e) s)) \<and>
    (\<forall>x. store_get (store bk) x = (if x = slot then None else store_get (store (book e)) x))"
  proof (cases "store_get (store (book e)) slot")
    case (Some ord)
    then show ?thesis using cancel_effect [OF inv Some] by (simp add: bk_def)
  next
    case None
    have "o_id x \<noteq> slot" if "x \<in> set (queue (book e) s)" for x s
      using queue_mem(1) [OF inv that] None by auto
    then have "filter (\<lambda>x. o_id x \<noteq> slot) (queue (book e) s) = queue (book e) s" for s
      by (intro filter_True) blast
    then show ?thesis using inv None by (simp add: bk_def cancel_absent)
  qed
  then have b: "book_inv {} bk" "queue bk s = filter (\<lambda>x. o_id x \<noteq> slot) (queue (book e) s)"
    "store_get (store bk) x = (if x = slot then None else store_get (store (book e)) x)" for s x
    by simp_all
  have keep: "filter (\<lambda>oid. store_contains (store bk) oid) lst = filter (\<lambda>oid. store_contains (store (book e)) oid) lst"
    using dist(1) by (intro filter_cong) (auto simp: store_contains_def b(3))
  note IH = Cons.IH [of e1, unfolded f, OF b(1) dist(2)]
  have q: "filter (\<lambda>x. o_id x \<notin> set lst) (filter (\<lambda>x. o_id x \<noteq> slot) xs) =
      filter (\<lambda>x. o_id x \<notin> set (slot # lst)) xs" for xs by (auto intro: filter_cong)
  show ?case unfolding e1 using IH by (auto simp: b q keep hit_def)
qed simp

lemma cancel_all_inv: "book_inv {} (book e) \<Longrightarrow> book_inv {} (book (cancel_all c lst e))"
proof (induction lst arbitrary: e)
  case (Cons slot lst)
  have "book_inv {} (fst (cancel slot (book e)))"
    using Cons.prems cancel_effect(2) by (cases "store_get (store (book e)) slot") (auto simp: cancel_absent)
  then show ?case
    using Cons.IH by (cases "cancel slot (book e)"; cases "snd (cancel slot (book e))") auto
qed simp

lemma on_cancel_by_id:
  assumes inv: "engine_inv K e" and get: "store_get (store (book e)) oid = Some ord"
  shows "engine_inv K (on_cancel oid e)"
    and "queue (book (on_cancel oid e)) s = filter (\<lambda>x. o_id x \<noteq> oid) (queue (book e) s)"
    and "events (on_cancel oid e) = events e @ [Revoke oid (o_client_id ord) 0]"
proof -
  have b: "book_inv {} (book e)" and c: "clients_inv K {} e" using inv by (simp_all add: engine_inv_def)
  note ce = cancel_effect [OF b get]
  define e' where "e' = e\<lparr>book := fst (cancel oid (book e)), client_to_id := forget (o_client_id ord) oid (client_to_id e)\<rparr>"
  have oc: "on_cancel oid e = push_event (Revoke oid (o_client_id ord) 0) e'"
    using ce(1) get by (simp add: on_cancel_def e'_def split_beta)
  have gt: "store_get (store (book e')) x = (if x = oid then None else store_get (store (book e)) x)" for x
    using ce(4) by (simp add: e'_def)
  have "clients_inv K {} e'"
  proof (cases "o_client_id ord = 0")
    case False
    then show ?thesis using gt by (intro clients_inv_forget [OF c get]) (simp_all add: e'_def)
  next
    case True
    have "client_to_id e' x = client_to_id e x" if "x \<noteq> 0" for x
      using that True by (simp add: e'_def forget_def Let_def split: option.split)
    moreover have "orders_of {} (store (book e')) x = orders_of {} (store (book e)) x" if "x \<noteq> 0" for x
      using that True get by (auto simp: orders_of_def gt)
    ultimately show ?thesis using c by (simp add: clients_inv_def client_ids_def)
  qed
  then show "engine_inv K (on_cancel oid e)" using ce(2) by (simp add: oc engine_inv_def) (simp add: e'_def)
  show "queue (book (on_cancel oid e)) s = filter (\<lambda>x. o_id x \<noteq> oid) (queue (book e) s)"
    "events (on_cancel oid e) = events e @ [Revoke oid (o_client_id ord) 0]"
    using ce(3) by (simp_all add: oc) (simp_all add: e'_def)
qed

lemma on_cancel_by_client:
  assumes inv: "engine_inv True e" and miss: "store_get (store (book e)) c = None" and c: "c \<noteq> 0"
  defines "lst \<equiv> client_ids (client_to_id e) c"
  shows "engine_inv True (on_cancel c e)"
    and "queue (book (on_cancel c e)) s = filter (\<lambda>x. o_client_id x \<noteq> c) (queue (book e) s)"
    and "events (on_cancel c e) = events e @ map (\<lambda>oid. Revoke oid c 0) lst"
    and "distinct lst" and "set lst = orders_of {} (store (book e)) c"
proof -
  have b: "book_inv {} (book e)" and ci: "clients_inv True {} e" using inv by (simp_all add: engine_inv_def)
  define e1 where "e1 = e\<lparr>client_to_id := (client_to_id e)(c := None)\<rparr>"
  have oc: "on_cancel c e = cancel_all c lst e1"
    using miss by (cases "client_to_id e c") (simp_all add: on_cancel_def lst_def client_ids_def e1_def fun_upd_idem)
  show d: "distinct lst" and l: "set lst = orders_of {} (store (book e)) c"
    using ci c by (simp_all add: clients_inv_def lst_def)
  have b1: "book e1 = book e" "events e1 = events e" by (simp_all add: e1_def)
  note ca = cancel_all_effect [of e1 lst c, unfolded b1, OF b d]
  have live: "filter (\<lambda>oid. store_contains (store (book e)) oid) lst = lst"
    using l by (intro filter_True) (auto simp: orders_of_def store_contains_def)
  have "o_id x \<in> set lst \<longleftrightarrow> o_client_id x = c" if "x \<in> set (queue (book e) s)" for x
    using queue_mem(1) [OF b that] l by (auto simp: orders_of_def)
  then show "queue (book (on_cancel c e)) s = filter (\<lambda>x. o_client_id x \<noteq> c) (queue (book e) s)"
    using ca unfolding oc by (auto intro: filter_cong)
  show "events (on_cancel c e) = events e @ map (\<lambda>oid. Revoke oid c 0) lst" using ca live unfolding oc by simp
  have "orders_of {} (store (book (on_cancel c e))) x = (if x = c then {} else orders_of {} (store (book e)) x)" for x
    using ca l unfolding oc by (auto simp: orders_of_def)
  then have "clients_inv True {} (on_cancel c e)"
    using ci ca unfolding oc by (auto simp: clients_inv_def client_ids_def e1_def)
  then show "engine_inv True (on_cancel c e)" using ca unfolding oc by (simp add: engine_inv_def)
qed

lemma on_cancel_keeps:
  assumes "engine_inv K e" and "K \<Longrightarrow> oid \<noteq> 0"
  shows "engine_inv K (on_cancel oid e)"
proof (cases "store_get (store (book e)) oid")
  case (Some ord)
  then show ?thesis by (rule on_cancel_by_id(1) [OF assms(1)])
next
  case None
  show ?thesis
  proof (cases K)
    case True
    then show ?thesis using on_cancel_by_client(1) [OF _ None] assms by simp
  next
    case False
    have "book_inv {} (book e)" using assms(1) by (simp add: engine_inv_def)
    then have "book_inv {} (book (on_cancel oid e))"
      using None cancel_all_inv by (simp add: on_cancel_def split: option.split)
    then show ?thesis using False by (simp add: engine_inv_def clients_inv_def)
  qed
qed

end
