(* ===== verification/Hp_Props.thy ===== *)
theory Hp_Props
  imports Hp_Refine
begin

text \<open>
  Properties of the high-performance engine over all runs: \<open>reach\<close> is the set of states that
  command sequences lead to.  The engine never panics, refines the abstract queues, keeps
  the book uncrossed, conserves quantity, fills by price-time priority, and its cached best
  ticks are the extreme live prices.
\<close>

section \<open>Runs\<close>

text \<open>The ranges of the command's \<open>i64\<close> and \<open>u32\<close> fields.\<close>

fun cmd_typed :: "hp_command \<Rightarrow> bool" where
  "cmd_typed (Limit s price qty ts client) = (i64_ok price \<and> i64_ok qty)"
| "cmd_typed (Cancel oid) = True"
| "cmd_typed (Market s qty ts mx client) = (i64_ok qty \<and> u32_opt mx)"

text \<open>The flag excludes the command \<open>Cancel 0\<close> from a run; without it, all runs are meant.\<close>

inductive reach :: "bool \<Rightarrow> hp_engine \<Rightarrow> bool" for K where
  reach_new: "reach K engine_new"
| reach_cap: "reach K (engine_with_capacity n m)"
| reach_step: "reach K e \<Longrightarrow> cmd_typed cmd \<Longrightarrow> (K \<Longrightarrow> cmd \<noteq> Cancel 0) \<Longrightarrow>
    on_order cmd e = Some e' \<Longrightarrow> reach K e'"

fun run :: "hp_command list \<Rightarrow> hp_engine \<Rightarrow> hp_engine option" where
  "run [] e = Some e"
| "run (cmd # cmds) e = (case on_order cmd e of None \<Rightarrow> None | Some e' \<Rightarrow> run cmds e')"

text \<open>No two resting orders of opposite sides could trade.\<close>

definition uncrossed :: "aqueues \<Rightarrow> bool" where
  "uncrossed Q \<longleftrightarrow> (\<forall>s. \<forall>x \<in> set (Q s). \<forall>y \<in> set (Q (opposite s)). better s (o_price_tick y) (o_price_tick x))"

definition volume :: "hp_order list \<Rightarrow> int" where
  "volume q = sum_list (map o_open_lot q)"

definition fills :: "hp_event list \<Rightarrow> hp_event list" where
  "fills evs = filter is_Fill evs"

definition traded :: "hp_event list \<Rightarrow> int" where
  "traded evs = sum_list (map f_qty_lot (fills evs))"

definition live_prices :: "hp_engine \<Rightarrow> side \<Rightarrow> int set" where
  "live_prices e s = {o_price_tick ord | oid ord. store_get (store (book e)) oid = Some ord \<and> o_side ord = s}"

section \<open>Lemmas on the abstract level\<close>

lemma fills_simps [simp]:
  "fills [] = []" "fills (Fill a b c d x y z w # evs) = Fill a b c d x y z w # fills evs"
  "fills (Rest i c s p q # evs) = fills evs" "fills (Revoke i c r # evs) = fills evs"
  "fills (evs @ evs') = fills evs @ fills evs'"
  by (simp_all add: fills_def)

lemma amatch_only_fills: "amatch cr k tid tc opn q = (evs, r, q') \<Longrightarrow> fills evs = evs"
  by (induction q arbitrary: k opn evs) (auto split: if_splits prod.splits)

lemma amatch_conserves:
  "amatch cr k tid tc opn q = (evs, r, q') \<Longrightarrow>
   opn = traded evs + r \<and> volume q = traded evs + volume q'"
  by (induction q arbitrary: k opn evs) (fastforce simp: traded_def volume_def split: if_splits prod.splits)+

lemma amatch_prices: "amatch cr k tid tc opn q = (evs, r, q') \<Longrightarrow> o_price_tick ` set q' \<subseteq> o_price_tick ` set q"
  by (induction q arbitrary: k opn evs) (fastforce split: if_splits prod.splits)+

lemma amatch_residual:
  assumes "amatch (crosses s (Some price)) None tid tc opn q = (evs, r, q')" and "0 < r"
    and "sorted_wrt (\<lambda>x y. \<not> better (opposite s) (o_price_tick y) (o_price_tick x)) q"
  shows "\<forall>y \<in> set q'. better s (o_price_tick y) price"
  using assms
proof (induction q arbitrary: opn evs)
  case (Cons m q)
  show ?case
  proof (cases "opn \<le> 0 \<or> \<not> crosses s (Some price) (o_price_tick m)")
    case True
    then have "better s (o_price_tick m) price" "q' = m # q"
      using Cons.prems(1,2) by (auto simp: crosses_def)
    moreover have "better s (o_price_tick y) price" if "y \<in> set q" for y
      using calculation(1) Cons.prems(3) that by (cases s) (auto simp: better_opposite)
    ultimately show ?thesis by simp
  next
    case False
    then show ?thesis using Cons by (auto split: if_splits prod.splits)
  qed
qed simp

text \<open>The fills name the makers of a prefix of the queue, in order, at the makers' prices.\<close>

lemma amatch_priority:
  assumes "amatch cr k tid tc opn q = (evs, r, q')" and "\<forall>m \<in> set q. 0 < o_open_lot m"
  shows "\<exists>n \<le> length q. map (\<lambda>ev. (f_maker_id ev, f_price_tick ev)) evs = map (\<lambda>m. (o_id m, o_price_tick m)) (take n q) \<and>
    (\<forall>m \<in> set (take n q). cr (o_price_tick m)) \<and>
    (\<forall>ev \<in> set evs. is_Fill ev \<and> f_taker_id ev = tid \<and> 0 < f_qty_lot ev) \<and>
    (case k of None \<Rightarrow> True | Some mx \<Rightarrow> n \<le> mx)"
  using assms
proof (induction q arbitrary: k opn evs)
  case (Cons m q)
  show ?case
  proof (cases "k = Some 0 \<or> opn \<le> 0 \<or> \<not> cr (o_price_tick m)")
    case True
    then show ?thesis using Cons.prems by (intro exI [of _ 0]) (auto split: option.split)
  next
    case go: False
    show ?thesis
    proof (cases "o_open_lot m \<le> opn")
      case True
      obtain evs1 where a: "amatch cr (map_option (\<lambda>n. n - 1) k) tid tc (opn - o_open_lot m) q = (evs1, r, q')"
        and e: "evs = Fill (o_id m) tid (o_client_id m) tc (o_price_tick m) (o_open_lot m) 0 (opn - o_open_lot m) # evs1"
        using Cons.prems(1) go True by (auto split: prod.splits)
      from Cons.IH [OF a] Cons.prems(2) obtain n where
        "n \<le> length q" "map (\<lambda>ev. (f_maker_id ev, f_price_tick ev)) evs1 = map (\<lambda>m. (o_id m, o_price_tick m)) (take n q)"
        "\<forall>m \<in> set (take n q). cr (o_price_tick m)" "\<forall>ev \<in> set evs1. is_Fill ev \<and> f_taker_id ev = tid \<and> 0 < f_qty_lot ev"
        "case map_option (\<lambda>n. n - 1) k of None \<Rightarrow> True | Some mx \<Rightarrow> n \<le> mx" by auto
      then show ?thesis using e go Cons.prems(2)
        by (intro exI [of _ "Suc n"]) (auto split: option.splits)
    next
      case False
      then show ?thesis using Cons.prems(1) go by (intro exI [of _ "Suc 0"]) (auto split: option.split)
    qed
  qed
qed (auto split: option.split)

lemma set_enqueue: "set (enqueue s ord q) = insert ord (set q)"
proof -
  have "set (takeWhile P q) \<union> set (dropWhile P q) = set q" for P
    by (metis set_append takeWhile_dropWhile_id)
  then show ?thesis by (auto simp: enqueue_def)
qed

lemma volume_enqueue: "volume (enqueue s ord q) = o_open_lot ord + volume q"
proof -
  have "volume (takeWhile P q) + volume (dropWhile P q) = volume q" for P
    unfolding volume_def by (metis map_append sum_list_append takeWhile_dropWhile_id)
  then show ?thesis by (simp add: enqueue_def volume_def algebra_simps)
qed

section \<open>Commands on reachable states\<close>

lemma engine_inv_new: "engine_inv K engine_new" "engine_inv K (engine_with_capacity n m)"
  by (simp_all add: engine_inv_def clients_inv_def engine_new_def engine_with_capacity_def client_ids_def
      orders_of_def book_inv_new book_inv_with_capacity)
     (simp_all add: book_new_def book_with_capacity_def)

lemma engine_inv_events [simp]: "engine_inv K (e\<lparr>events := evs\<rparr>) = engine_inv K e"
  by (simp add: engine_inv_def clients_inv_def)

lemma on_order_keeps:
  assumes inv: "engine_inv K e" and t: "cmd_typed cmd" and z: "K \<Longrightarrow> cmd \<noteq> Cancel 0"
  shows "\<exists>e'. on_order cmd e = Some e' \<and> engine_inv K e'"
proof (cases cmd)
  case (Limit s price qty ts client)
  then show ?thesis
    using on_limit_refines [of K "e\<lparr>events := []\<rparr>"] inv t by (metis cmd_typed.simps(1) engine_inv_events on_order.simps(1) prod.collapse)
next
  case (Cancel oid)
  then show ?thesis using on_cancel_keeps [of K "e\<lparr>events := []\<rparr>" oid] inv z by auto
next
  case (Market s qty ts mx client)
  then show ?thesis
    using on_market_refines [of K "e\<lparr>events := []\<rparr>"] inv t by (metis cmd_typed.simps(3) engine_inv_events on_order.simps(3) prod.collapse)
qed

lemma reach_inv: "reach K e \<Longrightarrow> engine_inv K e"
proof (induction rule: reach.induct)
  case (reach_step e cmd e')
  then show ?case using on_order_keeps [of K e cmd] by auto
qed (simp_all add: engine_inv_new)

lemma reach_book_inv: "reach K e \<Longrightarrow> book_inv {} (book e)"
  using reach_inv [of K e] by (simp add: engine_inv_def)

lemma reach_run:
  "reach K e \<Longrightarrow> list_all (\<lambda>cmd. cmd_typed cmd \<and> (K \<longrightarrow> cmd \<noteq> Cancel 0)) cmds \<Longrightarrow>
   \<exists>e'. run cmds e = Some e' \<and> reach K e'"
proof (induction cmds arbitrary: e)
  case (Cons cmd cmds)
  then obtain e1 where "on_order cmd e = Some e1" using on_order_keeps [OF reach_inv [OF Cons.prems(1)], of cmd] by auto
  then show ?case using Cons reach_step [OF Cons.prems(1), of cmd e1] by simp
qed simp

lemma on_order_limit:
  assumes "engine_inv K e" and "i64_ok qty" and "on_order (Limit s price qty ts client) e = Some e'"
  shows "(events e', queue (book e')) =
    spec_limit s price qty ts client (next_id (store (book e))) (queue (book e))"
  using on_limit_refines [of K "e\<lparr>events := []\<rparr>" qty s price ts client] assms
  by (cases "spec_limit s price qty ts client (next_id (store (book e))) (queue (book e))") auto

lemma on_order_market:
  assumes "engine_inv K e" and "i64_ok qty" and "u32_opt mx" and "on_order (Market s qty ts mx client) e = Some e'"
  shows "(events e', queue (book e')) =
    spec_market s qty mx client (next_id (store (book e))) (queue (book e))"
  using on_market_refines [of K "e\<lparr>events := []\<rparr>" qty mx s client _ _ ts] assms
  by (cases "spec_market s qty mx client (next_id (store (book e))) (queue (book e))") auto

lemma queues_only_shrink_on_cancel:
  assumes "engine_inv False e"
  shows "set (queue (book (on_cancel oid e)) s) \<subseteq> set (queue (book e) s)"
proof (cases "store_get (store (book e)) oid")
  case (Some ord)
  then show ?thesis using on_cancel_by_id(2) [OF assms Some, of s] by simp
next
  case None
  have sub: "book_inv {} (book e1) \<Longrightarrow> set (queue (book (cancel_all c lst e1)) s) \<subseteq> set (queue (book e1) s)" for c lst e1
  proof (induction lst arbitrary: e1)
    case (Cons slot lst)
    have c: "book_inv {} (fst (cancel slot (book e1)))" "set (queue (fst (cancel slot (book e1))) s) \<subseteq> set (queue (book e1) s)"
      using Cons.prems cancel_effect(2,3) [OF Cons.prems, of slot]
      by (cases "store_get (store (book e1)) slot"; simp add: cancel_absent)+
    show ?case
    proof (cases "cancel slot (book e1)")
      case (Pair bk b)
      then show ?thesis using c Cons.IH [of "push_event (Revoke slot c 0) (e1\<lparr>book := bk\<rparr>)"] Cons.IH [of "e1\<lparr>book := bk\<rparr>"]
        by (cases b) auto
    qed
  qed simp
  show ?thesis
    using None assms sub [of "e\<lparr>client_to_id := (client_to_id e)(oid := None)\<rparr>" oid]
    by (cases "client_to_id e oid") (simp_all add: on_cancel_def engine_inv_def)
qed

lemma uncrossed_mono:
  assumes un: "uncrossed Q" and sub: "\<And>s. o_price_tick ` set (Q' s) \<subseteq> o_price_tick ` set (Q s)"
  shows "uncrossed Q'"
  unfolding uncrossed_def
proof (intro allI ballI)
  fix s x y assume x: "x \<in> set (Q' s)" and y: "y \<in> set (Q' (opposite s))"
  obtain x' where x': "x' \<in> set (Q s)" "o_price_tick x = o_price_tick x'" using sub [of s] x by blast
  obtain y' where y': "y' \<in> set (Q (opposite s))" "o_price_tick y = o_price_tick y'"
    using sub [of "opposite s"] y by blast
  show "better s (o_price_tick y) (o_price_tick x)"
    using un x' y' by (simp add: uncrossed_def)
qed

lemma uncrossedI:
  assumes "\<forall>x \<in> set (Q s). \<forall>y \<in> set (Q (opposite s)). better s (o_price_tick y) (o_price_tick x)"
  shows "uncrossed Q"
  unfolding uncrossed_def
proof (intro allI ballI)
  fix s' x y assume m: "x \<in> set (Q s')" "y \<in> set (Q (opposite s'))"
  show "better s' (o_price_tick y) (o_price_tick x)"
  proof (cases "s' = s")
    case False
    then have "s' = opposite s" by (cases s; cases s') simp_all
    then show ?thesis using assms m by (simp add: better_opposite)
  qed (use assms m in simp)
qed

lemma uncrossed_spec_limit:
  assumes un: "uncrossed Q"
    and sorted: "sorted_wrt (\<lambda>x y. \<not> better (opposite s) (o_price_tick y) (o_price_tick x)) (Q (opposite s))"
    and spec: "spec_limit s price qty ts client tid Q = (evs, Q')"
  shows "uncrossed Q'"
proof (cases "qty \<le> 0")
  case True
  then show ?thesis using un spec by (simp add: spec_limit_def)
next
  case False
  obtain evs1 r q' where am: "amatch (crosses s (Some price)) None tid client qty (Q (opposite s)) = (evs1, r, q')"
    using prod_cases3 by blast
  have un1: "uncrossed (Q(opposite s := q'))"
    using uncrossed_mono [OF un, of "Q(opposite s := q')"] amatch_prices [OF am] by simp
  show ?thesis
  proof (cases "r > 0")
    case True
    define ord where "ord = \<lparr>o_id = tid, o_side = s, o_price_tick = price, o_qty_lot = qty,
      o_open_lot = r, o_ts = ts, o_client_id = client\<rparr>"
    have Q': "Q' = (Q(opposite s := q'))(s := enqueue s ord (Q s))"
      using spec False am True by (simp add: spec_limit_def ord_def)
    have res: "\<forall>y \<in> set q'. better s (o_price_tick y) (o_price_tick ord)"
      using amatch_residual [OF am True sorted] by (simp add: ord_def)
    have old: "\<forall>x \<in> set (Q s). \<forall>y \<in> set q'. better s (o_price_tick y) (o_price_tick x)"
      using un1 [unfolded uncrossed_def, rule_format, of _ s] by simp
    have "\<forall>x \<in> set (Q' s). \<forall>y \<in> set (Q' (opposite s)). better s (o_price_tick y) (o_price_tick x)"
      using old res by (simp add: Q' set_enqueue)
    then show ?thesis by (rule uncrossedI)
  next
    case z: False
    then show ?thesis using un1 spec False am by (simp add: spec_limit_def)
  qed
qed

lemma reach_uncrossed: "reach K e \<Longrightarrow> uncrossed (queue (book e))"
proof (induction rule: reach.induct)
  case (reach_step e cmd e')
  have b: "book_inv {} (book e)" by (rule reach_book_inv [OF reach_step.hyps(1)])
  then have inv: "engine_inv False e" by (simp add: engine_inv_def clients_inv_def)
  show ?case
  proof (cases cmd)
    case (Limit s price qty ts client)
    then have "(events e', queue (book e')) = spec_limit s price qty ts client (next_id (store (book e))) (queue (book e))"
      using on_order_limit [OF inv] reach_step by auto
    then show ?thesis by (rule uncrossed_spec_limit [OF reach_step.IH queue_sorted [OF b] sym])
  next
    case (Cancel oid)
    have "set (queue (book (on_cancel oid (e\<lparr>events := []\<rparr>))) s) \<subseteq> set (queue (book e) s)" for s
      using queues_only_shrink_on_cancel [of "e\<lparr>events := []\<rparr>" oid s] inv by simp
    then show ?thesis using Cancel reach_step by (auto intro!: uncrossed_mono [OF reach_step.IH] image_mono)
  next
    case (Market s qty ts mx client)
    then have "(events e', queue (book e')) = spec_market s qty mx client (next_id (store (book e))) (queue (book e))"
      using on_order_market [OF inv] reach_step by auto
    moreover obtain evs1 r q' where am: "amatch (crosses s None) mx (next_id (store (book e))) client qty
        (queue (book e) (opposite s)) = (evs1, r, q')"
      using prod_cases3 by blast
    moreover have "uncrossed ((queue (book e))(opposite s := q'))"
      using amatch_prices [OF am] by (intro uncrossed_mono [OF reach_step.IH]) simp
    ultimately show ?thesis using reach_step.IH by (cases "qty \<le> 0") (simp_all add: spec_market_def fun_upd_def)
  qed
qed (simp_all add: uncrossed_def engine_new_def engine_with_capacity_def book_new_def book_with_capacity_def
      queue_def book_levels_def bid_levels_def ask_levels_def split: side.split)

section \<open>The best ticks\<close>

lemma finite_live: "finite (live_prices e s)"
proof -
  have "live_prices e s \<subseteq> (\<lambda>x. o_price_tick (the x)) ` set (slots (store (book e)))"
    by (force simp: live_prices_def store_get_def image_iff split: if_splits dest: nth_mem)
  then show ?thesis by (rule finite_subset) simp
qed

lemma live_prices_queue: "book_inv {} (book e) \<Longrightarrow> live_prices e s = o_price_tick ` set (queue (book e) s)"
proof -
  assume b: "book_inv {} (book e)"
  have "ord \<in> set (queue (book e) s) \<longleftrightarrow> o_side ord = s \<and> (\<exists>oid. store_get (store (book e)) oid = Some ord)" for ord
    using store_invD(1) [OF book_invD(1) [OF b]] by (auto simp: queue_mem_iff [OF b])
  then show ?thesis by (auto simp: live_prices_def image_def Bex_def)
qed

lemma best_cache_extreme:
  assumes b: "book_inv {} (book e)"
  shows "best_cache (book e) s = None \<longleftrightarrow> live_prices e s = {}"
    and "best_cache (book e) s = Some t \<Longrightarrow> t \<in> live_prices e s \<and> (\<forall>u \<in> live_prices e s. \<not> better s u t)"
proof -
  show "best_cache (book e) s = None \<longleftrightarrow> live_prices e s = {}"
    using queue_Nil [OF b, of s] queue_Cons(1) [OF b, of s]
    by (cases "queue (book e) s") (simp_all add: live_prices_queue [OF b])
  assume t: "best_cache (book e) s = Some t"
  then obtain m q where q: "queue (book e) s = m # q" using queue_Nil [OF b, of s] by (cases "queue (book e) s") auto
  then show "t \<in> live_prices e s \<and> (\<forall>u \<in> live_prices e s. \<not> better s u t)"
    using t queue_Cons(1) [OF b q] queue_sorted [OF b, of s] by (auto simp: live_prices_queue [OF b])
qed

section \<open>A concrete run\<close>

definition demo_cmds :: "hp_command list" where
  "demo_cmds = [Limit Sell 101 5 1 7, Limit Sell 100 3 2 8, Limit Sell 100 4 3 9, Limit Buy 99 6 4 7]"

definition demo :: hp_engine where
  "demo = (case run demo_cmds engine_new of Some e \<Rightarrow> e | None \<Rightarrow> engine_new)"

lemma reach_demo: "reach K demo"
proof -
  have "list_all (\<lambda>cmd. cmd_typed cmd \<and> (K \<longrightarrow> cmd \<noteq> Cancel 0)) demo_cmds"
    by (simp add: demo_cmds_def i64_ok_def)
  then obtain e where "run demo_cmds engine_new = Some e" "reach K e" using reach_run [OF reach_new] by blast
  then show ?thesis by (simp add: demo_def)
qed

section \<open>Properties\<close>

text \<open>
  C3. The engine never panics: in every reachable state every command of the wire types
  returns, and the state it returns satisfies the book invariant (sorted non-empty levels
  holding exactly the live orders, exact best-price caches, free list and live counter
  consistent with the slots).
\<close>
theorem hp_no_panic:
  assumes "reach K e" and "cmd_typed cmd"
  shows "\<exists>e'. on_order cmd e = Some e' \<and> book_inv {} (book e')"
proof -
  have "engine_inv False e" using reach_inv [OF assms(1)] by (simp add: engine_inv_def clients_inv_def)
  then show ?thesis using on_order_keeps [of False e cmd] assms(2) by (auto simp: engine_inv_def)
qed

theorem hp_no_panic_witness:
  "\<exists>e'. on_order (Market Buy 20 5 None 4) demo = Some e' \<and> book_inv {} (book e')"
  by (rule hp_no_panic [OF reach_demo]) (simp add: i64_ok_def u32_opt_def)

text \<open>
  C2. A limit order does to the engine what the specification does to two priority queues:
  same events in the same order, same resulting queues of both sides.
\<close>
theorem hp_limit_refines:
  assumes "reach K e" and "cmd_typed (Limit s price qty ts client)"
  shows "\<exists>e'. on_order (Limit s price qty ts client) e = Some e' \<and>
    (events e', queue (book e')) = spec_limit s price qty ts client (next_id (store (book e))) (queue (book e))"
proof -
  have inv: "engine_inv False e" using reach_inv [OF assms(1)] by (simp add: engine_inv_def clients_inv_def)
  then obtain e' where e': "on_order (Limit s price qty ts client) e = Some e'"
    using on_order_keeps [OF inv assms(2)] by auto
  then show ?thesis using on_order_limit [OF inv _ e'] assms(2) by simp
qed

theorem hp_limit_refines_witness:
  "\<exists>e'. on_order (Limit Buy 100 5 9 4) demo = Some e' \<and>
    (events e', queue (book e')) = spec_limit Buy 100 5 9 4 (next_id (store (book demo))) (queue (book demo))"
  by (rule hp_limit_refines [OF reach_demo]) (simp add: i64_ok_def)

text \<open>
  C16. A market order refines the specification as well: it walks the opposite queue without
  a price bound and at most \<open>max_fills\<close> makers, revokes the rest and leaves its own side
  of the book as it was.
\<close>
theorem hp_market_refines:
  assumes "reach K e" and "cmd_typed (Market s qty ts mx client)"
  shows "\<exists>e'. on_order (Market s qty ts mx client) e = Some e' \<and>
    (events e', queue (book e')) = spec_market s qty mx client (next_id (store (book e))) (queue (book e)) \<and>
    queue (book e') s = queue (book e) s"
proof -
  have inv: "engine_inv False e" using reach_inv [OF assms(1)] by (simp add: engine_inv_def clients_inv_def)
  then obtain e' where e': "on_order (Market s qty ts mx client) e = Some e'"
    using on_order_keeps [OF inv assms(2)] by auto
  then have "(events e', queue (book e')) = spec_market s qty mx client (next_id (store (book e))) (queue (book e))"
    using on_order_market [OF inv _ _ e'] assms(2) by simp
  moreover from this have "queue (book e') s = queue (book e) s"
    by (auto simp: spec_market_def split: if_splits prod.splits)
  ultimately show ?thesis using e' by blast
qed

theorem hp_market_refines_witness:
  "\<exists>e'. on_order (Market Buy 5 9 (Some 1) 4) demo = Some e' \<and>
    (events e', queue (book e')) = spec_market Buy 5 (Some 1) 4 (next_id (store (book demo))) (queue (book demo)) \<and>
    queue (book e') Buy = queue (book demo) Buy"
  by (rule hp_market_refines [OF reach_demo]) (simp add: i64_ok_def u32_opt_def)

text \<open>C5. The book is never crossed: in every reachable state the best bid is below the best ask.\<close>
theorem hp_never_crossed:
  assumes "reach K e" and "best_bid (book e) = Some b" and "best_ask (book e) = Some a"
  shows "b < a"
proof -
  note bi = reach_book_inv [OF assms(1)]
  have "b \<in> live_prices e Buy" "a \<in> live_prices e Sell"
    using best_cache_extreme(2) [OF bi, of Buy b] best_cache_extreme(2) [OF bi, of Sell a] assms(2,3)
    by (simp_all add: best_bid_def best_ask_def)
  then obtain x y where "x \<in> set (queue (book e) Buy)" "o_price_tick x = b" "y \<in> set (queue (book e) Sell)" "o_price_tick y = a"
    by (auto simp: live_prices_queue [OF bi])
  then show ?thesis using reach_uncrossed [OF assms(1)] unfolding uncrossed_def all_side by auto
qed

theorem hp_never_crossed_witness:
  "best_bid (book demo) = Some 99 \<and> best_ask (book demo) = Some 100 \<and> (99::int) < 100"
proof -
  have b: "best_bid (book demo) = Some 99" by code_simp
  have a: "best_ask (book demo) = Some 100" by code_simp
  show ?thesis using hp_never_crossed [OF reach_demo b a] a b by blast
qed

text \<open>
  C15. Price-time priority: the fills of a limit order name, in order, a prefix of the
  opposite queue, each at the maker's own tick, never at a tick worse than the taker's
  limit, and always for a positive quantity.
\<close>
theorem hp_price_time_priority:
  assumes "reach K e" and "cmd_typed (Limit s price qty ts client)"
    and "on_order (Limit s price qty ts client) e = Some e'"
  shows "\<exists>n \<le> length (queue (book e) (opposite s)).
    map (\<lambda>ev. (f_maker_id ev, f_price_tick ev)) (fills (events e')) =
      map (\<lambda>m. (o_id m, o_price_tick m)) (take n (queue (book e) (opposite s))) \<and>
    (\<forall>ev \<in> set (fills (events e')). \<not> better s (f_price_tick ev) price \<and> 0 < f_qty_lot ev)"
proof (cases "qty \<le> 0")
  case True
  then show ?thesis using assms(3) by (auto simp: on_limit_def intro!: exI [of _ 0])
next
  case False
  let ?q = "queue (book e) (opposite s)" and ?tid = "next_id (store (book e))"
  have inv: "engine_inv False e" using reach_inv [OF assms(1)] by (simp add: engine_inv_def clients_inv_def)
  have pos: "\<forall>m \<in> set ?q. 0 < o_open_lot m" using queue_mem(4) [OF reach_book_inv [OF assms(1)]] by blast
  obtain evs r q' where am: "amatch (crosses s (Some price)) None ?tid client qty ?q = (evs, r, q')"
    using prod_cases3 by blast
  have "fills (events e') = evs"
    using on_order_limit [OF inv _ assms(3)] assms(2) False am amatch_only_fills [OF am]
    by (auto simp: spec_limit_def split: if_splits)
  moreover obtain n where n: "n \<le> length ?q"
    "map (\<lambda>ev. (f_maker_id ev, f_price_tick ev)) evs = map (\<lambda>m. (o_id m, o_price_tick m)) (take n ?q)"
    "\<forall>m \<in> set (take n ?q). crosses s (Some price) (o_price_tick m)" "\<forall>ev \<in> set evs. 0 < f_qty_lot ev"
    using amatch_priority [OF am pos] by auto
  moreover have "f_price_tick ` set evs = o_price_tick ` set (take n ?q)"
    using arg_cong [OF n(2), of "\<lambda>l. snd ` set l"] by (simp add: image_image)
  then have "\<forall>ev \<in> set evs. \<not> better s (f_price_tick ev) price" using n(3) by (force simp: crosses_def)
  ultimately show ?thesis by blast
qed

theorem hp_price_time_priority_witness:
  "\<exists>e'. on_order (Limit Buy 100 5 9 4) demo = Some e' \<and>
    (\<exists>n \<le> length (queue (book demo) Sell).
      map (\<lambda>ev. (f_maker_id ev, f_price_tick ev)) (fills (events e')) =
        map (\<lambda>m. (o_id m, o_price_tick m)) (take n (queue (book demo) Sell)))"
proof -
  have t: "cmd_typed (Limit Buy 100 5 9 4)" by (simp add: i64_ok_def)
  obtain e' where e': "on_order (Limit Buy 100 5 9 4) demo = Some e'"
    using on_order_keeps [OF reach_inv [OF reach_demo [of False]] t] by auto
  show ?thesis using e' hp_price_time_priority [OF reach_demo t e'] by auto
qed

text \<open>
  C18. Quantity is conserved: a limit order removes from the opposite side exactly what its
  fills report, and adds to its own side exactly what it did not trade.
\<close>
theorem hp_conserves_quantity:
  assumes "reach K e" and "cmd_typed (Limit s price qty ts client)" and "0 < qty"
    and "on_order (Limit s price qty ts client) e = Some e'"
  shows "volume (queue (book e') (opposite s)) = volume (queue (book e) (opposite s)) - traded (events e') \<and>
    volume (queue (book e') s) = volume (queue (book e) s) + (qty - traded (events e')) \<and>
    0 \<le> traded (events e') \<and> traded (events e') \<le> qty"
proof -
  let ?q = "queue (book e) (opposite s)" and ?tid = "next_id (store (book e))"
  have inv: "engine_inv False e" using reach_inv [OF assms(1)] by (simp add: engine_inv_def clients_inv_def)
  have pos: "\<forall>m \<in> set ?q. 0 < o_open_lot m" using queue_mem(4) [OF reach_book_inv [OF assms(1)]] by blast
  obtain evs r q' where am: "amatch (crosses s (Some price)) None ?tid client qty ?q = (evs, r, q')"
    using prod_cases3 by blast
  note c = amatch_conserves [OF am] and b = amatch_bounds [OF pos _ am]
  have tr: "traded (evs @ [Rest i cl sd p x]) = traded evs" for i cl sd p x by (simp add: traded_def)
  have spec: "(events e', queue (book e')) = spec_limit s price qty ts client ?tid (queue (book e))"
    using on_order_limit [OF inv _ assms(4)] assms(2) by simp
  show ?thesis
    using spec assms(3) am c b by (cases "r > 0") (auto simp: spec_limit_def volume_enqueue tr)
qed

theorem hp_conserves_quantity_witness:
  "\<exists>e'. on_order (Limit Buy 100 9 9 4) demo = Some e' \<and>
    volume (queue (book e') Sell) = volume (queue (book demo) Sell) - traded (events e') \<and>
    volume (queue (book e') Buy) = volume (queue (book demo) Buy) + (9 - traded (events e'))"
proof -
  have t: "cmd_typed (Limit Buy 100 9 9 4)" by (simp add: i64_ok_def)
  obtain e' where e': "on_order (Limit Buy 100 9 9 4) demo = Some e'"
    using on_order_keeps [OF reach_inv [OF reach_demo [of False]] t] by auto
  show ?thesis using e' hp_conserves_quantity [OF reach_demo t _ e'] by simp
qed

text \<open>
  The cached best ticks are exact: the best ask is the least tick of a live sell order
  and the best bid the greatest tick of a live buy order, absent exactly when that side has
  no live order.
\<close>
theorem hp_best_is_extreme:
  assumes "reach K e"
  shows "best_ask (book e) = (if live_prices e Sell = {} then None else Some (Min (live_prices e Sell))) \<and>
    best_bid (book e) = (if live_prices e Buy = {} then None else Some (Max (live_prices e Buy)))"
proof -
  note bi = reach_book_inv [OF assms]
  note x = best_cache_extreme [OF bi, of Sell] best_cache_extreme [OF bi, of Buy]
  have "best_ask (book e) = Some (Min (live_prices e Sell))" if "live_prices e Sell \<noteq> {}"
    using that x(1,2) finite_live [of e Sell]
    by (cases "best_ask_tick (book e)") (auto simp: best_ask_def not_less intro!: Min_eqI [symmetric])
  moreover have "best_bid (book e) = Some (Max (live_prices e Buy))" if "live_prices e Buy \<noteq> {}"
    using that x(3,4) finite_live [of e Buy]
    by (cases "best_bid_tick (book e)") (auto simp: best_bid_def not_less intro!: Max_eqI [symmetric])
  ultimately show ?thesis using x(1,3) by (simp add: best_ask_def best_bid_def)
qed

theorem hp_best_is_extreme_witness:
  "best_ask (book demo) = (if live_prices demo Sell = {} then None else Some (Min (live_prices demo Sell))) \<and>
    best_ask (book demo) = Some 100"
proof -
  have "best_ask (book demo) = Some 100" by code_simp
  then show ?thesis using hp_best_is_extreme [OF reach_demo] by blast
qed

text \<open>
  C29. Cancelling a live order by its identifier takes exactly that order off the book,
  reports one revocation naming its client, and touches no other order of either queue.
\<close>
theorem hp_cancel_by_id:
  assumes "reach K e" and "store_get (store (book e)) oid = Some ord"
  shows "\<exists>e'. on_order (Cancel oid) e = Some e' \<and> events e' = [Revoke oid (o_client_id ord) 0] \<and>
    store_get (store (book e')) oid = None \<and>
    (\<forall>s. queue (book e') s = filter (\<lambda>x. o_id x \<noteq> oid) (queue (book e) s))"
proof -
  have inv: "engine_inv K (e\<lparr>events := []\<rparr>)" using reach_inv [OF assms(1)] by simp
  have get: "store_get (store (book (e\<lparr>events := []\<rparr>))) oid = Some ord" using assms(2) by simp
  note c = on_cancel_by_id [OF inv get]
  have bi: "book_inv {} (book (on_cancel oid (e\<lparr>events := []\<rparr>)))" using c(1) by (simp add: engine_inv_def)
  have "store_get (store (book (on_cancel oid (e\<lparr>events := []\<rparr>)))) oid = None"
  proof (rule ccontr)
    assume "\<not> ?thesis"
    then obtain o' where o': "store_get (store (book (on_cancel oid (e\<lparr>events := []\<rparr>)))) oid = Some o'" by blast
    then have "o_id o' = oid" using store_invD(1) [OF book_invD(1) [OF bi]] by blast
    then have "o' \<in> set (queue (book (on_cancel oid (e\<lparr>events := []\<rparr>))) (o_side o'))"
      using o' by (simp add: queue_mem_iff [OF bi])
    then show False using c(2) [of "o_side o'"] \<open>o_id o' = oid\<close> by simp
  qed
  then show ?thesis using c(2,3) by simp
qed

theorem hp_cancel_by_id_witness:
  "\<exists>e'. on_order (Cancel 2) demo = Some e' \<and> events e' = [Revoke 2 8 0] \<and>
    store_get (store (book e')) 2 = None \<and>
    (\<forall>s. queue (book e') s = filter (\<lambda>x. o_id x \<noteq> 2) (queue (book demo) s))"
proof -
  have "map_option o_client_id (store_get (store (book demo)) 2) = Some 8" by code_simp
  then obtain ord where o: "store_get (store (book demo)) 2 = Some ord" "o_client_id ord = 8" by auto
  show ?thesis using hp_cancel_by_id [OF reach_demo o(1)] o(2) by simp
qed

text \<open>
  C30. Cancelling by a client number other than 0 that is no live identifier revokes exactly
  the live orders of that client, each once, in every run without the command \<open>Cancel 0\<close>.
\<close>
theorem hp_cancel_by_client:
  assumes "reach True e" and "c \<noteq> 0" and "store_get (store (book e)) c = None"
  shows "\<exists>e' lst. on_order (Cancel c) e = Some e' \<and> events e' = map (\<lambda>oid. Revoke oid c 0) lst \<and> distinct lst \<and>
    set lst = {oid. \<exists>ord. store_get (store (book e)) oid = Some ord \<and> o_client_id ord = c} \<and>
    (\<forall>s. queue (book e') s = filter (\<lambda>x. o_client_id x \<noteq> c) (queue (book e) s))"
proof -
  have inv: "engine_inv True (e\<lparr>events := []\<rparr>)" using reach_inv [OF assms(1)] by simp
  have get: "store_get (store (book (e\<lparr>events := []\<rparr>))) c = None" using assms(3) by simp
  note x = on_cancel_by_client [OF inv get assms(2)]
  show ?thesis
    by (rule exI [of _ "on_cancel c (e\<lparr>events := []\<rparr>)"], rule exI [of _ "client_ids (client_to_id e) c"])
       (use x in \<open>simp add: orders_of_def\<close>)
qed

theorem hp_cancel_by_client_witness:
  "\<exists>e' lst. on_order (Cancel 7) demo = Some e' \<and> events e' = map (\<lambda>oid. Revoke oid 7 0) lst \<and> distinct lst \<and>
    set lst = {oid. \<exists>ord. store_get (store (book demo)) oid = Some ord \<and> o_client_id ord = 7} \<and>
    (\<forall>s. queue (book e') s = filter (\<lambda>x. o_client_id x \<noteq> 7) (queue (book demo) s))"
proof -
  have "store_get (store (book demo)) 7 = None" by code_simp
  then show ?thesis using hp_cancel_by_client [OF reach_demo] by simp
qed

end
