(* ===== verification/Rust_Text.thy ===== *)
theory Rust_Text
  imports Prelude
begin

text \<open>
  Text operations of the standard library that the code calls, on strings of characters up to
  U+00FF: white space and \<open>trim\<close>, decimal printing of integers and \<open>str::parse::<i64>\<close>.
\<close>

definition is_white :: "char \<Rightarrow> bool" where
  "is_white c \<longleftrightarrow> (let n = of_char c :: int in 9 \<le> n \<and> n \<le> 13 \<or> n = 32 \<or> n = 133 \<or> n = 160)"

definition trim :: "string \<Rightarrow> string" where
  "trim s = rev (dropWhile is_white (rev (dropWhile is_white s)))"

definition is_digit :: "char \<Rightarrow> bool" where
  "is_digit c \<longleftrightarrow> (let n = of_char c :: int in 48 \<le> n \<and> n \<le> 57)"

definition digit_val :: "char \<Rightarrow> int" where
  "digit_val c = of_char c - 48"

definition digit_char :: "int \<Rightarrow> char" where
  "digit_char n = char_of (48 + n)"

fun parse_digits :: "int \<Rightarrow> string \<Rightarrow> int option" where
  "parse_digits acc [] = Some acc"
| "parse_digits acc (c # cs) = (if is_digit c then parse_digits (10 * acc + digit_val c) cs else None)"

definition parse_i64 :: "string \<Rightarrow> int option" where
  "parse_i64 s =
     (let (neg, ds) = (case s of [] \<Rightarrow> (False, []) | c # cs \<Rightarrow>
            if c = CHR ''-'' then (True, cs) else if c = CHR ''+'' then (False, cs) else (False, s))
      in if ds = [] then None
         else Option.bind (parse_digits 0 ds)
                (\<lambda>n. let v = (if neg then - n else n) in if i64_ok v then Some v else None))"

text \<open>Printing; the argument is not negative.\<close>

function show_nat :: "int \<Rightarrow> string" where
  "show_nat n = (if n < 10 then [digit_char n] else show_nat (n div 10) @ [digit_char (n mod 10)])"
  by pat_completeness auto
termination by (relation "measure nat") auto

declare show_nat.simps [simp del]

definition show_i64 :: "int \<Rightarrow> string" where
  "show_i64 v = (if v < 0 then CHR ''-'' # show_nat (- v) else show_nat v)"

section \<open>Lemmas\<close>

lemma digit_char [simp]:
  assumes "0 \<le> n" and "n < 10"
  shows "is_digit (digit_char n)" and "digit_val (digit_char n) = n"
  using assms by (simp_all add: is_digit_def digit_val_def digit_char_def)

lemma digit_not [simp]: "is_digit c \<Longrightarrow> \<not> is_white c" "is_digit c \<Longrightarrow> c \<noteq> CHR ''-''" "is_digit c \<Longrightarrow> c \<noteq> CHR ''+''"
  "is_digit c \<Longrightarrow> c \<noteq> CHR ''.''"
  by (auto simp: is_digit_def is_white_def Let_def)

lemma digit_val_bounds: "is_digit c \<Longrightarrow> 0 \<le> digit_val c \<and> digit_val c \<le> 9"
  by (simp add: is_digit_def digit_val_def Let_def)

text \<open>The number a digit string denotes.\<close>

definition digits_num :: "string \<Rightarrow> int" where
  "digits_num ds = foldl (\<lambda>acc c. 10 * acc + digit_val c) 0 ds"

lemma foldl_digits: "foldl (\<lambda>acc c. 10 * acc + digit_val c) a ds = a * 10 ^ length ds + digits_num ds"
proof (induction ds arbitrary: a rule: rev_induct)
  case (snoc c ds)
  show ?case using snoc [of a] snoc [of 0] by (simp add: digits_num_def algebra_simps)
qed (simp add: digits_num_def)

lemma digits_num_append: "digits_num (xs @ ys) = digits_num xs * 10 ^ length ys + digits_num ys"
  using foldl_digits [of "digits_num xs" ys] by (simp add: digits_num_def)

lemma parse_digits_all: "list_all is_digit ds \<Longrightarrow> parse_digits a ds = Some (a * 10 ^ length ds + digits_num ds)"
proof -
  assume "list_all is_digit ds"
  then have "parse_digits a ds = Some (foldl (\<lambda>acc c. 10 * acc + digit_val c) a ds)"
    by (induction ds arbitrary: a) simp_all
  then show ?thesis by (simp add: foldl_digits)
qed

lemma digits_num_nonneg: "list_all is_digit ds \<Longrightarrow> 0 \<le> digits_num ds"
  by (induction ds rule: rev_induct) (auto simp: digits_num_def dest: digit_val_bounds)

lemma show_nat_digits:
  assumes "0 \<le> n"
  shows "list_all is_digit (show_nat n) \<and> show_nat n \<noteq> [] \<and> digits_num (show_nat n) = n"
  using assms
proof (induction n rule: show_nat.induct)
  case (1 n)
  show ?case
  proof (cases "n < 10")
    case True
    then show ?thesis using 1(2) by (simp add: show_nat.simps [of n] digits_num_def)
  next
    case False
    then show ?thesis
      using 1 by (simp add: show_nat.simps [of n] digits_num_append) (simp add: digits_num_def)
  qed
qed

lemma parse_i64_digits:
  assumes "list_all is_digit ds" and "ds \<noteq> []"
  shows "parse_i64 ds = (if i64_ok (digits_num ds) then Some (digits_num ds) else None)"
proof -
  obtain c cs where ds: "ds = c # cs" "is_digit c" using assms by (cases ds) auto
  then have "c \<noteq> CHR ''-''" "c \<noteq> CHR ''+''" by (auto dest: digit_not)
  then have "parse_i64 ds = Option.bind (parse_digits 0 ds) (\<lambda>n. if i64_ok n then Some n else None)"
    by (simp add: parse_i64_def ds(1) Let_def del: parse_digits.simps)
  then show ?thesis using parse_digits_all [OF assms(1), of 0] by simp
qed

text \<open>Printing and parsing an \<open>i64\<close> are inverse.\<close>

lemma parse_show_i64: "i64_ok v \<Longrightarrow> parse_i64 (show_i64 v) = Some v"
proof (cases "v < 0")
  case True
  assume "i64_ok v"
  then show ?thesis
    using True show_nat_digits [of "- v"] parse_digits_all [of "show_nat (- v)" 0] by (simp add: show_i64_def parse_i64_def)
next
  case False
  assume "i64_ok v"
  then show ?thesis using False show_nat_digits [of v] parse_i64_digits [of "show_nat v"] by (simp add: show_i64_def)
qed

lemma trim_none:
  assumes "s \<noteq> []" and "\<not> is_white (hd s)" and "\<not> is_white (last s)"
  shows "trim s = s"
proof -
  have "dropWhile is_white s = s" using assms by (cases s) auto
  moreover have "dropWhile is_white (rev s) = rev s" using assms by (cases "rev s") (auto simp: hd_rev [symmetric])
  ultimately show ?thesis by (simp add: trim_def)
qed

lemma show_nat_length: "0 \<le> n \<Longrightarrow> n < 10 ^ k \<Longrightarrow> 0 < k \<Longrightarrow> length (show_nat n) \<le> k"
proof (induction n arbitrary: k rule: show_nat.induct)
  case (1 n)
  show ?case
  proof (cases "n < 10")
    case True
    then show ?thesis using 1(4) by (simp add: show_nat.simps [of n])
  next
    case False
    then obtain j where k: "k = Suc j" "0 < j" using 1(3,4) by (cases k; cases "k - 1") auto
    then have "length (show_nat (n div 10)) \<le> j" using 1 False by (intro 1(1)) auto
    then show ?thesis using False k by (simp add: show_nat.simps [of n])
  qed
qed

end
