(* ===== verification/Hp_Scale.thy ===== *)
theory Hp_Scale
  imports Hp_Types Rust_Text
begin

text \<open>
  Decimal strings and ticks: \<open>crates/match-core-hp/src/scale.rs\<close>.  A scale is a number of
  fractional digits.
\<close>

datatype scale_error = ScaleEmpty | ScaleInvalid | ExcessFractionalDigits | ScaleOverflow

definition ascii_digits_or_nonempty_int :: "string \<Rightarrow> bool" where
  "ascii_digits_or_nonempty_int int_part \<longleftrightarrow> int_part \<noteq> [] \<and> list_all is_digit int_part"

text \<open>Leading zeros go, but a single zero stays.\<close>

definition strip_zeros :: "string \<Rightarrow> string" where
  "strip_zeros digits =
     (let trimmed = dropWhile (\<lambda>c. c = CHR ''0'') digits in if trimmed = [] then ''0'' else trimmed)"

definition parse_parts :: "bool \<Rightarrow> string \<Rightarrow> string \<Rightarrow> nat \<Rightarrow> scale_error + int" where
  "parse_parts neg int_part frac_part scale =
     (if \<not> ascii_digits_or_nonempty_int int_part then Inl ScaleInvalid
      else if \<not> list_all is_digit frac_part then Inl ScaleInvalid
      else if length frac_part > scale then Inl ExcessFractionalDigits
      else case parse_i64 (strip_zeros (int_part @ frac_part @ replicate (scale - length frac_part) CHR ''0'')) of
             None \<Rightarrow> Inl ScaleOverflow
           | Some v \<Rightarrow> if neg then (if v = - (2 ^ 63) then Inl ScaleOverflow else Inr (- v)) else Inr v)"

definition parse_fixed :: "string \<Rightarrow> nat \<Rightarrow> scale_error + int" where
  "parse_fixed s0 scale =
     (let s = trim s0
      in if s = [] then Inl ScaleEmpty
         else let (neg, body) = (if hd s = CHR ''-'' then (True, tl s) else if hd s = CHR ''+'' then (False, tl s) else (False, s))
         in if body = [] then Inl ScaleInvalid
         else parse_parts neg (takeWhile (\<lambda>c. c \<noteq> CHR ''.'') body) (tl (dropWhile (\<lambda>c. c \<noteq> CHR ''.'') body)) scale)"

text \<open>\<open>to_string\<close>, or sign, integer part, point and the zero-padded fraction in \<open>u64\<close> arithmetic.\<close>

definition pad_zeros :: "nat \<Rightarrow> string \<Rightarrow> string" where
  "pad_zeros width s = replicate (width - length s) CHR ''0'' @ s"

definition format_fixed :: "int \<Rightarrow> nat \<Rightarrow> string" where
  "format_fixed v scale0 =
     (if scale0 = 0 then show_i64 v
      else let scale = min scale0 19;
               neg = v < 0;
               factor = 10 ^ scale;
               int_part = \<bar>v\<bar> div factor;
               frac_part = \<bar>v\<bar> mod factor;
               txt = show_nat int_part @ ''.'' @ pad_zeros scale (show_nat frac_part)
           in if neg then CHR ''-'' # txt else txt)"

definition to_tick :: "symbol_scale \<Rightarrow> string \<Rightarrow> scale_error + int" where
  "to_tick sc s = parse_fixed s (price_scale sc)"

definition to_lot :: "symbol_scale \<Rightarrow> string \<Rightarrow> scale_error + int" where
  "to_lot sc s = parse_fixed s (qty_scale sc)"

definition from_tick :: "symbol_scale \<Rightarrow> int \<Rightarrow> string" where
  "from_tick sc t = format_fixed t (price_scale sc)"

definition from_lot :: "symbol_scale \<Rightarrow> int \<Rightarrow> string" where
  "from_lot sc l = format_fixed l (qty_scale sc)"

section \<open>Digits\<close>

lemma is_digit_zero [simp]: "is_digit CHR ''0''"
  by (simp add: is_digit_def)

lemma digits_num_zeros [simp]: "digits_num (replicate n CHR ''0'') = 0"
  by (induction n) (simp_all add: digits_num_def digit_val_def)

lemma digits_num_strip: "digits_num (dropWhile (\<lambda>c. c = CHR ''0'') ds) = digits_num ds"
proof (induction ds)
  case (Cons c ds)
  have "digits_num (CHR ''0'' # ds) = digits_num ds"
    using digits_num_append [of "[CHR ''0'']" ds] by (simp add: digits_num_def digit_val_def)
  then show ?case using Cons by simp
qed (simp add: digits_num_def)

lemma pad_zeros_digits:
  "list_all is_digit s \<Longrightarrow> list_all is_digit (pad_zeros w s)" "digits_num (pad_zeros w s) = digits_num s"
  "length (pad_zeros w s) = max w (length s)"
  by (auto simp: pad_zeros_def digits_num_append list_all_iff)

section \<open>Parsing what was printed\<close>

abbreviation sign_str :: "bool \<Rightarrow> string" where
  "sign_str neg \<equiv> (if neg then ''-'' else [])"

lemma strip_zeros_num: "digits_num (strip_zeros ds) = digits_num ds"
proof -
  let ?d = "dropWhile (\<lambda>c. c = CHR ''0'') ds"
  have z: "digits_num ''0'' = 0" "digits_num [] = 0" by (simp_all add: digits_num_def digit_val_def)
  show ?thesis
  proof (cases "?d = []")
    case True
    then have "digits_num ds = 0" using digits_num_strip [of ds] unfolding True z(2) by simp
    then show ?thesis using z(1) unfolding strip_zeros_def Let_def True by simp
  next
    case False
    then show ?thesis using digits_num_strip [of ds] unfolding strip_zeros_def Let_def by (simp only: if_False)
  qed
qed

lemma strip_zeros_digits: "list_all is_digit ds \<Longrightarrow> list_all is_digit (strip_zeros ds) \<and> strip_zeros ds \<noteq> []"
  by (auto simp: strip_zeros_def Let_def list_all_iff dest: set_dropWhileD)

lemma parse_parts_value:
  assumes ip: "list_all is_digit ip" "ip \<noteq> []" and fp: "list_all is_digit fp" "length fp = scale"
  defines "n \<equiv> digits_num ip * 10 ^ scale + digits_num fp"
  shows "parse_parts neg ip fp scale = (if i64_ok n then Inr (if neg then - n else n) else Inl ScaleOverflow)"
proof -
  have all: "list_all is_digit (ip @ fp)" using ip fp by simp
  have n: "digits_num (ip @ fp) = n" using fp(2) by (simp add: n_def digits_num_append)
  have nn: "0 \<le> n" using digits_num_nonneg [OF all] n by simp
  have "parse_i64 (strip_zeros (ip @ fp)) = (if i64_ok n then Some n else None)"
    using parse_i64_digits [of "strip_zeros (ip @ fp)"] strip_zeros_digits [OF all] strip_zeros_num [of "ip @ fp"] n by simp
  then show ?thesis using ip fp nn by (simp add: parse_parts_def ascii_digits_or_nonempty_int_def)
qed

lemma parse_fixed_parts:
  assumes ip: "list_all is_digit ip" "ip \<noteq> []" and fp: "list_all is_digit fp" "length fp = scale"
    and tl: "dot = (if scale = 0 then [] else CHR ''.'' # fp)"
  shows "parse_fixed (sign_str neg @ ip @ dot) scale =
    (let n = digits_num ip * 10 ^ scale + digits_num fp in if i64_ok n then Inr (if neg then - n else n) else Inl ScaleOverflow)"
proof -
  obtain c cs where c: "ip = c # cs" "is_digit c" using ip by (cases ip) auto
  have cn: "c \<noteq> CHR ''-''" "c \<noteq> CHR ''+''" using c(2) by (auto dest: digit_not)
  have lst: "is_digit (last (ip @ dot))"
    using ip fp tl by (auto simp: list_all_iff)
  let ?s = "sign_str neg @ ip @ dot"
  have wm: "\<not> is_white CHR ''-''" by (simp add: is_white_def)
  have tr: "trim ?s = ?s"
    using c lst wm digit_not(1) [OF c(2)] digit_not(1) [OF lst] by (intro trim_none) (auto simp: last_append)
  have "\<not> is_digit CHR ''.''" by (simp add: is_digit_def)
  then have nd: "CHR ''.'' \<notin> set ip" using ip(1) by (auto simp: list_all_iff)
  have tw: "takeWhile (\<lambda>c. c \<noteq> CHR ''.'') (ip @ dot) = ip" "tl (dropWhile (\<lambda>c. c \<noteq> CHR ''.'') (ip @ dot)) = fp"
    using nd tl fp(2) by (auto simp: takeWhile_append dropWhile_append)
  have body: "(if hd ?s = CHR ''-'' then (True, tl ?s) else if hd ?s = CHR ''+'' then (False, tl ?s) else (False, ?s)) = (neg, ip @ dot)"
    using c(1) cn by simp
  have ne: "?s \<noteq> []" "ip @ dot \<noteq> []" using c(1) by simp_all
  show ?thesis
    unfolding parse_fixed_def tr Let_def body prod.case tw parse_parts_value [OF ip fp] using ne by (simp only: if_False)
qed

text \<open>
  C37. Formatting and parsing are inverse: for every scale up to 19 digits and every \<open>i64\<close>
  except the least one, the printed price parses back to the same tick; the least \<open>i64\<close>
  prints to a string that does not parse.
\<close>
theorem scale_roundtrip:
  assumes "i64_ok v" and "price_scale sc \<le> 19"
  shows "to_tick sc (from_tick sc v) = (if v = - (2 ^ 63) then Inl ScaleOverflow else Inr v)"
proof -
  let ?s = "price_scale sc" and ?f = "10 ^ price_scale sc :: int"
  let ?ip = "show_nat (\<bar>v\<bar> div ?f)" and ?fp = "if ?s = 0 then [] else pad_zeros ?s (show_nat (\<bar>v\<bar> mod ?f))"
  have f: "0 < ?f" by simp
  have i: "list_all is_digit ?ip" "?ip \<noteq> []" "digits_num ?ip = \<bar>v\<bar> div ?f"
    using show_nat_digits [of "\<bar>v\<bar> div ?f"] f by (simp_all add: pos_imp_zdiv_nonneg_iff)
  have m: "0 \<le> \<bar>v\<bar> mod ?f" "\<bar>v\<bar> mod ?f < ?f" using f by simp_all
  have p: "list_all is_digit ?fp" "length ?fp = ?s"
    using show_nat_digits [OF m(1)] show_nat_length [OF m, of] by (auto simp: pad_zeros_digits)
  have "digits_num ?fp = \<bar>v\<bar> mod ?f"
    using show_nat_digits [OF m(1)] by (auto simp: pad_zeros_digits digits_num_def [of "[]"])
  then have n: "digits_num ?ip * 10 ^ ?s + digits_num ?fp = \<bar>v\<bar>"
    using i(3) div_mult_mod_eq [of "\<bar>v\<bar>" ?f] by simp
  let ?dot = "if ?s = 0 then [] else CHR ''.'' # ?fp"
  have "from_tick sc v = sign_str (v < 0) @ ?ip @ ?dot"
    using assms(2) by (simp add: from_tick_def format_fixed_def show_i64_def Let_def min_def)
  then have "to_tick sc (from_tick sc v) = (if i64_ok \<bar>v\<bar> then Inr (if v < 0 then - \<bar>v\<bar> else \<bar>v\<bar>) else Inl ScaleOverflow)"
    using parse_fixed_parts [OF i(1,2) p refl, of "v < 0"] n by (simp add: to_tick_def Let_def)
  then show ?thesis using assms(1) by (auto simp: i64_ok_def)
qed

theorem scale_roundtrip_witness:
  "to_tick \<lparr>price_scale = 2, qty_scale = 6\<rparr> (from_tick \<lparr>price_scale = 2, qty_scale = 6\<rparr> (- 125)) = Inr (- 125) \<and>
   from_tick \<lparr>price_scale = 2, qty_scale = 6\<rparr> (- 125) = ''-1.25''"
proof -
  have "from_tick \<lparr>price_scale = 2, qty_scale = 6\<rparr> (- 125) = ''-1.25''" by code_simp
  then show ?thesis
    using scale_roundtrip [of "- 125" "\<lparr>price_scale = 2, qty_scale = 6\<rparr>"] by (simp add: i64_ok_def)
qed

end
