(* ===== verification/Spsc.thy ===== *)
theory Spsc
  imports Hp_Types
begin

text \<open>
  The single-producer single-consumer ring of \<open>crates/match-core-hp/src/spsc.rs\<close>.  The cursors
  are 64-bit words that wrap around; a slot index is a cursor masked to the capacity, a power
  of two.  First the operations as functions, then their memory accesses as the steps of two
  threads that may interleave in every order; acquire and release make each access of the
  other thread's cursor and slots ordered, so an interleaving of accesses is an execution.
\<close>

unbundle bit_operations_syntax

section \<open>Operations\<close>

record spsc_ring =
  buf :: "hp_command list"
  rmask :: "64 word"
  rtail :: "64 word"
  rhead :: "64 word"

fun next_power_of_two :: "nat \<Rightarrow> nat" where
  "next_power_of_two n = (if n \<le> 1 then 1 else 2 * next_power_of_two ((n + 1) div 2))"

declare next_power_of_two.simps [simp del]

definition ring_with_capacity :: "nat \<Rightarrow> spsc_ring" where
  "ring_with_capacity cap0 =
     (let cap = next_power_of_two (max cap0 2)
      in \<lparr>buf = replicate cap (Cancel 0), rmask = of_nat (cap - 1), rtail = 0, rhead = 0\<rparr>)"

definition ring_capacity :: "spsc_ring \<Rightarrow> 64 word" where
  "ring_capacity r = rmask r + 1"

definition len_approx :: "spsc_ring \<Rightarrow> 64 word" where
  "len_approx r = rtail r - rhead r"

definition slot :: "spsc_ring \<Rightarrow> 64 word \<Rightarrow> nat" where
  "slot r c = unat (c AND rmask r)"

definition try_push :: "hp_command \<Rightarrow> spsc_ring \<Rightarrow> spsc_ring option" where
  "try_push cmd r =
     (if rtail r - rhead r > rmask r then None
      else Some (r\<lparr>buf := (buf r)[slot r (rtail r) := cmd], rtail := rtail r + 1\<rparr>))"

definition try_pop :: "spsc_ring \<Rightarrow> spsc_ring \<times> hp_command option" where
  "try_pop r =
     (if rhead r = rtail r then (r, None)
      else (r\<lparr>rhead := rhead r + 1\<rparr>, Some (buf r ! slot r (rhead r))))"

text \<open>The commands appended to \<open>out\<close>, whose number is returned.\<close>

definition pop_n :: "64 word \<Rightarrow> spsc_ring \<Rightarrow> spsc_ring \<times> hp_command list" where
  "pop_n mx r =
     (if mx = 0 then (r, [])
      else let n = min (rtail r - rhead r) mx
           in if n = 0 then (r, [])
              else (r\<lparr>rhead := rhead r + n\<rparr>, map (\<lambda>i. buf r ! slot r (rhead r + of_nat i)) [0..<unat n]))"

section \<open>The two threads\<close>

datatype producer = PIdle | PChecked hp_command | PWritten hp_command

datatype consumer = CIdle | CBatch "64 word" "hp_command list"

record spsc_sys =
  ring :: spsc_ring
  prod :: producer
  cons :: consumer
  pushed :: "hp_command list"
  popped :: "hp_command list"

definition spsc_init :: "nat \<Rightarrow> spsc_sys" where
  "spsc_init cap = \<lparr>ring = ring_with_capacity cap, prod = PIdle, cons = CIdle, pushed = [], popped = []\<rparr>"

text \<open>
  Producer: read both cursors and find room, write the slot, publish the tail.  Consumer: read
  both cursors and fix the batch size, read the slots one by one, publish the head.  A full
  ring, an empty ring and \<open>max = 0\<close> leave the state as it is.
\<close>

inductive spsc_step :: "spsc_sys \<Rightarrow> spsc_sys \<Rightarrow> bool" where
  p_check: "prod st = PIdle \<Longrightarrow> \<not> rtail (ring st) - rhead (ring st) > rmask (ring st) \<Longrightarrow>
    spsc_step st (st\<lparr>prod := PChecked cmd\<rparr>)"
| p_write: "prod st = PChecked cmd \<Longrightarrow>
    spsc_step st (st\<lparr>prod := PWritten cmd, ring := (ring st)\<lparr>buf := (buf (ring st))[slot (ring st) (rtail (ring st)) := cmd]\<rparr>\<rparr>)"
| p_publish: "prod st = PWritten cmd \<Longrightarrow>
    spsc_step st (st\<lparr>prod := PIdle, ring := (ring st)\<lparr>rtail := rtail (ring st) + 1\<rparr>, pushed := pushed st @ [cmd]\<rparr>)"
| c_check: "cons st = CIdle \<Longrightarrow> mx \<noteq> 0 \<Longrightarrow> n = min (rtail (ring st) - rhead (ring st)) mx \<Longrightarrow> n \<noteq> 0 \<Longrightarrow>
    spsc_step st (st\<lparr>cons := CBatch n []\<rparr>)"
| c_read: "cons st = CBatch n out \<Longrightarrow> length out < unat n \<Longrightarrow>
    spsc_step st (st\<lparr>cons := CBatch n (out @ [buf (ring st) ! slot (ring st) (rhead (ring st) + of_nat (length out))])\<rparr>)"
| c_publish: "cons st = CBatch n out \<Longrightarrow> length out = unat n \<Longrightarrow>
    spsc_step st (st\<lparr>cons := CIdle, ring := (ring st)\<lparr>rhead := rhead (ring st) + n\<rparr>, popped := popped st @ out\<rparr>)"

inductive spsc_reach :: "nat \<Rightarrow> spsc_sys \<Rightarrow> bool" for cap where
  spsc_reach_init: "spsc_reach cap (spsc_init cap)"
| spsc_reach_step: "spsc_reach cap st \<Longrightarrow> spsc_step st st' \<Longrightarrow> spsc_reach cap st'"

inductive_cases spsc_stepE: "spsc_step st st'"

section \<open>Slots\<close>

lemma next_power_of_two_pow: "\<exists>k. next_power_of_two n = 2 ^ k"
proof (induction n rule: next_power_of_two.induct)
  case (1 n)
  show ?case
  proof (cases "n \<le> 1")
    case True
    then show ?thesis by (simp add: next_power_of_two.simps [of n] exI [of _ 0])
  next
    case False
    then obtain k where "next_power_of_two ((n + 1) div 2) = 2 ^ k" using 1 by blast
    then show ?thesis using False by (simp add: next_power_of_two.simps [of n] exI [of _ "Suc k"])
  qed
qed

lemma next_power_of_two_ge: "n \<le> next_power_of_two n"
proof (induction n rule: next_power_of_two.induct)
  case (1 n)
  then show ?case by (cases "n \<le> 1") (auto simp: next_power_of_two.simps [of n])
qed

lemma next_power_of_two_le: "n \<le> 2 ^ k \<Longrightarrow> next_power_of_two n \<le> 2 ^ k"
proof (induction n arbitrary: k rule: next_power_of_two.induct)
  case (1 n)
  show ?case
  proof (cases "n \<le> 1")
    case True
    then show ?thesis by (simp add: next_power_of_two.simps [of n])
  next
    case False
    then obtain j where k: "k = Suc j" using 1(2) by (cases k) auto
    then have "next_power_of_two ((n + 1) div 2) \<le> 2 ^ j" using 1 False by simp
    then show ?thesis using False k by (simp add: next_power_of_two.simps [of n])
  qed
qed

text \<open>The ring is well formed with capacity \<open>2 ^ k\<close>.\<close>

definition ring_ok :: "nat \<Rightarrow> spsc_ring \<Rightarrow> bool" where
  "ring_ok k r \<longleftrightarrow> k < 64 \<and> rmask r = mask k \<and> length (buf r) = 2 ^ k \<and> unat (rtail r - rhead r) \<le> 2 ^ k"

lemma slot_mod: "ring_ok k r \<Longrightarrow> slot r c = unat c mod 2 ^ k"
proof -
  assume "ring_ok k r"
  then have "slot r c = unat (take_bit k c)" by (simp add: ring_ok_def slot_def take_bit_eq_mask)
  also have "\<dots> = take_bit k (unat c)" by (rule unsigned_take_bit_eq)
  finally show ?thesis by (simp add: take_bit_eq_mod)
qed

lemma slot_bound: "ring_ok k r \<Longrightarrow> slot r c < length (buf r)"
  by (simp add: slot_mod) (simp add: ring_ok_def)

lemma slot_add:
  assumes "ring_ok k r"
  shows "slot r (c + of_nat i) = (unat c + i) mod 2 ^ k"
proof -
  have k: "k < 64" using assms by (simp add: ring_ok_def)
  have d: "(2 ^ k :: nat) dvd 2 ^ 64" by (rule le_imp_power_dvd) (use k in simp)
  have "unat (c + of_nat i) = (unat c + i) mod 2 ^ 64" by (simp add: unat_word_ariths unat_of_nat mod_simps)
  then show ?thesis using slot_mod [OF assms] d by (simp add: mod_mod_cancel)
qed

lemma slot_distinct:
  assumes "ring_ok k r" and "i < j" and "j < 2 ^ k + i"
  shows "slot r (c + of_nat i) \<noteq> slot r (c + of_nat j)"
proof
  assume "slot r (c + of_nat i) = slot r (c + of_nat j)"
  then have "(unat c + i) mod 2 ^ k = (unat c + j) mod 2 ^ k" using slot_add [OF assms(1)] by simp
  then have "(2 ^ k :: nat) dvd (unat c + j) - (unat c + i)"
    using assms(2) by (intro mod_eq_dvd_iff_nat [THEN iffD1]) simp_all
  then have "(2 ^ k :: nat) dvd j - i" by simp
  then show False using assms(2,3) by (auto dest: dvd_imp_le)
qed

section \<open>Contents\<close>

definition fill :: "spsc_ring \<Rightarrow> nat" where
  "fill r = unat (rtail r - rhead r)"

definition contents :: "spsc_ring \<Rightarrow> hp_command list" where
  "contents r = map (\<lambda>i. buf r ! slot r (rhead r + of_nat i)) [0..<fill r]"

lemma length_contents [simp]: "length (contents r) = fill r"
  by (simp add: contents_def)

lemma slot_cong [simp]: "slot (r\<lparr>buf := b\<rparr>) c = slot r c" "slot (r\<lparr>rtail := t\<rparr>) c = slot r c" "slot (r\<lparr>rhead := h\<rparr>) c = slot r c"
  by (simp_all add: slot_def)

lemma slot_tail: "slot r (rtail r) = slot r (rhead r + of_nat (fill r))"
  by (simp add: fill_def)

lemma two_pow_word: "k < 64 \<Longrightarrow> (2 ^ k :: nat) < 2 ^ 64"
  by (rule power_strict_increasing) simp_all

lemma ring_full_iff: "ring_ok k r \<Longrightarrow> rtail r - rhead r > rmask r \<longleftrightarrow> fill r = 2 ^ k"
proof -
  assume ok: "ring_ok k r"
  then have k: "k < 64" by (simp add: ring_ok_def)
  have "unat (mask k :: 64 word) = unat (of_nat (mask k) :: 64 word)" by (simp add: of_nat_mask_eq)
  also have "\<dots> = (2 ^ k - 1) mod 2 ^ 64" unfolding unat_of_nat mask_nat_def by simp
  also have "\<dots> = 2 ^ k - 1" using two_pow_word [OF k] by (intro mod_less) linarith
  finally have "unat (mask k :: 64 word) = 2 ^ k - 1" .
  then show ?thesis using ok by (auto simp: ring_ok_def fill_def word_less_nat_alt)
qed

lemma write_slot:
  assumes "ring_ok k r" and "fill r < 2 ^ k"
  shows "contents (r\<lparr>buf := (buf r)[slot r (rtail r) := cmd]\<rparr>) = contents r"
    and "ring_ok k (r\<lparr>buf := (buf r)[slot r (rtail r) := cmd]\<rparr>)"
    and "buf (r\<lparr>buf := (buf r)[slot r (rtail r) := cmd]\<rparr>) ! slot r (rtail r) = cmd"
proof -
  have "slot r (rtail r) \<noteq> slot r (rhead r + of_nat i)" if "i < fill r" for i
    unfolding slot_tail using slot_distinct [OF assms(1) that, of "rhead r"] assms(2) by simp
  then show "contents (r\<lparr>buf := (buf r)[slot r (rtail r) := cmd]\<rparr>) = contents r" by (simp add: contents_def fill_def)
qed (use assms slot_bound [OF assms(1)] in \<open>simp_all add: ring_ok_def\<close>)

lemma publish_tail:
  assumes "ring_ok k r" and "fill r < 2 ^ k" and "buf r ! slot r (rtail r) = cmd"
  shows "contents (r\<lparr>rtail := rtail r + 1\<rparr>) = contents r @ [cmd]" and "ring_ok k (r\<lparr>rtail := rtail r + 1\<rparr>)"
    and "fill (r\<lparr>rtail := rtail r + 1\<rparr>) = Suc (fill r)"
proof -
  have "fill r + 1 < 2 ^ 64" using assms(1,2) two_pow_word [of k] by (simp add: ring_ok_def)
  then have "unat ((rtail r - rhead r) + 1) = Suc (fill r)"
    by (simp add: fill_def unat_word_ariths)
  then show f: "fill (r\<lparr>rtail := rtail r + 1\<rparr>) = Suc (fill r)" by (simp add: fill_def algebra_simps)
  show "contents (r\<lparr>rtail := rtail r + 1\<rparr>) = contents r @ [cmd]"
    using f assms(3) unfolding slot_tail by (simp add: contents_def)
  show "ring_ok k (r\<lparr>rtail := rtail r + 1\<rparr>)" using assms(1,2) f by (simp add: ring_ok_def fill_def)
qed

lemma publish_head:
  assumes "ring_ok k r" and "unat n \<le> fill r"
  shows "contents (r\<lparr>rhead := rhead r + n\<rparr>) = drop (unat n) (contents r)" and "ring_ok k (r\<lparr>rhead := rhead r + n\<rparr>)"
    and "fill (r\<lparr>rhead := rhead r + n\<rparr>) = fill r - unat n"
proof -
  have "n \<le> rtail r - rhead r" using assms(2) by (simp add: fill_def word_le_nat_alt)
  then have "unat ((rtail r - rhead r) - n) = fill r - unat n" by (simp add: fill_def unat_sub)
  then show f: "fill (r\<lparr>rhead := rhead r + n\<rparr>) = fill r - unat n" by (simp add: fill_def algebra_simps)
  show "contents (r\<lparr>rhead := rhead r + n\<rparr>) = drop (unat n) (contents r)"
    using f by (intro nth_equalityI) (simp_all add: contents_def, simp add: add.assoc)
  show "ring_ok k (r\<lparr>rhead := rhead r + n\<rparr>)" using assms f by (auto simp: ring_ok_def fill_def)
qed

lemma contents_nth: "i < fill r \<Longrightarrow> contents r ! i = buf r ! slot r (rhead r + of_nat i)"
  by (simp add: contents_def)

section \<open>Invariant of the two threads\<close>

definition sys_inv :: "nat \<Rightarrow> spsc_sys \<Rightarrow> bool" where
  "sys_inv k st \<longleftrightarrow> ring_ok k (ring st) \<and> pushed st = popped st @ contents (ring st) \<and>
     (case prod st of PIdle \<Rightarrow> True
      | PChecked cmd \<Rightarrow> fill (ring st) < 2 ^ k
      | PWritten cmd \<Rightarrow> fill (ring st) < 2 ^ k \<and> buf (ring st) ! slot (ring st) (rtail (ring st)) = cmd) \<and>
     (case cons st of CIdle \<Rightarrow> True
      | CBatch n out \<Rightarrow> unat n \<le> fill (ring st) \<and> length out \<le> unat n \<and> out = take (length out) (contents (ring st)))"

lemma sys_inv_step:
  assumes "spsc_step st st'" and "sys_inv k st"
  shows "sys_inv k st'"
  using assms(1)
proof (cases rule: spsc_step.cases)
  case (p_check cmd)
  then show ?thesis using assms(2) ring_full_iff [of k "ring st"] by (auto simp: sys_inv_def ring_ok_def fill_def le_less split: consumer.splits)
next
  case (p_write cmd)
  then show ?thesis
    using assms(2) write_slot [of k "ring st" cmd] by (auto simp: sys_inv_def fill_def split: consumer.splits)
next
  case (p_publish cmd)
  then show ?thesis
    using assms(2) publish_tail [of k "ring st" cmd] by (auto simp: sys_inv_def split: consumer.splits)
next
  case (c_check mx n)
  then have "unat n \<le> fill (ring st)" by (auto simp: fill_def min_def word_le_nat_alt)
  then show ?thesis using c_check assms(2) by (auto simp: sys_inv_def split: producer.splits)
next
  case (c_read n out)
  then have l: "length out < fill (ring st)" "out = take (length out) (contents (ring st))" using assms(2) by (auto simp: sys_inv_def)
  then have "out @ [contents (ring st) ! length out] = take (Suc (length out)) (contents (ring st))"
    by (metis length_contents take_Suc_conv_app_nth)
  then show ?thesis using c_read assms(2) contents_nth [OF l(1)] by (auto simp: sys_inv_def split: producer.splits)
next
  case (c_publish n out)
  then show ?thesis
    using assms(2) publish_head [of k "ring st" n] append_take_drop_id [of "unat n" "contents (ring st)"]
    by (auto simp: sys_inv_def split: producer.splits)
qed

lemma ring_new_ok:
  assumes "cap \<le> 2 ^ 63"
  shows "\<exists>k. ring_ok k (ring_with_capacity cap) \<and> 2 ^ k = next_power_of_two (max cap 2)"
proof -
  obtain k where k: "next_power_of_two (max cap 2) = 2 ^ k" using next_power_of_two_pow by blast
  have "(2 :: nat) ^ k \<le> 2 ^ 63" using next_power_of_two_le [of "max cap 2" 63] assms k by simp
  then have "k < 64" using power_increasing_iff [of "2 :: nat" k 63] by simp
  moreover have "of_nat (2 ^ k - 1) = (mask k :: 64 word)" using of_nat_mask_eq [of k, where 'a = "64 word"] by (simp only: mask_nat_def)
  ultimately have "ring_ok k (ring_with_capacity cap)" using k by (simp add: ring_ok_def ring_with_capacity_def Let_def)
  then show ?thesis using k by auto
qed

lemma ring_new_empty: "contents (ring_with_capacity cap) = []"
  by (simp add: contents_def fill_def ring_with_capacity_def Let_def)

lemma spsc_reach_inv:
  assumes "cap \<le> 2 ^ 63" and "spsc_reach cap st"
  shows "\<exists>k. sys_inv k st"
proof -
  obtain k where k: "ring_ok k (ring_with_capacity cap)" using ring_new_ok [OF assms(1)] by blast
  from assms(2) have "sys_inv k st"
  proof (induction rule: spsc_reach.induct)
    case spsc_reach_init
    show ?case using k ring_new_empty [of cap] by (simp add: sys_inv_def spsc_init_def)
  next
    case (spsc_reach_step st st')
    show ?case by (rule sys_inv_step [OF spsc_reach_step.hyps(2) spsc_reach_step.IH])
  qed
  then show ?thesis ..
qed

section \<open>The queue contract\<close>

text \<open>What a client relies on: a bounded queue of commands, first in, first out.\<close>

locale fifo =
  fixes wf :: "'q \<Rightarrow> bool" and items :: "'q \<Rightarrow> 'a list" and cap :: "'q \<Rightarrow> nat"
    and push :: "'a \<Rightarrow> 'q \<Rightarrow> 'q option" and drain :: "'q \<Rightarrow> 'q \<times> 'a list"
  assumes push_room: "wf q \<Longrightarrow> length (items q) < cap q \<Longrightarrow>
      \<exists>q'. push x q = Some q' \<and> wf q' \<and> cap q' = cap q \<and> items q' = items q @ [x]"
    and push_full: "wf q \<Longrightarrow> length (items q) = cap q \<Longrightarrow> push x q = None"
    and bounded: "wf q \<Longrightarrow> length (items q) \<le> cap q"
    and drain_all: "wf q \<Longrightarrow> \<exists>q'. drain q = (q', items q) \<and> wf q' \<and> cap q' = cap q \<and> items q' = []"
begin

fun push_all :: "'a list \<Rightarrow> 'q \<Rightarrow> 'q option" where
  "push_all [] q = Some q"
| "push_all (x # xs) q = Option.bind (push x q) (push_all xs)"

lemma push_all_room:
  "wf q \<Longrightarrow> length (items q) + length xs \<le> cap q \<Longrightarrow>
   \<exists>q'. push_all xs q = Some q' \<and> wf q' \<and> cap q' = cap q \<and> items q' = items q @ xs"
proof (induction xs arbitrary: q)
  case (Cons x xs)
  obtain q1 where q1: "push x q = Some q1" "wf q1" "cap q1 = cap q" "items q1 = items q @ [x]"
    using push_room [of q x] Cons.prems by auto
  then show ?case using Cons.IH [of q1] Cons.prems by simp
qed simp

lemma push_all_drain:
  assumes "wf q" and "items q = []" and "length xs \<le> cap q"
  shows "\<exists>q' q''. push_all xs q = Some q' \<and> drain q' = (q'', xs) \<and> items q'' = [] \<and> wf q''"
  using push_all_room [of q xs] assms drain_all by fastforce

lemma push_iff: "wf q \<Longrightarrow> push x q = None \<longleftrightarrow> length (items q) = cap q"
  using push_room [of q x] push_full [of q x] bounded [of q] by fastforce

end

definition ring_wf :: "spsc_ring \<Rightarrow> bool" where
  "ring_wf r \<longleftrightarrow> (\<exists>k. ring_ok k r)"

definition drain_ring :: "spsc_ring \<Rightarrow> spsc_ring \<times> hp_command list" where
  "drain_ring r = pop_n (ring_capacity r) r"

lemma try_push_ok:
  assumes "ring_ok k r" and "fill r < 2 ^ k"
  shows "\<exists>r'. try_push cmd r = Some r' \<and> ring_ok k r' \<and> length (buf r') = length (buf r) \<and> contents r' = contents r @ [cmd]"
proof -
  let ?r = "r\<lparr>buf := (buf r)[slot r (rtail r) := cmd]\<rparr>"
  note w = write_slot [OF assms, of cmd]
  have "fill ?r < 2 ^ k" using assms(2) by (simp add: fill_def)
  then have "contents (?r\<lparr>rtail := rtail r + 1\<rparr>) = contents r @ [cmd]" "ring_ok k (?r\<lparr>rtail := rtail r + 1\<rparr>)"
    using publish_tail [OF w(2), of cmd] w by simp_all
  then show ?thesis using ring_full_iff [OF assms(1)] assms(2) by (simp add: try_push_def)
qed

lemma pop_n_ok:
  assumes "ring_ok k r"
  shows "\<exists>r'. pop_n mx r = (r', take (unat mx) (contents r)) \<and> ring_ok k r' \<and> contents r' = drop (unat mx) (contents r) \<and>
    length (buf r') = length (buf r)"
proof (cases "mx = 0 \<or> rtail r - rhead r = 0")
  case True
  then show ?thesis using assms by (auto simp: pop_n_def contents_def fill_def min_def Let_def)
next
  case False
  let ?n = "min (rtail r - rhead r) mx"
  have n: "unat ?n = min (fill r) (unat mx)" by (auto simp: min_def fill_def word_le_nat_alt)
  have "?n \<noteq> 0" using False by (simp add: min_def)
  moreover have "map (\<lambda>i. buf r ! slot r (rhead r + of_nat i)) [0..<unat ?n] = take (unat mx) (contents r)"
    unfolding n by (cases "unat mx \<le> fill r") (simp_all add: contents_def take_map)
  ultimately have "pop_n mx r = (r\<lparr>rhead := rhead r + ?n\<rparr>, take (unat mx) (contents r))" using False by (simp add: pop_n_def Let_def)
  moreover have "drop (unat ?n) (contents r) = drop (unat mx) (contents r)"
    unfolding n by (cases "unat mx \<le> fill r") simp_all
  ultimately show ?thesis using publish_head [OF assms, of ?n] n by simp
qed

lemma ring_capacity_ok: "ring_ok k r \<Longrightarrow> unat (ring_capacity r) = 2 ^ k \<and> length (buf r) = 2 ^ k"
proof -
  assume ok: "ring_ok k r"
  then have "ring_capacity r = of_nat (2 ^ k)" by (simp add: ring_ok_def ring_capacity_def mask_eq_exp_minus_1)
  then show ?thesis using ok two_pow_word [of k] by (simp add: ring_ok_def unat_of_nat del: of_nat_power)
qed

interpretation spsc_fifo: fifo ring_wf contents "\<lambda>r. length (buf r)" try_push drain_ring
proof
  fix q :: spsc_ring and x
  assume "ring_wf q"
  then obtain k where ok: "ring_ok k q" by (auto simp: ring_wf_def)
  then have l: "length (buf q) = 2 ^ k" "unat (ring_capacity q) = 2 ^ k" "fill q \<le> 2 ^ k"
    using ring_capacity_ok [OF ok] by (simp_all add: ring_ok_def fill_def)
  show "\<exists>q'. try_push x q = Some q' \<and> ring_wf q' \<and> length (buf q') = length (buf q) \<and> contents q' = contents q @ [x]"
    if "length (contents q) < length (buf q)"
    using try_push_ok [OF ok, of x] that l by (auto simp: ring_wf_def)
  show "try_push x q = None" if "length (contents q) = length (buf q)"
    using that l ring_full_iff [OF ok] by (simp add: try_push_def)
  show "length (contents q) \<le> length (buf q)" using l by simp
  show "\<exists>q'. drain_ring q = (q', contents q) \<and> ring_wf q' \<and> length (buf q') = length (buf q) \<and> contents q' = []"
    using pop_n_ok [OF ok, of "ring_capacity q"] l by (auto simp: drain_ring_def ring_wf_def)
qed

section \<open>The properties\<close>

text \<open>
  C13. First in, first out under every interleaving: in every reachable state of the two
  threads, whatever the cursors wrapped around, the commands handed out so far followed by
  those still in the ring are exactly the commands published, in order; the ring never holds
  more than its capacity.
\<close>
theorem spsc_fifo_interleaved:
  assumes "cap \<le> 2 ^ 63" and "spsc_reach cap st"
  shows "pushed st = popped st @ contents (ring st) \<and> length (contents (ring st)) \<le> length (buf (ring st))"
proof -
  obtain k where "sys_inv k st" using spsc_reach_inv [OF assms] by blast
  then show ?thesis by (simp add: sys_inv_def ring_ok_def fill_def)
qed

definition demo_sys :: spsc_sys where
  "demo_sys = \<lparr>ring = \<lparr>buf = [Cancel 7, Cancel 0], rmask = 1, rtail = 1, rhead = 0\<rparr>, prod = PIdle, cons = CIdle,
               pushed = [Cancel 7], popped = []\<rparr>"

theorem spsc_fifo_interleaved_witness:
  "spsc_reach 2 demo_sys \<and> pushed demo_sys = popped demo_sys @ contents (ring demo_sys)"
proof -
  let ?s0 = "spsc_init 2"
  have "next_power_of_two 1 = 1" "next_power_of_two 2 = 2"
    using next_power_of_two.simps [of 1] next_power_of_two.simps [of 2] by simp_all
  moreover have "replicate 2 (Cancel 0) = [Cancel 0, Cancel 0]" by (simp add: numeral_2_eq_2)
  ultimately have i: "ring ?s0 = \<lparr>buf = [Cancel 0, Cancel 0], rmask = 1, rtail = 0, rhead = 0\<rparr>"
    by (simp add: spsc_init_def ring_with_capacity_def Let_def)
  let ?s1 = "?s0\<lparr>prod := PChecked (Cancel 7)\<rparr>"
  have "spsc_step ?s0 ?s1" by (rule p_check) (simp_all add: i, simp add: spsc_init_def)
  then have "spsc_reach 2 ?s1" by (rule spsc_reach_step [OF spsc_reach_init])
  from spsc_reach_step [OF this p_write [of ?s1 "Cancel 7"]]
  have r2: "spsc_reach 2 (?s1\<lparr>prod := PWritten (Cancel 7), ring := (ring ?s0)\<lparr>buf := [Cancel 7, Cancel 0]\<rparr>\<rparr>)"
    by (simp add: i slot_def)
  from spsc_reach_step [OF r2 p_publish [of _ "Cancel 7"]]
  have r: "spsc_reach 2 demo_sys" by (simp add: i demo_sys_def) (simp add: spsc_init_def)
  then show ?thesis using spsc_fifo_interleaved [OF _ r] by simp
qed

end
