(* ===== verification/Hp_Worker.thy ===== *)
theory Hp_Worker
  imports Spsc Hp_Props
begin

text \<open>
  The symbol worker of \<open>crates/match-core-hp/src/worker.rs\<close>: a command ring in front of an engine
  that only the worker touches.  Waiting between empty polls has no effect on the state.  A
  poll that does not return is the value \<^const>\<open>None\<close> of the partial function, as is a panic of
  the engine.
\<close>

section \<open>Operations\<close>

record hp_worker =
  w_ring :: spsc_ring
  w_engine :: hp_engine

definition worker_new :: "nat \<Rightarrow> hp_worker" where
  "worker_new ring_cap = \<lparr>w_ring = ring_with_capacity ring_cap, w_engine = engine_with_capacity ring_cap 64\<rparr>"

definition try_submit :: "hp_command \<Rightarrow> hp_worker \<Rightarrow> hp_worker option" where
  "try_submit cmd w = map_option (\<lambda>r. w\<lparr>w_ring := r\<rparr>) (try_push cmd (w_ring w))"

fun drain_batch :: "hp_command list \<Rightarrow> hp_engine \<Rightarrow> (hp_engine \<times> nat) option" where
  "drain_batch [] e = Some (e, 0)"
| "drain_batch (cmd # cmds) e =
     do {
       e1 \<leftarrow> on_order cmd e;
       (e2, n) \<leftarrow> drain_batch cmds e1;
       Some (e2, length (filter is_Fill (events e1)) + n)
     }"

definition run_once :: "hp_worker \<Rightarrow> (hp_worker \<times> nat) option" where
  "run_once w =
     (case pop_n (ring_capacity (w_ring w)) (w_ring w) of
        (r, batch) \<Rightarrow> map_option (\<lambda>(e, n). (w\<lparr>w_ring := r, w_engine := e\<rparr>, n)) (drain_batch batch (w_engine w)))"

definition idle_limit_reached :: "nat \<Rightarrow> nat option \<Rightarrow> bool" where
  "idle_limit_reached idle max_idle_spins = (case max_idle_spins of Some mx \<Rightarrow> idle \<ge> mx | None \<Rightarrow> False)"

definition saturating_inc :: "nat \<Rightarrow> nat" where
  "saturating_inc n = min (n + 1) (2 ^ 64 - 1)"

partial_function (option) poll_from :: "nat option \<Rightarrow> nat \<Rightarrow> nat \<Rightarrow> hp_worker \<Rightarrow> (hp_worker \<times> nat) option" where
  [code]: "poll_from max_idle_spins idle total_fills w =
     (case pop_n (ring_capacity (w_ring w)) (w_ring w) of
        (r, batch) \<Rightarrow>
          if batch = [] then
            if idle_limit_reached (saturating_inc idle) max_idle_spins then Some (w\<lparr>w_ring := r\<rparr>, total_fills)
            else poll_from max_idle_spins (saturating_inc idle) total_fills (w\<lparr>w_ring := r\<rparr>)
          else Option.bind (drain_batch batch (w_engine w))
                 (\<lambda>(e, n). poll_from max_idle_spins 0 (total_fills + n) (w\<lparr>w_ring := r, w_engine := e\<rparr>)))"

definition poll :: "nat option \<Rightarrow> hp_worker \<Rightarrow> (hp_worker \<times> nat) option" where
  "poll max_idle_spins w = poll_from max_idle_spins 0 0 w"

section \<open>A batch is a run\<close>

lemma drain_batch_run:
  "drain_batch cmds e = Some (e', n) \<Longrightarrow> run cmds e = Some e'"
  by (induction cmds arbitrary: e n) (auto simp: Option.bind_eq_Some_conv)

lemma drain_batch_total:
  "reach K e \<Longrightarrow> list_all cmd_typed cmds \<Longrightarrow> \<not> K \<Longrightarrow> \<exists>e' n. drain_batch cmds e = Some (e', n) \<and> reach K e'"
proof (induction cmds arbitrary: e)
  case (Cons cmd cmds)
  obtain e1 where e1: "on_order cmd e = Some e1" using on_order_keeps [OF reach_inv [OF Cons.prems(1)], of cmd] Cons.prems(2,3) by auto
  then have "reach K e1" using reach_step [OF Cons.prems(1), of cmd e1] Cons.prems by simp
  then show ?case using Cons.IH [of e1] Cons.prems e1 by fastforce
qed simp

definition worker_ok :: "hp_worker \<Rightarrow> bool" where
  "worker_ok w \<longleftrightarrow> ring_wf (w_ring w) \<and> reach False (w_engine w) \<and> list_all cmd_typed (contents (w_ring w))"

lemma drain_worker:
  assumes "worker_ok w"
  obtains r where "pop_n (ring_capacity (w_ring w)) (w_ring w) = (r, contents (w_ring w))" "ring_wf r" "contents r = []"
    "length (buf r) = length (buf (w_ring w))"
  using spsc_fifo.drain_all [of "w_ring w"] assms by (auto simp: worker_ok_def drain_ring_def)

lemma run_once_ok:
  assumes "worker_ok w"
  shows "\<exists>w' n. run_once w = Some (w', n) \<and> worker_ok w' \<and> contents (w_ring w') = [] \<and>
    run (contents (w_ring w)) (w_engine w) = Some (w_engine w')"
proof -
  obtain r where r: "pop_n (ring_capacity (w_ring w)) (w_ring w) = (r, contents (w_ring w))" "ring_wf r" "contents r = []"
    by (rule drain_worker [OF assms])
  obtain e' n where e: "drain_batch (contents (w_ring w)) (w_engine w) = Some (e', n)" "reach False e'"
    using drain_batch_total [of False "w_engine w" "contents (w_ring w)"] assms by (auto simp: worker_ok_def)
  then show ?thesis using r drain_batch_run [OF e(1)] by (simp add: run_once_def worker_ok_def)
qed

section \<open>Polling\<close>

lemma pop_idle:
  assumes "worker_ok w" and "contents (w_ring w) = []"
  shows "pop_n (ring_capacity (w_ring w)) (w_ring w) = (w_ring w, [])"
proof -
  obtain r where r: "pop_n (ring_capacity (w_ring w)) (w_ring w) = (r, [])"
    using drain_worker [OF assms(1)] assms(2) by metis
  then show ?thesis
    using assms by (auto simp: pop_n_def worker_ok_def ring_wf_def contents_def fill_def Let_def min_def unat_eq_zero split: if_splits)
qed

lemma poll_idle:
  assumes "worker_ok w" and "contents (w_ring w) = []"
  shows "poll_from mi idle tf w =
    (if idle_limit_reached (saturating_inc idle) mi then Some (w, tf) else poll_from mi (saturating_inc idle) tf w)"
  using pop_idle [OF assms] by (subst poll_from.simps) simp

lemma run_once_empty: "worker_ok w \<Longrightarrow> contents (w_ring w) = [] \<Longrightarrow> run_once w = Some (w, 0)"
  by (simp add: run_once_def pop_idle)

lemma poll_waits:
  assumes "worker_ok w" and "contents (w_ring w) = []" and "m < 2 ^ 64" and "m = idle + k"
  shows "poll_from (Some m) idle tf w = Some (w, tf)"
  using assms(4)
proof (induction k arbitrary: idle)
  case (Suc k)
  then have "saturating_inc idle = idle + 1" using assms(3) by (simp add: saturating_inc_def)
  then show ?case using Suc.IH [of "idle + 1"] Suc.prems
    by (subst poll_idle [OF assms(1,2)]) (simp add: idle_limit_reached_def)
next
  case 0
  then have "saturating_inc idle \<ge> m" using assms(3) by (simp add: saturating_inc_def)
  then show ?case by (subst poll_idle [OF assms(1,2)]) (simp add: idle_limit_reached_def)
qed

lemma poll_works:
  assumes "worker_ok w" and "contents (w_ring w) \<noteq> []"
  shows "poll_from mi idle tf w = Option.bind (run_once w) (\<lambda>(w', n). poll_from mi 0 (tf + n) w')"
proof -
  obtain r where "pop_n (ring_capacity (w_ring w)) (w_ring w) = (r, contents (w_ring w))" by (rule drain_worker [OF assms(1)])
  then show ?thesis using assms(2)
    by (subst poll_from.simps) (simp add: run_once_def map_option_case case_prod_unfold split: option.split)
qed

text \<open>
  With no bound on the idle polls the loop has no return value at all: the call is the least
  fixed point, and every approximation of it is undefined on an empty ring.
\<close>

lemma poll_never:
  assumes "poll_from mi idle tf w = Some res"
  shows "mi = None \<longrightarrow> \<not> worker_ok w"
proof (rule poll_from.raw_induct [OF _ assms, of "\<lambda>mi _ _ w _. mi = None \<longrightarrow> \<not> worker_ok w"], intro impI notI)
  fix f :: "nat option \<Rightarrow> nat \<Rightarrow> nat \<Rightarrow> hp_worker \<Rightarrow> (hp_worker \<times> nat) option" and mi idle tf w res
  assume IH: "\<And>mi idle tf w res. f mi idle tf w = Some res \<Longrightarrow> mi = None \<longrightarrow> \<not> worker_ok w"
    and step: "(case pop_n (ring_capacity (w_ring w)) (w_ring w) of (r, batch) \<Rightarrow>
        if batch = [] then
          if idle_limit_reached (saturating_inc idle) mi then Some (w\<lparr>w_ring := r\<rparr>, tf)
          else f mi (saturating_inc idle) tf (w\<lparr>w_ring := r\<rparr>)
        else Option.bind (drain_batch batch (w_engine w)) (\<lambda>(e, n). f mi 0 (tf + n) (w\<lparr>w_ring := r, w_engine := e\<rparr>))) = Some res"
    and mi: "mi = None" and ok: "worker_ok w"
  obtain r where r: "pop_n (ring_capacity (w_ring w)) (w_ring w) = (r, contents (w_ring w))" "ring_wf r" "contents r = []"
    by (rule drain_worker [OF ok])
  obtain w' n where w': "run_once w = Some (w', n)" "worker_ok w'" using run_once_ok [OF ok] by blast
  have "worker_ok (w\<lparr>w_ring := r\<rparr>)" using ok r by (simp add: worker_ok_def)
  moreover have "f None 0 (tf + n) w' = Some res" if "contents (w_ring w) \<noteq> []"
    using step mi r w'(1) that by (auto simp: run_once_def)
  moreover have "f None (saturating_inc idle) tf (w\<lparr>w_ring := r\<rparr>) = Some res" if "contents (w_ring w) = []"
    using step mi r that by (simp add: idle_limit_reached_def)
  ultimately show False using IH w'(2) by blast
qed

lemma poll_bounded:
  assumes "worker_ok w" and "m < 2 ^ 64"
  shows "poll (Some m) w = run_once w"
proof -
  obtain w' n where w': "run_once w = Some (w', n)" "worker_ok w'" "contents (w_ring w') = []"
    using run_once_ok [OF assms(1)] by blast
  show ?thesis
  proof (cases "contents (w_ring w) = []")
    case True
    then show ?thesis using run_once_empty [OF assms(1)] poll_waits [OF assms(1) True assms(2), where idle = 0 and k = m] by (simp add: poll_def)
  next
    case False
    then show ?thesis using poll_works [OF assms(1)] w' poll_waits [OF w'(2,3) assms(2), where idle = 0 and k = m] by (simp add: poll_def)
  qed
qed

section \<open>Submitting\<close>

lemma worker_new_ok: "cap \<le> 2 ^ 63 \<Longrightarrow> worker_ok (worker_new cap)"
  using ring_new_ok [of cap] by (auto simp: worker_ok_def worker_new_def ring_new_empty ring_wf_def intro: reach_cap)

lemma try_submit_room:
  assumes "worker_ok w" and "cmd_typed cmd" and "length (contents (w_ring w)) < length (buf (w_ring w))"
  shows "\<exists>w'. try_submit cmd w = Some w' \<and> worker_ok w' \<and> contents (w_ring w') = contents (w_ring w) @ [cmd] \<and>
    w_engine w' = w_engine w \<and> length (buf (w_ring w')) = length (buf (w_ring w))"
  using spsc_fifo.push_room [of "w_ring w" cmd] assms by (auto simp: try_submit_def worker_ok_def)

fun submit_all :: "hp_command list \<Rightarrow> hp_worker \<Rightarrow> hp_worker option" where
  "submit_all [] w = Some w"
| "submit_all (cmd # cmds) w = Option.bind (try_submit cmd w) (submit_all cmds)"

lemma submit_all_room:
  "worker_ok w \<Longrightarrow> list_all cmd_typed cmds \<Longrightarrow> length (contents (w_ring w)) + length cmds \<le> length (buf (w_ring w)) \<Longrightarrow>
   \<exists>w'. submit_all cmds w = Some w' \<and> worker_ok w' \<and> contents (w_ring w') = contents (w_ring w) @ cmds \<and> w_engine w' = w_engine w"
proof (induction cmds arbitrary: w)
  case (Cons cmd cmds)
  obtain w1 where w1: "try_submit cmd w = Some w1" "worker_ok w1" "contents (w_ring w1) = contents (w_ring w) @ [cmd]"
      "w_engine w1 = w_engine w" "length (buf (w_ring w1)) = length (buf (w_ring w))"
    using try_submit_room [of w cmd] Cons.prems by auto
  then show ?case using Cons.IH [of w1] Cons.prems by simp
qed simp

section \<open>Properties\<close>

text \<open>
  C34. What is submitted to an idle worker runs, all of it, in order and once: as many
  well-typed commands as the ring has slots are accepted, a poll bounded by a number of empty
  rounds then returns with the ring empty, the engine is that of a direct run of the commands,
  and the fills reported are those of that one drain.  A poll with no bound on the empty
  rounds never returns.
\<close>

theorem poll_runs_submitted:
  assumes "worker_ok w" and "contents (w_ring w) = []" and "list_all cmd_typed cmds"
    and "length cmds \<le> length (buf (w_ring w))" and "m < 2 ^ 64"
  shows "\<exists>w1 w2 n. submit_all cmds w = Some w1 \<and> poll (Some m) w1 = Some (w2, n) \<and> drain_batch cmds (w_engine w) = Some (w_engine w2, n) \<and>
    run cmds (w_engine w) = Some (w_engine w2) \<and> worker_ok w2 \<and> contents (w_ring w2) = [] \<and> poll None w1 = None"
proof -
  obtain w1 where w1: "submit_all cmds w = Some w1" "worker_ok w1" "contents (w_ring w1) = cmds" "w_engine w1 = w_engine w"
    using submit_all_room [OF assms(1,3)] assms(2,4) by auto
  obtain w2 n where w2: "run_once w1 = Some (w2, n)" "worker_ok w2" "contents (w_ring w2) = []" "run cmds (w_engine w) = Some (w_engine w2)"
    using run_once_ok [OF w1(2)] w1(3,4) by auto
  obtain r where "pop_n (ring_capacity (w_ring w1)) (w_ring w1) = (r, cmds)" using drain_worker [OF w1(2)] w1(3) by metis
  then have "drain_batch cmds (w_engine w) = Some (w_engine w2, n)" using w2(1) w1(4) by (auto simp: run_once_def)
  moreover have "poll None w1 = None" using poll_never [of None 0 0 w1] w1(2) by (cases "poll None w1") (auto simp: poll_def)
  ultimately show ?thesis using w1 w2 poll_bounded [OF w1(2) assms(5)] by auto
qed

theorem poll_runs_submitted_witness:
  "\<exists>w1 w2 n. submit_all [Limit Sell 100 5 1 0, Limit Buy 100 3 2 0] (worker_new 4) = Some w1 \<and> poll (Some 3) w1 = Some (w2, n) \<and>
    run [Limit Sell 100 5 1 0, Limit Buy 100 3 2 0] (w_engine (worker_new 4)) = Some (w_engine w2) \<and> contents (w_ring w2) = []"
proof -
  have "4 \<le> next_power_of_two 4" by (rule next_power_of_two_ge)
  then have "length [Limit Sell 100 5 1 0, Limit Buy 100 3 2 0] \<le> length (buf (w_ring (worker_new 4)))"
    by (simp add: worker_new_def ring_with_capacity_def Let_def)
  moreover have "contents (w_ring (worker_new 4)) = []" by (simp add: worker_new_def ring_new_empty)
  moreover have "list_all cmd_typed [Limit Sell 100 5 1 0, Limit Buy 100 3 2 0]" by code_simp
  ultimately show ?thesis
    using poll_runs_submitted [OF worker_new_ok [of 4], of "[Limit Sell 100 5 1 0, Limit Buy 100 3 2 0]" 3] by auto
qed

end
