(* ===== verification/Core_Order.thy ===== *)
theory Core_Order
  imports Prelude "HOL-Library.Char_ord" "HOL-Library.List_Lexorder"
begin

text \<open>
  Orders and events of the decimal matching core: \<open>crates/match-protocol/src/order.rs\<close> and
  \<open>constants.rs\<close>, \<open>crates/match-core/src/order.rs\<close>, \<open>event.rs\<close> and \<open>price_utils.rs\<close>.

  \<open>BigDecimal\<close> is a type parameter \<open>'d\<close> of class \<open>linordered_idom\<close>: the crate documents
  exact addition, subtraction, multiplication and comparison.  Division, rounding and
  printing are the fields of the parameter record \<open>bigdec\<close>.  Strings are byte lists
  compared lexicographically, as \<open>str\<close> is.
\<close>

section \<open>Decimal operations the code calls\<close>

record 'd bigdec =
  bd_div :: "'d \<Rightarrow> 'd \<Rightarrow> 'd"
  bd_scale_16_half_down :: "'d \<Rightarrow> 'd"
  bd_normalized :: "'d \<Rightarrow> 'd"
  bd_to_string :: "'d \<Rightarrow> string"

section \<open>Constants\<close>

definition ORDER_STATUS_WAIT :: int where "ORDER_STATUS_WAIT = 0"
definition ORDER_STATUS_SUCCESS :: int where "ORDER_STATUS_SUCCESS = 1"
definition ORDER_STATUS_SUCCESS_PART :: int where "ORDER_STATUS_SUCCESS_PART = 2"
definition ORDER_STATUS_REVOKE :: int where "ORDER_STATUS_REVOKE = 3"
definition ORDER_FORM_LIMIT :: int where "ORDER_FORM_LIMIT = 1"
definition ORDER_FORM_MARKET_PRICE :: int where "ORDER_FORM_MARKET_PRICE = 2"
definition ORDER_FORM_POST_ONLY :: int where "ORDER_FORM_POST_ONLY = 3"
definition ORDER_FORM_IOC :: int where "ORDER_FORM_IOC = 4"
definition ORDER_FORM_FOK :: int where "ORDER_FORM_FOK = 5"

lemmas order_constants = ORDER_STATUS_WAIT_def ORDER_STATUS_SUCCESS_def ORDER_STATUS_SUCCESS_PART_def
  ORDER_STATUS_REVOKE_def ORDER_FORM_LIMIT_def ORDER_FORM_MARKET_PRICE_def ORDER_FORM_POST_ONLY_def
  ORDER_FORM_IOC_def ORDER_FORM_FOK_def

section \<open>Orders\<close>

record 'd bb_order =
  user_id :: int
  uid :: int
  user_type :: int
  order_type :: int
  market_id :: int
  coin_id :: int
  symbol_key :: string
  coin_market :: string
  trust_order_no :: string
  order_form :: int
  gear :: "int option"
  close_position :: int
  start_deposit :: 'd
  target_rate :: 'd
  position_type :: int
  lever_times :: int
  order_status :: int
  consumer_all_number :: 'd
  current_deal_number :: 'd
  trust_number :: 'd
  trust_price :: 'd
  remaining_number :: 'd
  create_time :: int
  face_value :: "'d option"
  average_price :: 'd

text \<open>\<open>ProtocolBbOrder::default()\<close>.\<close>

definition bb_default :: "'d::zero bb_order" where
  "bb_default =
     \<lparr>user_id = 0, uid = 0, user_type = 0, order_type = 0, market_id = 0, coin_id = 0,
      symbol_key = [], coin_market = [], trust_order_no = [], order_form = 0, gear = None,
      close_position = 0, start_deposit = 0, target_rate = 0, position_type = 0, lever_times = 0,
      order_status = 0, consumer_all_number = 0, current_deal_number = 0, trust_number = 0,
      trust_price = 0, remaining_number = 0, create_time = 0, face_value = None, average_price = 0\<rparr>"

datatype bside = BuySide | SellSide

definition side_order_type :: "bside \<Rightarrow> int" where
  "side_order_type s = (case s of BuySide \<Rightarrow> 1 | SellSide \<Rightarrow> 2)"

definition from_order_type :: "int \<Rightarrow> bside option" where
  "from_order_type t = (if t = 1 then Some BuySide else if t = 2 then Some SellSide else None)"

definition test_limit :: "bside \<Rightarrow> 'd \<Rightarrow> string \<Rightarrow> int \<Rightarrow> 'd \<Rightarrow> 'd::zero bb_order" where
  "test_limit s price order_no time qty =
     \<lparr>user_id = 1, uid = 1, user_type = 1, order_type = side_order_type s, market_id = 1, coin_id = 1,
      symbol_key = ''btcusdt'', coin_market = ''BTC/USDT'', trust_order_no = order_no, order_form = 1,
      gear = None, close_position = 1, start_deposit = 0, target_rate = 0, position_type = 0,
      lever_times = 1, order_status = 0, consumer_all_number = 0, current_deal_number = 0,
      trust_number = qty, trust_price = price, remaining_number = qty, create_time = time,
      face_value = None, average_price = 0\<rparr>"

definition test_market :: "bside \<Rightarrow> string \<Rightarrow> int \<Rightarrow> 'd \<Rightarrow> 'd::zero bb_order" where
  "test_market s order_no time qty = (test_limit s 0 order_no time qty)\<lparr>order_form := 2, gear := Some 1\<rparr>"

definition test_post_only :: "bside \<Rightarrow> 'd \<Rightarrow> string \<Rightarrow> int \<Rightarrow> 'd \<Rightarrow> 'd::zero bb_order" where
  "test_post_only s price order_no time qty = (test_limit s price order_no time qty)\<lparr>order_form := 3\<rparr>"

definition test_ioc :: "bside \<Rightarrow> 'd \<Rightarrow> string \<Rightarrow> int \<Rightarrow> 'd \<Rightarrow> 'd::zero bb_order" where
  "test_ioc s price order_no time qty = (test_limit s price order_no time qty)\<lparr>order_form := 4\<rparr>"

definition test_fok :: "bside \<Rightarrow> 'd \<Rightarrow> string \<Rightarrow> int \<Rightarrow> 'd \<Rightarrow> 'd::zero bb_order" where
  "test_fok s price order_no time qty = (test_limit s price order_no time qty)\<lparr>order_form := 5\<rparr>"

definition removal_key :: "'d bb_order \<Rightarrow> 'd::zero bb_order" where
  "removal_key ord = bb_default\<lparr>trust_price := trust_price ord, create_time := create_time ord,
                               trust_order_no := trust_order_no ord\<rparr>"

section \<open>Comparison\<close>

datatype ordering = Less | Equal | Greater

definition cmp :: "'a::linorder \<Rightarrow> 'a \<Rightarrow> ordering" where
  "cmp a b = (if a < b then Less else if a = b then Equal else Greater)"

fun reverse_ordering :: "ordering \<Rightarrow> ordering" where
  "reverse_ordering Less = Greater"
| "reverse_ordering Equal = Equal"
| "reverse_ordering Greater = Less"

definition compare_same_price :: "'d bb_order \<Rightarrow> 'd bb_order \<Rightarrow> ordering" where
  "compare_same_price a b =
     (if trust_order_no a = trust_order_no b then Equal
      else (case cmp (create_time a) (create_time b) of
              Equal \<Rightarrow> cmp (trust_order_no a) (trust_order_no b)
            | ord \<Rightarrow> ord))"

definition compare_buy :: "'d::linorder bb_order \<Rightarrow> 'd bb_order \<Rightarrow> ordering" where
  "compare_buy a b =
     (case cmp (trust_price a) (trust_price b) of
        Equal \<Rightarrow> compare_same_price a b
      | ord \<Rightarrow> reverse_ordering ord)"

definition compare_sell :: "'d::linorder bb_order \<Rightarrow> 'd bb_order \<Rightarrow> ordering" where
  "compare_sell a b =
     (case cmp (trust_price a) (trust_price b) of
        Equal \<Rightarrow> compare_same_price a b
      | ord \<Rightarrow> ord)"

section \<open>Events and average price\<close>

datatype match_event =
    FillEv (e_symbol: string) (e_taker_order_no: string) (e_maker_order_no: string)
      (e_taker_user_type: int) (e_maker_user_type: int) (e_price: string) (e_qty: string)
      (e_taker_remaining: string) (e_maker_remaining: string) (e_taker_status: int) (e_maker_status: int)
  | RevokeEv (e_order_no: string) (e_symbol: string) (e_remaining: string) (e_reason: string)

definition get_average_price :: "'d::linordered_idom bigdec \<Rightarrow> 'd \<Rightarrow> 'd \<Rightarrow> 'd \<Rightarrow> 'd \<Rightarrow> 'd" where
  "get_average_price bd amount price now_amount now_price =
     (let total_amount = price * amount + now_price * now_amount;
          total_quantity = amount + now_amount
      in if total_quantity = 0 then 0
         else bd_normalized bd (bd_scale_16_half_down bd (bd_div bd total_amount total_quantity)))"

section \<open>Lemmas\<close>

lemma cmp_simps [simp]:
  "cmp a b = Less \<longleftrightarrow> a < b" "cmp a b = Equal \<longleftrightarrow> a = b" "cmp a b = Greater \<longleftrightarrow> b < (a::'a::linorder)"
  by (auto simp: cmp_def)

lemma side_order_type_from [simp]: "from_order_type (side_order_type s) = Some s"
  by (cases s) (simp_all add: from_order_type_def side_order_type_def)

lemma removal_key_simps [simp]:
  "trust_price (removal_key a) = trust_price a" "create_time (removal_key a) = create_time a"
  "trust_order_no (removal_key a) = trust_order_no a"
  by (simp_all add: removal_key_def)

text \<open>Which of two orders the comparisons put first.\<close>

lemma compare_same_price_Less:
  "compare_same_price a b = Less \<longleftrightarrow> trust_order_no a \<noteq> trust_order_no b \<and>
     (create_time a < create_time b \<or> create_time a = create_time b \<and> trust_order_no a < trust_order_no b)"
  by (auto simp: compare_same_price_def cmp_def)

lemma compare_same_price_Equal: "compare_same_price a b = Equal \<longleftrightarrow> trust_order_no a = trust_order_no b"
  by (auto simp: compare_same_price_def cmp_def)

lemma compare_buy_Less:
  "compare_buy a b = Less \<longleftrightarrow> trust_price b < trust_price a \<or>
     trust_price a = trust_price b \<and> compare_same_price a b = Less"
  by (auto simp: compare_buy_def cmp_def)

lemma compare_buy_Equal:
  "compare_buy a b = Equal \<longleftrightarrow> trust_price a = trust_price b \<and> trust_order_no a = trust_order_no b"
  by (auto simp: compare_buy_def cmp_def compare_same_price_Equal)

lemma compare_sell_Less:
  "compare_sell a b = Less \<longleftrightarrow> trust_price a < trust_price b \<or>
     trust_price a = trust_price b \<and> compare_same_price a b = Less"
  by (auto simp: compare_sell_def cmp_def)

lemma compare_sell_Equal:
  "compare_sell a b = Equal \<longleftrightarrow> trust_price a = trust_price b \<and> trust_order_no a = trust_order_no b"
  by (auto simp: compare_sell_def cmp_def compare_same_price_Equal)

end
