(* ===== verification/Core_Book.thy ===== *)
theory Core_Book
  imports Core_Order
begin

text \<open>
  The order book of \<open>crates/match-core/src/book.rs\<close> and the depth aggregation of
  \<open>depth.rs\<close>.  A \<open>BTreeSet\<close> is the list of its elements in order; insertion and removal
  compare along it.  The comparison of orders is a lawful order only among orders with
  different numbers; the locale \<open>entry_order\<close> states what the set relies on, and both
  sides of the book are instances.
\<close>

section \<open>Ordered sets with a comparison\<close>

fun bts_insert :: "('a \<Rightarrow> 'a \<Rightarrow> ordering) \<Rightarrow> 'a \<Rightarrow> 'a list \<Rightarrow> 'a list \<times> bool" where
  "bts_insert c x [] = ([x], True)"
| "bts_insert c x (y # ys) =
     (case c x y of
        Less \<Rightarrow> (x # y # ys, True)
      | Equal \<Rightarrow> (y # ys, False)
      | Greater \<Rightarrow> (let (zs, b) = bts_insert c x ys in (y # zs, b)))"

fun bts_take :: "('a \<Rightarrow> 'a \<Rightarrow> ordering) \<Rightarrow> 'a \<Rightarrow> 'a list \<Rightarrow> 'a list \<times> 'a option" where
  "bts_take c k [] = ([], None)"
| "bts_take c k (y # ys) =
     (case c k y of
        Less \<Rightarrow> (y # ys, None)
      | Equal \<Rightarrow> (ys, Some y)
      | Greater \<Rightarrow> (let (zs, r) = bts_take c k ys in (y # zs, r)))"

section \<open>The book\<close>

record 'd order_book =
  buys :: "'d bb_order list"
  sells :: "'d bb_order list"

definition ob_new :: "'d order_book" where
  "ob_new = \<lparr>buys = [], sells = []\<rparr>"

definition ob_insert :: "'d::linorder bb_order \<Rightarrow> 'd order_book \<Rightarrow> 'd order_book \<times> bool" where
  "ob_insert ord bk =
     (case from_order_type (order_type ord) of
        Some BuySide \<Rightarrow> (let (xs, b) = bts_insert compare_buy ord (buys bk) in (bk\<lparr>buys := xs\<rparr>, b))
      | Some SellSide \<Rightarrow> (let (xs, b) = bts_insert compare_sell ord (sells bk) in (bk\<lparr>sells := xs\<rparr>, b))
      | None \<Rightarrow> (bk, False))"

definition contains_order_no :: "'d order_book \<Rightarrow> string \<Rightarrow> bool" where
  "contains_order_no bk no \<longleftrightarrow>
     list_ex (\<lambda>e. trust_order_no e = no) (buys bk) \<or> list_ex (\<lambda>e. trust_order_no e = no) (sells bk)"

definition ob_remove :: "'d::{linorder,zero} bb_order \<Rightarrow> 'd order_book \<Rightarrow> 'd order_book \<times> bool" where
  "ob_remove ord bk =
     (case from_order_type (order_type ord) of
        Some BuySide \<Rightarrow> (let (xs, r) = bts_take compare_buy (removal_key ord) (buys bk) in (bk\<lparr>buys := xs\<rparr>, r \<noteq> None))
      | Some SellSide \<Rightarrow> (let (xs, r) = bts_take compare_sell (removal_key ord) (sells bk) in (bk\<lparr>sells := xs\<rparr>, r \<noteq> None))
      | None \<Rightarrow> (bk, False))"

definition side_list :: "'d order_book \<Rightarrow> bside \<Rightarrow> 'd bb_order list" where
  "side_list bk s = (case s of BuySide \<Rightarrow> buys bk | SellSide \<Rightarrow> sells bk)"

definition ob_best :: "'d order_book \<Rightarrow> bside \<Rightarrow> 'd bb_order option" where
  "ob_best bk s = (case side_list bk s of [] \<Rightarrow> None | x # _ \<Rightarrow> Some x)"

definition ob_first :: "'d order_book \<Rightarrow> bside \<Rightarrow> 'd bb_order option" where
  "ob_first bk s = ob_best bk s"

definition pop_first :: "bside \<Rightarrow> 'd order_book \<Rightarrow> 'd order_book \<times> 'd bb_order option" where
  "pop_first s bk =
     (case s of
        BuySide \<Rightarrow> (case buys bk of [] \<Rightarrow> (bk, None) | x # xs \<Rightarrow> (bk\<lparr>buys := xs\<rparr>, Some x))
      | SellSide \<Rightarrow> (case sells bk of [] \<Rightarrow> (bk, None) | x # xs \<Rightarrow> (bk\<lparr>sells := xs\<rparr>, Some x)))"

definition remove_by_order_no :: "bside \<Rightarrow> string \<Rightarrow> 'd::{linorder,zero} order_book \<Rightarrow> 'd order_book \<times> 'd bb_order option" where
  "remove_by_order_no s no bk =
     (case s of
        BuySide \<Rightarrow>
          (case find (\<lambda>e. trust_order_no e = no) (buys bk) of
             None \<Rightarrow> (bk, None)
           | Some found \<Rightarrow> (let (xs, r) = bts_take compare_buy (removal_key found) (buys bk) in (bk\<lparr>buys := xs\<rparr>, r)))
      | SellSide \<Rightarrow>
          (case find (\<lambda>e. trust_order_no e = no) (sells bk) of
             None \<Rightarrow> (bk, None)
           | Some found \<Rightarrow> (let (xs, r) = bts_take compare_sell (removal_key found) (sells bk) in (bk\<lparr>sells := xs\<rparr>, r))))"

definition ob_is_empty :: "'d order_book \<Rightarrow> bside \<Rightarrow> bool" where
  "ob_is_empty bk s \<longleftrightarrow> side_list bk s = []"

section \<open>Depth\<close>

definition push_depth_level :: "('d::plus \<times> 'd) list \<Rightarrow> nat \<Rightarrow> 'd \<Rightarrow> 'd \<Rightarrow> ('d \<times> 'd) list" where
  "push_depth_level levels lim price qty =
     (if levels \<noteq> [] \<and> fst (last levels) = price
      then butlast levels @ [(fst (last levels), snd (last levels) + qty)]
      else if length levels < lim then levels @ [(price, qty)] else levels)"

fun depth_loop :: "'d::linordered_idom bb_order list \<Rightarrow> nat \<Rightarrow> ('d \<times> 'd) list \<Rightarrow> ('d \<times> 'd) list" where
  "depth_loop [] lim levels = levels"
| "depth_loop (ord # ords) lim levels =
     (if remaining_number ord \<le> 0 then depth_loop ords lim levels
      else depth_loop ords lim (push_depth_level levels lim (trust_price ord) (remaining_number ord)))"

definition depth_levels_from_orders :: "'d::linordered_idom bb_order list \<Rightarrow> nat \<Rightarrow> ('d \<times> 'd) list" where
  "depth_levels_from_orders orders lim = (if lim = 0 then [] else depth_loop orders lim [])"

definition ob_depth_levels :: "'d::linordered_idom order_book \<Rightarrow> bside \<Rightarrow> nat \<Rightarrow> ('d \<times> 'd) list" where
  "ob_depth_levels bk s lim = depth_levels_from_orders (side_list bk s) lim"

definition resting_orders :: "'d order_book \<Rightarrow> bside \<Rightarrow> 'd bb_order list" where
  "resting_orders bk s = side_list bk s"

section \<open>Lawful comparisons\<close>

abbreviation same_key :: "'d bb_order \<Rightarrow> 'd bb_order \<Rightarrow> bool" where
  "same_key a b \<equiv> trust_price a = trust_price b \<and> create_time a = create_time b \<and> trust_order_no a = trust_order_no b"

abbreviation nos :: "'d bb_order list \<Rightarrow> string list" where
  "nos xs \<equiv> map trust_order_no xs"

definition drop_no :: "string \<Rightarrow> 'd bb_order list \<Rightarrow> 'd bb_order list" where
  "drop_no no xs = filter (\<lambda>e. trust_order_no e \<noteq> no) xs"

lemma drop_no_simps [simp]:
  "drop_no no [] = []" "drop_no no (x # xs) = (if trust_order_no x = no then drop_no no xs else x # drop_no no xs)"
  by (simp_all add: drop_no_def)

lemma drop_no_absent: "no \<notin> set (nos xs) \<Longrightarrow> drop_no no xs = xs"
  by (induction xs) auto

lemma set_drop_no: "set (drop_no no xs) = {x \<in> set xs. trust_order_no x \<noteq> no}"
  by (simp add: drop_no_def)

text \<open>Strictly increasing for the comparison, no order number twice.\<close>

definition in_order :: "('d bb_order \<Rightarrow> 'd bb_order \<Rightarrow> ordering) \<Rightarrow> 'd bb_order list \<Rightarrow> bool" where
  "in_order c xs \<longleftrightarrow> sorted_wrt (\<lambda>a b. c a b = Less) xs \<and> distinct (nos xs)"

locale entry_order =
  fixes c :: "'d::{linorder,zero} bb_order \<Rightarrow> 'd bb_order \<Rightarrow> ordering"
  assumes equal_iff: "c a b = Equal \<longleftrightarrow> trust_price a = trust_price b \<and> trust_order_no a = trust_order_no b"
    and swap: "c a b = Less \<longleftrightarrow> c b a = Greater"
    and trans: "c a b = Less \<Longrightarrow> c b e = Less \<Longrightarrow> trust_order_no a \<noteq> trust_order_no e \<Longrightarrow> c a e = Less"
    and key: "same_key a a' \<Longrightarrow> c a b = c a' b"
begin

lemma key_right: "same_key b b' \<Longrightarrow> c a b = c a b'"
  using key [of b b' a] swap equal_iff by (metis (full_types) ordering.exhaust)

lemma in_order_ConsD:
  assumes "in_order c (x # xs)"
  shows "in_order c xs" and "\<And>y. y \<in> set xs \<Longrightarrow> c x y = Less" and "trust_order_no x \<notin> set (nos xs)"
  using assms by (auto simp: in_order_def)

text \<open>Inserting an order with a new number succeeds and keeps the order.\<close>

lemma insert_fresh:
  assumes "in_order c xs" and "trust_order_no x \<notin> set (nos xs)"
  shows "snd (bts_insert c x xs)" and "in_order c (fst (bts_insert c x xs))"
    and "set (fst (bts_insert c x xs)) = insert x (set xs)"
    and "length (fst (bts_insert c x xs)) = Suc (length xs)"
proof -
  have "snd (bts_insert c x xs) \<and> in_order c (fst (bts_insert c x xs)) \<and>
      set (fst (bts_insert c x xs)) = insert x (set xs) \<and> length (fst (bts_insert c x xs)) = Suc (length xs)"
    using assms
  proof (induction xs)
    case Nil
    then show ?case by (simp add: in_order_def)
  next
    case (Cons y ys)
    note d = in_order_ConsD [OF Cons.prems(1)]
    have ne: "trust_order_no x \<noteq> trust_order_no y" "trust_order_no x \<notin> set (nos ys)" using Cons.prems(2) by auto
    show ?case
    proof (cases "c x y")
      case Less
      have "c x z = Less" if "z \<in> set ys" for z
        using trans [OF Less d(2) [OF that]] Cons.prems(2) that by auto
      then have "in_order c (x # y # ys)" using Less Cons.prems by (simp add: in_order_def)
      then show ?thesis using Less by simp
    next
      case Equal
      then show ?thesis using ne equal_iff by blast
    next
      case Greater
      obtain zs b where ins: "bts_insert c x ys = (zs, b)" by (cases "bts_insert c x ys")
      have IH: "b" "in_order c zs" "set zs = insert x (set ys)" "length zs = Suc (length ys)"
        using Cons.IH [OF d(1) ne(2)] ins by auto
      have "c y x = Less" using Greater swap by simp
      then have "in_order c (y # zs)"
        using IH d(2,3) ne(1) by (simp add: in_order_def)
      then show ?thesis using Greater ins IH by auto
    qed
  qed
  then show "snd (bts_insert c x xs)" "in_order c (fst (bts_insert c x xs))"
    "set (fst (bts_insert c x xs)) = insert x (set xs)"
    "length (fst (bts_insert c x xs)) = Suc (length xs)" by blast+
qed

text \<open>An order that ranks before all others is put at the front.\<close>

lemma insert_front: "(\<And>y. y \<in> set xs \<Longrightarrow> c x y = Less) \<Longrightarrow> bts_insert c x xs = (x # xs, True)"
  by (cases xs) auto

text \<open>Looking up a resting order by its key removes exactly it.\<close>

lemma take_member:
  assumes "in_order c xs" and "x \<in> set xs" and "same_key k x"
  shows "bts_take c k xs = (drop_no (trust_order_no x) xs, Some x)"
  using assms(1,2)
proof (induction xs)
  case (Cons y ys)
  note d = in_order_ConsD [OF Cons.prems(1)]
  have kk: "c k y = c x y" by (rule key [OF assms(3)])
  show ?case
  proof (cases "x = y")
    case True
    then have "c k y = Equal" using kk equal_iff [of x y] by simp
    then show ?thesis using True d(3) by (simp add: drop_no_absent)
  next
    case False
    then have m: "x \<in> set ys" using Cons.prems(2) by simp
    then have "c y x = Less" by (rule d(2))
    then have "c k y = Greater" using kk swap by simp
    moreover have "trust_order_no y \<noteq> trust_order_no x" using d(3) m by auto
    ultimately show ?thesis using Cons.IH [OF d(1) m] by simp
  qed
qed simp

lemma in_order_drop: "in_order c xs \<Longrightarrow> in_order c (drop_no no xs)"
  by (auto simp: in_order_def drop_no_def sorted_wrt_filter distinct_map_filter)

lemma find_take:
  assumes "in_order c xs"
  shows "(case find (\<lambda>e. trust_order_no e = no) xs of
      None \<Rightarrow> (xs, None) | Some found \<Rightarrow> bts_take c (removal_key found) xs) =
    (drop_no no xs, find (\<lambda>e. trust_order_no e = no) xs)"
proof (cases "find (\<lambda>e. trust_order_no e = no) xs")
  case None
  then have "no \<notin> set (nos xs)" by (auto simp: find_None_iff)
  then show ?thesis using None by (simp add: drop_no_absent)
next
  case (Some x)
  then have "x \<in> set xs" "trust_order_no x = no" by (auto simp: find_Some_iff)
  then show ?thesis using take_member [OF assms, of x "removal_key x"] Some by simp
qed

end

lemma compare_same_price_swap: "compare_same_price a b = Less \<longleftrightarrow> compare_same_price b a = Greater"
  by (auto simp: compare_same_price_def cmp_def)

interpretation buy_order: entry_order "compare_buy :: 'd::linordered_idom bb_order \<Rightarrow> 'd bb_order \<Rightarrow> ordering"
proof unfold_locales
  fix a b e a' :: "'d bb_order"
  show "compare_buy a b = Equal \<longleftrightarrow> trust_price a = trust_price b \<and> trust_order_no a = trust_order_no b"
    by (rule compare_buy_Equal)
  show "compare_buy a b = Less \<longleftrightarrow> compare_buy b a = Greater"
    using compare_same_price_swap [of a b] by (auto simp: compare_buy_def cmp_def split: if_splits)
  show "compare_buy a e = Less" if "compare_buy a b = Less" "compare_buy b e = Less" "trust_order_no a \<noteq> trust_order_no e"
    using that by (auto simp: compare_buy_Less compare_same_price_Less)
  show "compare_buy a b = compare_buy a' b" if "same_key a a'"
    using that by (simp add: compare_buy_def compare_same_price_def cong: ordering.case_cong)
qed

interpretation sell_order: entry_order "compare_sell :: 'd::linordered_idom bb_order \<Rightarrow> 'd bb_order \<Rightarrow> ordering"
proof unfold_locales
  fix a b e a' :: "'d bb_order"
  show "compare_sell a b = Equal \<longleftrightarrow> trust_price a = trust_price b \<and> trust_order_no a = trust_order_no b"
    by (rule compare_sell_Equal)
  show "compare_sell a b = Less \<longleftrightarrow> compare_sell b a = Greater"
    using compare_same_price_swap [of a b] by (auto simp: compare_sell_def cmp_def split: if_splits)
  show "compare_sell a e = Less" if "compare_sell a b = Less" "compare_sell b e = Less" "trust_order_no a \<noteq> trust_order_no e"
    using that by (auto simp: compare_sell_Less compare_same_price_Less)
  show "compare_sell a b = compare_sell a' b" if "same_key a a'"
    using that by (simp add: compare_sell_def compare_same_price_def cong: ordering.case_cong)
qed

end
