(* ===== verification/Core_Limit.thy ===== *)
theory Core_Limit
  imports Core_Book
begin

text \<open>
  Limit-order matching of \<open>crates/match-core/src/match_limit.rs\<close>.  Each step pops the best
  order of both sides and puts back at most one of them, which is why the loops end.
\<close>

section \<open>Helpers\<close>

definition remaining :: "'d::minus bb_order \<Rightarrow> 'd" where
  "remaining ord = trust_number ord - consumer_all_number ord"

definition dec_str :: "'d bigdec \<Rightarrow> 'd \<Rightarrow> string" where
  "dec_str bd d = bd_to_string bd (bd_normalized bd d)"

definition fill_event :: "'d bigdec \<Rightarrow> string \<Rightarrow> 'd bb_order \<Rightarrow> 'd bb_order \<Rightarrow> 'd \<Rightarrow> 'd \<Rightarrow> 'd \<Rightarrow> 'd \<Rightarrow>
    int \<Rightarrow> int \<Rightarrow> match_event" where
  "fill_event bd symbol taker maker price qty taker_remaining maker_remaining taker_status maker_status =
     FillEv symbol (trust_order_no taker) (trust_order_no maker) (user_type taker) (user_type maker)
       (dec_str bd price) (dec_str bd qty) (dec_str bd taker_remaining) (dec_str bd maker_remaining)
       taker_status maker_status"

definition revoke_order_with_reason ::
  "'d::linordered_idom bigdec \<Rightarrow> 'd bb_order \<Rightarrow> string \<Rightarrow> 'd order_book \<Rightarrow> 'd order_book \<times> match_event option" where
  "revoke_order_with_reason bd ord reason bk =
     (case from_order_type (order_type ord) of
        None \<Rightarrow> (bk, None)
      | Some s \<Rightarrow>
          (case remove_by_order_no s (trust_order_no ord) bk of
             (bk', None) \<Rightarrow> (bk', None)
           | (bk', Some removed) \<Rightarrow>
               (bk', Some (RevokeEv (trust_order_no removed) (symbol_key removed)
                       (dec_str bd (remaining removed)) reason))))"

definition revoke_order ::
  "'d::linordered_idom bigdec \<Rightarrow> 'd bb_order \<Rightarrow> 'd order_book \<Rightarrow> 'd order_book \<times> match_event option" where
  "revoke_order bd ord bk = revoke_order_with_reason bd ord ''user'' bk"

definition push_opt :: "'e list \<Rightarrow> 'e option \<Rightarrow> 'e list" where
  "push_opt evs ev = (case ev of None \<Rightarrow> evs | Some e \<Rightarrow> evs @ [e])"

section \<open>One buy step\<close>

definition equals_buy :: "'d::linordered_idom bigdec \<Rightarrow> 'd bb_order \<Rightarrow> 'd bb_order \<Rightarrow> 'd \<Rightarrow> 'd \<Rightarrow> match_event" where
  "equals_buy bd buy sell last_buy last_sell =
     (let buy1 = buy\<lparr>average_price := get_average_price bd (consumer_all_number buy) (average_price buy)
                       last_sell (trust_price sell),
                     order_status := ORDER_STATUS_SUCCESS,
                     current_deal_number := last_buy,
                     consumer_all_number := trust_number buy,
                     remaining_number := 0\<rparr>
      in fill_event bd (symbol_key buy) buy1 sell (trust_price sell) last_buy 0 0
           ORDER_STATUS_SUCCESS ORDER_STATUS_SUCCESS)"

definition less_than_buy ::
  "'d::linordered_idom bigdec \<Rightarrow> 'd bb_order \<Rightarrow> 'd bb_order \<Rightarrow> 'd \<Rightarrow> 'd \<Rightarrow> 'd order_book \<Rightarrow> 'd order_book \<times> match_event" where
  "less_than_buy bd buy sell last_buy last_sell bk =
     (let buy1 = buy\<lparr>average_price := get_average_price bd (consumer_all_number buy) (average_price buy)
                       last_buy (trust_price sell)\<rparr>;
          sell1 = sell\<lparr>consumer_all_number := consumer_all_number sell + last_buy\<rparr>;
          sell2 = sell1\<lparr>remaining_number := trust_number sell1 - consumer_all_number sell1\<rparr>;
          bk1 = fst (ob_insert sell2 bk);
          buy2 = buy1\<lparr>order_status := ORDER_STATUS_SUCCESS, current_deal_number := last_buy,
                      consumer_all_number := trust_number buy1\<rparr>
      in (bk1, fill_event bd (symbol_key buy) buy2 sell2 (trust_price sell2) last_buy 0 (remaining_number sell2)
                 ORDER_STATUS_SUCCESS ORDER_STATUS_SUCCESS_PART))"

definition rather_than_buy ::
  "'d::linordered_idom bigdec \<Rightarrow> 'd order_book \<Rightarrow> 'd order_book \<times> match_event option" where
  "rather_than_buy bd bk =
     (case pop_first BuySide bk of
        (bk1, None) \<Rightarrow> (bk1, None)
      | (bk1, Some buy) \<Rightarrow>
          (case pop_first SellSide bk1 of
             (bk2, None) \<Rightarrow> (fst (ob_insert buy bk2), None)
           | (bk2, Some sell) \<Rightarrow>
               (let last_buy = remaining buy; last_sell = remaining sell; symbol = symbol_key buy
                in if last_buy > last_sell then
                     (let buy1 = buy\<lparr>average_price := get_average_price bd (consumer_all_number buy)
                                       (average_price buy) last_sell (trust_price sell),
                                     consumer_all_number := consumer_all_number buy + last_sell\<rparr>;
                          buy2 = buy1\<lparr>remaining_number := trust_number buy1 - consumer_all_number buy1,
                                      order_status := ORDER_STATUS_SUCCESS_PART,
                                      current_deal_number := last_sell\<rparr>
                      in (fst (ob_insert buy2 bk2),
                          Some (fill_event bd symbol buy2 sell (trust_price sell) last_sell
                                  (remaining_number buy2) 0 ORDER_STATUS_SUCCESS_PART ORDER_STATUS_SUCCESS)))
                   else if last_buy < last_sell then
                     (case less_than_buy bd buy sell last_buy last_sell bk2 of (bk3, ev) \<Rightarrow> (bk3, Some ev))
                   else (bk2, Some (equals_buy bd buy sell last_buy last_sell)))))"

section \<open>One sell step\<close>

datatype rather_than_sell_result = RFill match_event | RRevoked match_event | RNone

definition equals_sell :: "'d::linordered_idom bigdec \<Rightarrow> 'd bb_order \<Rightarrow> 'd bb_order \<Rightarrow> 'd \<Rightarrow> 'd \<Rightarrow> match_event" where
  "equals_sell bd buy sell last_buy last_sell =
     (let sell1 = sell\<lparr>average_price := get_average_price bd (consumer_all_number sell) (average_price sell)
                         last_sell (trust_price buy),
                       order_status := ORDER_STATUS_SUCCESS,
                       remaining_number := 0,
                       current_deal_number := last_sell,
                       consumer_all_number := trust_number sell\<rparr>
      in fill_event bd (symbol_key sell) sell1 buy (trust_price buy) last_sell 0 0
           ORDER_STATUS_SUCCESS ORDER_STATUS_SUCCESS)"

definition less_than_sell ::
  "'d::linordered_idom bigdec \<Rightarrow> 'd bb_order \<Rightarrow> 'd bb_order \<Rightarrow> 'd \<Rightarrow> 'd \<Rightarrow> 'd order_book \<Rightarrow> 'd order_book \<times> match_event" where
  "less_than_sell bd buy sell last_buy last_sell bk =
     (let sell1 = sell\<lparr>average_price := get_average_price bd (consumer_all_number sell) (average_price sell)
                         last_sell (trust_price buy)\<rparr>;
          avg = get_average_price bd (consumer_all_number buy) (average_price buy) last_sell (trust_price buy);
          buy1 = buy\<lparr>consumer_all_number := consumer_all_number buy + last_sell\<rparr>;
          buy2 = buy1\<lparr>remaining_number := trust_number buy1 - consumer_all_number buy1, average_price := avg\<rparr>;
          bk1 = fst (ob_insert buy2 bk);
          sell2 = sell1\<lparr>order_status := ORDER_STATUS_SUCCESS, current_deal_number := last_sell,
                        consumer_all_number := trust_number sell1\<rparr>
      in (bk1, fill_event bd (symbol_key sell) sell2 buy2 (trust_price buy2) last_sell 0 (remaining_number buy2)
                 ORDER_STATUS_SUCCESS ORDER_STATUS_SUCCESS_PART))"

definition rather_than_sell ::
  "'d::linordered_idom bigdec \<Rightarrow> 'd order_book \<Rightarrow> 'd order_book \<times> rather_than_sell_result" where
  "rather_than_sell bd bk =
     (case pop_first SellSide bk of
        (bk1, None) \<Rightarrow> (bk1, RNone)
      | (bk1, Some sell) \<Rightarrow>
          (case pop_first BuySide bk1 of
             (bk2, None) \<Rightarrow> (fst (ob_insert sell bk2), RNone)
           | (bk2, Some buy) \<Rightarrow>
               (let last_sell = remaining sell; last_buy = remaining buy; symbol = symbol_key sell
                in if last_sell > last_buy then
                     if order_form sell = ORDER_FORM_FOK then
                       (fst (ob_insert buy bk2),
                        RRevoked (RevokeEv (trust_order_no sell) symbol (dec_str bd (remaining_number sell)) ''user''))
                     else
                       (let sell1 = sell\<lparr>average_price := get_average_price bd (consumer_all_number sell)
                                           (average_price sell) last_buy (trust_price buy),
                                         consumer_all_number := consumer_all_number sell + last_buy\<rparr>;
                            sell2 = sell1\<lparr>remaining_number := trust_number sell1 - consumer_all_number sell1,
                                          order_status := ORDER_STATUS_SUCCESS_PART,
                                          current_deal_number := last_buy\<rparr>
                        in (fst (ob_insert sell2 bk2),
                            RFill (fill_event bd symbol sell2 buy (trust_price buy) last_buy
                                     (remaining_number sell2) 0 ORDER_STATUS_SUCCESS_PART ORDER_STATUS_SUCCESS)))
                   else if last_sell < last_buy then
                     (case less_than_sell bd buy sell last_buy last_sell bk2 of (bk3, ev) \<Rightarrow> (bk3, RFill ev))
                   else (bk2, RFill (equals_sell bd buy sell last_buy last_sell)))))"

section \<open>Both steps shrink the book\<close>

definition book_size :: "'d order_book \<Rightarrow> nat" where
  "book_size bk = length (buys bk) + length (sells bk)"

lemma length_bts_insert: "length (fst (bts_insert c x xs)) \<le> Suc (length xs)"
  by (induction xs) (auto split: ordering.split prod.split)

lemma size_ob_insert: "book_size (fst (ob_insert ord bk)) \<le> Suc (book_size bk)"
  using length_bts_insert [of compare_buy ord "buys bk"] length_bts_insert [of compare_sell ord "sells bk"]
  by (auto simp: ob_insert_def book_size_def split: option.split bside.split prod.split)

lemma rather_than_buy_shrinks:
  assumes "buys bk \<noteq> []" and "sells bk \<noteq> []"
  shows "book_size (fst (rather_than_buy bd bk)) < book_size bk"
proof -
  obtain b bs s ss where l: "buys bk = b # bs" "sells bk = s # ss" using assms by (meson neq_Nil_conv)
  have "book_size (fst (ob_insert x (bk\<lparr>buys := bs, sells := ss\<rparr>))) < book_size bk" for x
    using size_ob_insert [of x "bk\<lparr>buys := bs, sells := ss\<rparr>"] l by (simp add: book_size_def)
  moreover have "book_size (bk\<lparr>buys := bs, sells := ss\<rparr>) < book_size bk" using l by (simp add: book_size_def)
  ultimately show ?thesis
    using l by (simp add: rather_than_buy_def pop_first_def less_than_buy_def Let_def)
qed

lemma rather_than_sell_shrinks:
  assumes "buys bk \<noteq> []" and "sells bk \<noteq> []"
  shows "book_size (fst (rather_than_sell bd bk)) < book_size bk"
proof -
  obtain b bs s ss where l: "buys bk = b # bs" "sells bk = s # ss" using assms by (meson neq_Nil_conv)
  have "book_size (fst (ob_insert x (bk\<lparr>sells := ss, buys := bs\<rparr>))) < book_size bk" for x
    using size_ob_insert [of x "bk\<lparr>sells := ss, buys := bs\<rparr>"] l by (simp add: book_size_def)
  moreover have "book_size (bk\<lparr>sells := ss, buys := bs\<rparr>) < book_size bk" using l by (simp add: book_size_def)
  ultimately show ?thesis
    using l by (simp add: rather_than_sell_def pop_first_def less_than_sell_def Let_def)
qed

lemma rather_than_buy_shrinks_eq:
  "rather_than_buy bd bk = (bk', ev) \<Longrightarrow> buys bk \<noteq> [] \<Longrightarrow> sells bk \<noteq> [] \<Longrightarrow> book_size bk' < book_size bk"
  using rather_than_buy_shrinks [of bk bd] by simp

lemma rather_than_sell_shrinks_eq:
  "rather_than_sell bd bk = (bk', r) \<Longrightarrow> buys bk \<noteq> [] \<Longrightarrow> sells bk \<noteq> [] \<Longrightarrow> book_size bk' < book_size bk"
  using rather_than_sell_shrinks [of bk bd] by simp

section \<open>Limit handlers\<close>

definition push_rather_than_buy ::
  "'d::linordered_idom bigdec \<Rightarrow> 'd order_book \<Rightarrow> match_event list \<Rightarrow> 'd order_book \<times> match_event list" where
  "push_rather_than_buy bd bk evs = (case rather_than_buy bd bk of (bk', ev) \<Rightarrow> (bk', push_opt evs ev))"

definition push_rather_than_sell_limit ::
  "'d::linordered_idom bigdec \<Rightarrow> 'd order_book \<Rightarrow> match_event list \<Rightarrow> 'd order_book \<times> match_event list" where
  "push_rather_than_sell_limit bd bk evs =
     (case rather_than_sell bd bk of
        (bk', RFill ev) \<Rightarrow> (bk', evs @ [ev])
      | (bk', RRevoked ev) \<Rightarrow> (bk', evs @ [ev])
      | (bk', RNone) \<Rightarrow> (bk', evs))"

text \<open>The \<open>unwrap\<close>s of the best orders follow the emptiness checks.\<close>

function match_limit_buy_loop ::
  "'d::linordered_idom bigdec \<Rightarrow> 'd order_book \<Rightarrow> match_event list \<Rightarrow> 'd order_book \<times> match_event list" where
  "match_limit_buy_loop bd bk evs =
     (if ob_is_empty bk BuySide then (bk, evs)
      else if ob_is_empty bk SellSide then (bk, evs)
      else if trust_price (hd (buys bk)) < trust_price (hd (sells bk)) then (bk, evs)
      else (case push_rather_than_buy bd bk evs of (bk', evs') \<Rightarrow> match_limit_buy_loop bd bk' evs'))"
  by pat_completeness auto
termination
  by (relation "measure (\<lambda>(bd, bk, evs). book_size bk)")
     (auto simp: push_rather_than_buy_def ob_is_empty_def side_list_def split: prod.splits
       dest: rather_than_buy_shrinks_eq)

function match_limit_sell_loop ::
  "'d::linordered_idom bigdec \<Rightarrow> 'd order_book \<Rightarrow> match_event list \<Rightarrow> 'd order_book \<times> match_event list" where
  "match_limit_sell_loop bd bk evs =
     (if ob_is_empty bk BuySide then (bk, evs)
      else if ob_is_empty bk SellSide then (bk, evs)
      else if trust_price (hd (sells bk)) > trust_price (hd (buys bk)) then (bk, evs)
      else (case push_rather_than_sell_limit bd bk evs of (bk', evs') \<Rightarrow> match_limit_sell_loop bd bk' evs'))"
  by pat_completeness auto
termination
  by (relation "measure (\<lambda>(bd, bk, evs). book_size bk)")
     (auto simp: push_rather_than_sell_limit_def ob_is_empty_def side_list_def
       split: prod.splits rather_than_sell_result.splits dest: rather_than_sell_shrinks_eq)

declare match_limit_buy_loop.simps [simp del] match_limit_sell_loop.simps [simp del]

text \<open>\<open>with_inserted\<close>: a rejected insertion returns no events.\<close>

definition with_inserted ::
  "'d::linordered_idom bb_order \<Rightarrow> ('d order_book \<Rightarrow> 'd order_book \<times> match_event list) \<Rightarrow>
   'd order_book \<Rightarrow> 'd order_book \<times> match_event list" where
  "with_inserted ord k bk = (case ob_insert ord bk of (bk', ok) \<Rightarrow> if \<not> ok then (bk', []) else k bk')"

definition handle_limit_buy ::
  "'d::linordered_idom bigdec \<Rightarrow> 'd bb_order \<Rightarrow> 'd order_book \<Rightarrow> 'd order_book \<times> match_event list" where
  "handle_limit_buy bd ord bk = with_inserted ord (\<lambda>bk. match_limit_buy_loop bd bk []) bk"

definition handle_limit_sell ::
  "'d::linordered_idom bigdec \<Rightarrow> 'd bb_order \<Rightarrow> 'd order_book \<Rightarrow> 'd order_book \<times> match_event list" where
  "handle_limit_sell bd ord bk = with_inserted ord (\<lambda>bk. match_limit_sell_loop bd bk []) bk"

definition rest_only :: "'d::linordered_idom bb_order \<Rightarrow> 'd order_book \<Rightarrow> 'd order_book" where
  "rest_only ord bk = fst (ob_insert ord bk)"

definition is_revoke :: "'d bb_order \<Rightarrow> bool" where
  "is_revoke ord \<longleftrightarrow> order_status ord = ORDER_STATUS_REVOKE"

end
