(* ===== verification/Core_Market.thy ===== *)
theory Core_Market
  imports Core_Limit
begin

text \<open>
  Market orders of \<open>crates/match-core/src/match_market.rs\<close>: the order rests at the best
  possible place, walks the opposite side for at most \<open>gear\<close> fills, and the code then
  revokes what is left.
\<close>

definition MARKET_BUY_TRUST_PRICE :: int where
  "MARKET_BUY_TRUST_PRICE = 2147483647"

definition market_buy_handle ::
  "'d::linordered_idom bigdec \<Rightarrow> 'd order_book \<Rightarrow> 'd order_book \<times> match_event option" where
  "market_buy_handle bd bk =
     (case ob_first bk SellSide of
        None \<Rightarrow> (bk, None)
      | Some sell \<Rightarrow> if order_form sell = ORDER_FORM_MARKET_PRICE then (bk, None) else rather_than_buy bd bk)"

definition gear_of :: "'d bb_order \<Rightarrow> int" where
  "gear_of ord = (case gear ord of Some g \<Rightarrow> if g \<ge> 1 then g else 1 | None \<Rightarrow> 1)"

definition revoke_by_no ::
  "'d::linordered_idom bigdec \<Rightarrow> string \<Rightarrow> bside \<Rightarrow> string \<Rightarrow> 'd order_book \<Rightarrow> 'd order_book \<times> match_event option" where
  "revoke_by_no bd no s reason bk =
     revoke_order_with_reason bd ((test_limit s 0 no 0 0)\<lparr>order_type := side_order_type s\<rparr>) reason bk"

text \<open>A revocation whose event, if any, is appended.\<close>

definition push_revoke ::
  "'d::linordered_idom bigdec \<Rightarrow> string \<Rightarrow> bside \<Rightarrow> string \<Rightarrow> 'd order_book \<Rightarrow> match_event list \<Rightarrow>
   'd order_book \<times> match_event list" where
  "push_revoke bd no s reason bk evs = (case revoke_by_no bd no s reason bk of (bk', ev) \<Rightarrow> (bk', push_opt evs ev))"

definition market_gear_stop ::
  "'d::linordered_idom bigdec \<Rightarrow> string \<Rightarrow> bside \<Rightarrow> int \<Rightarrow> int \<Rightarrow> 'd order_book \<Rightarrow> match_event list \<Rightarrow>
   bool \<times> 'd order_book \<times> match_event list" where
  "market_gear_stop bd no s fill_count gr bk evs =
     (if gr > 0 \<and> fill_count \<ge> gr then (True, push_revoke bd no s ''market_gear'' bk evs) else (False, bk, evs))"

lemma market_buy_handle_shrinks:
  "market_buy_handle bd bk = (bk', Some ev) \<Longrightarrow> buys bk \<noteq> [] \<Longrightarrow> sells bk \<noteq> [] \<Longrightarrow> book_size bk' < book_size bk"
  by (auto simp: market_buy_handle_def dest: rather_than_buy_shrinks_eq split: option.splits if_splits)

function market_buy_loop ::
  "'d::linordered_idom bigdec \<Rightarrow> string \<Rightarrow> int \<Rightarrow> int \<Rightarrow> 'd order_book \<Rightarrow> match_event list \<Rightarrow>
   'd order_book \<times> match_event list" where
  "market_buy_loop bd order_no gr fill_count bk evs =
     (if ob_is_empty bk BuySide then (bk, evs)
      else if ob_is_empty bk SellSide then push_revoke bd order_no BuySide ''market_empty'' bk evs
      else if order_form (hd (buys bk)) \<noteq> ORDER_FORM_MARKET_PRICE then (bk, evs)
      else if trust_order_no (hd (buys bk)) \<noteq> order_no
        then push_revoke bd order_no BuySide ''market_blocked'' bk evs
      else
        (case market_buy_handle bd bk of
           (bk1, None) \<Rightarrow>
             (case market_gear_stop bd order_no BuySide fill_count gr bk1 evs of
                (True, r) \<Rightarrow> r
              | (False, bk2, evs2) \<Rightarrow> push_revoke bd order_no BuySide ''market_blocked'' bk2 evs2)
         | (bk1, Some ev) \<Rightarrow>
             (case market_gear_stop bd order_no BuySide (fill_count + 1) gr bk1 (evs @ [ev]) of
                (True, r) \<Rightarrow> r
              | (False, bk2, evs2) \<Rightarrow> market_buy_loop bd order_no gr (fill_count + 1) bk2 evs2)))"
  by pat_completeness auto
termination
  by (relation "measure (\<lambda>(bd, no, gr, fc, bk, evs). book_size bk)")
     (auto simp: ob_is_empty_def side_list_def market_gear_stop_def split: if_splits dest!: market_buy_handle_shrinks [OF sym])

definition handle_market_buy ::
  "'d::linordered_idom bigdec \<Rightarrow> 'd bb_order \<Rightarrow> 'd order_book \<Rightarrow> 'd order_book \<times> match_event list" where
  "handle_market_buy bd ord bk =
     (let ord1 = ord\<lparr>trust_price := of_int MARKET_BUY_TRUST_PRICE\<rparr>
      in case ob_insert ord1 bk of
           (bk1, ok) \<Rightarrow> if \<not> ok then (bk1, [])
                        else market_buy_loop bd (trust_order_no ord1) (gear_of ord1) 0 bk1 [])"

definition market_sell_fill_delta ::
  "'d::linordered_idom bigdec \<Rightarrow> 'd order_book \<Rightarrow> match_event list \<Rightarrow> 'd order_book \<times> match_event list \<times> int" where
  "market_sell_fill_delta bd bk evs =
     (case rather_than_sell bd bk of
        (bk', RFill ev) \<Rightarrow> (bk', evs @ [ev], 1)
      | (bk', RRevoked ev) \<Rightarrow> (bk', evs @ [ev], 0)
      | (bk', RNone) \<Rightarrow> (bk', evs, 0))"

lemma market_sell_fill_delta_shrinks:
  "market_sell_fill_delta bd bk evs = (bk', r) \<Longrightarrow> buys bk \<noteq> [] \<Longrightarrow> sells bk \<noteq> [] \<Longrightarrow> book_size bk' < book_size bk"
  by (auto simp: market_sell_fill_delta_def dest: rather_than_sell_shrinks_eq split: prod.splits rather_than_sell_result.splits)

function market_sell_loop ::
  "'d::linordered_idom bigdec \<Rightarrow> string \<Rightarrow> int \<Rightarrow> int \<Rightarrow> 'd order_book \<Rightarrow> match_event list \<Rightarrow>
   'd order_book \<times> match_event list" where
  "market_sell_loop bd order_no gr fill_count bk evs =
     (if ob_is_empty bk SellSide then (bk, evs)
      else if ob_is_empty bk BuySide then push_revoke bd order_no SellSide ''market_empty'' bk evs
      else if order_form (hd (sells bk)) \<noteq> ORDER_FORM_MARKET_PRICE then (bk, evs)
      else if trust_order_no (hd (sells bk)) \<noteq> order_no
        then push_revoke bd order_no SellSide ''market_blocked'' bk evs
      else
        (case market_sell_fill_delta bd bk evs of
           (bk1, evs1, delta) \<Rightarrow>
             (case market_gear_stop bd order_no SellSide (fill_count + delta) gr bk1 evs1 of
                (True, r) \<Rightarrow> r
              | (False, bk2, evs2) \<Rightarrow>
                  if delta = 0 then push_revoke bd order_no SellSide ''market_blocked'' bk2 evs2
                  else market_sell_loop bd order_no gr (fill_count + delta) bk2 evs2)))"
  by pat_completeness auto
termination
  by (relation "measure (\<lambda>(bd, no, gr, fc, bk, evs). book_size bk)")
     (auto simp: ob_is_empty_def side_list_def market_gear_stop_def split: if_splits dest!: market_sell_fill_delta_shrinks [OF sym])

definition handle_market_sell ::
  "'d::linordered_idom bigdec \<Rightarrow> 'd bb_order \<Rightarrow> 'd order_book \<Rightarrow> 'd order_book \<times> match_event list" where
  "handle_market_sell bd ord bk =
     (case ob_insert ord bk of
        (bk1, ok) \<Rightarrow> if \<not> ok then (bk1, [])
                     else market_sell_loop bd (trust_order_no ord) (gear_of ord) 0 bk1 [])"

declare market_buy_loop.simps [simp del] market_sell_loop.simps [simp del]

end
