(* ===== verification/Core_Handlers.thy ===== *)
theory Core_Handlers
  imports Core_Market
begin

text \<open>
  Post-only, immediate-or-cancel and fill-or-kill orders:
  \<open>crates/match-core/src/handlers/\<close>.  The fill-or-kill walks recurse over the opposite
  side; they are partial functions, whose value \<^const>\<open>None\<close> would be a walk that does not
  return.
\<close>

section \<open>Fill or kill, buy\<close>

datatype fok_walk = Done "match_event list" | Fail match_event

definition revoke_fok_or_fallback ::
  "'d::linordered_idom bigdec \<Rightarrow> 'd bb_order \<Rightarrow> 'd order_book \<Rightarrow> 'd order_book \<times> match_event" where
  "revoke_fok_or_fallback bd first_bb bk =
     (case revoke_order_with_reason bd first_bb ''fok_fail'' bk of
        (bk', Some ev) \<Rightarrow> (bk', ev)
      | (bk', None) \<Rightarrow> (bk', RevokeEv (trust_order_no first_bb) (symbol_key first_bb)
                              (dec_str bd (remaining_number first_bb)) ''fok_fail''))"

fun restore :: "bside \<Rightarrow> 'd::linordered_idom bb_order list \<Rightarrow> 'd order_book \<Rightarrow> 'd order_book" where
  "restore s [] bk = bk"
| "restore s (x # xs) bk = restore s xs (fst (ob_insert x (fst (remove_by_order_no s (trust_order_no x) bk))))"

definition rollback_fok_buy ::
  "'d::linordered_idom bigdec \<Rightarrow> 'd bb_order \<Rightarrow> 'd bb_order list \<Rightarrow> 'd order_book \<Rightarrow> 'd order_book \<times> fok_walk" where
  "rollback_fok_buy bd first_bb sell_order_list bk =
     (case revoke_fok_or_fallback bd first_bb (restore SellSide sell_order_list bk) of (bk', ev) \<Rightarrow> (bk', Fail ev))"

definition fok_buy_price_gap ::
  "'d::linordered_idom bigdec \<Rightarrow> 'd bb_order \<Rightarrow> 'd bb_order list \<Rightarrow> match_event list \<Rightarrow> 'd bb_order \<Rightarrow>
   'd order_book \<Rightarrow> 'd order_book \<times> fok_walk" where
  "fok_buy_price_gap bd first_bb sell_order_list evs buy bk =
     (if remaining_number buy > 0 then rollback_fok_buy bd first_bb sell_order_list bk else (bk, Done evs))"

partial_function (option) fok_buy_walk ::
  "'d::linordered_idom bigdec \<Rightarrow> 'd bb_order \<Rightarrow> 'd bb_order \<Rightarrow> match_event list \<Rightarrow> 'd bb_order list \<Rightarrow>
   'd order_book \<Rightarrow> ('d order_book \<times> fok_walk) option" where
  [code]: "fok_buy_walk bd buy first_bb evs sell_order_list bk =
     (case ob_first bk SellSide of
        None \<Rightarrow> Some (rollback_fok_buy bd first_bb sell_order_list bk)
      | Some sell \<Rightarrow>
          (let last_buy = remaining buy; last_sell = remaining sell;
               deal_qty = (if last_buy \<ge> last_sell then last_sell else last_buy)
           in if trust_price buy < trust_price sell then
                if sell_order_list = [] then Some (bk, Done evs)
                else Some (fok_buy_price_gap bd first_bb sell_order_list evs buy bk)
              else
                (let lst1 = sell_order_list @ [sell]
                 in if last_buy < last_sell then
                      (let bk1 = fst (remove_by_order_no SellSide (trust_order_no sell) bk);
                           bk2 = fst (remove_by_order_no BuySide (trust_order_no buy) bk1);
                           avg_buy = get_average_price bd (consumer_all_number buy) (average_price buy) deal_qty (trust_price sell);
                           avg_sell = get_average_price bd (consumer_all_number sell) (average_price sell) deal_qty (trust_price sell);
                           sell1 = sell\<lparr>average_price := avg_sell, consumer_all_number := consumer_all_number sell + deal_qty\<rparr>;
                           sell2 = sell1\<lparr>remaining_number := trust_number sell1 - consumer_all_number sell1\<rparr>;
                           bk3 = fst (ob_insert sell2 bk2);
                           buy2 = buy\<lparr>average_price := avg_buy, order_status := ORDER_STATUS_SUCCESS,
                                      current_deal_number := deal_qty, remaining_number := 0,
                                      consumer_all_number := trust_number buy\<rparr>
                       in Some (bk3, Done (evs @ [fill_event bd (symbol_key buy2) buy2 sell2 (trust_price sell2) deal_qty
                                  0 (remaining_number sell2) ORDER_STATUS_SUCCESS ORDER_STATUS_SUCCESS_PART])))
                    else
                      (let bk1 = fst (remove_by_order_no SellSide (trust_order_no sell) bk);
                           bk2 = fst (remove_by_order_no BuySide (trust_order_no buy) bk1);
                           avg_buy = get_average_price bd (consumer_all_number buy) (average_price buy) deal_qty (trust_price sell);
                           buy1 = buy\<lparr>average_price := avg_buy, consumer_all_number := consumer_all_number buy + deal_qty\<rparr>;
                           buy2 = buy1\<lparr>remaining_number := trust_number buy1 - consumer_all_number buy1,
                                       order_status := ORDER_STATUS_SUCCESS_PART, current_deal_number := deal_qty\<rparr>;
                           bk3 = fst (ob_insert buy2 bk2);
                           evs1 = evs @ [fill_event bd (symbol_key buy2) buy2 sell (trust_price sell) deal_qty
                                    (remaining_number buy2) 0 ORDER_STATUS_SUCCESS_PART ORDER_STATUS_SUCCESS]
                       in if last_buy > deal_qty then
                            if ob_is_empty bk3 SellSide then Some (rollback_fok_buy bd first_bb lst1 bk3)
                            else fok_buy_walk bd buy2 first_bb evs1 lst1 bk3
                          else Some (fst (remove_by_order_no BuySide (trust_order_no buy2) bk3), Done evs1)))))"

definition fok_buy_handle ::
  "'d::linordered_idom bigdec \<Rightarrow> 'd order_book \<Rightarrow> ('d order_book \<times> match_event list) option" where
  "fok_buy_handle bd bk =
     (case ob_first bk BuySide of
        None \<Rightarrow> Some (bk, [])
      | Some buy \<Rightarrow>
          (case ob_first bk SellSide of
             None \<Rightarrow> Some (bk, [])
           | Some sell \<Rightarrow>
               (let last_buy = remaining buy; last_sell = remaining sell
                in if last_buy > last_sell then
                     (case fok_buy_walk bd buy buy [] [] bk of
                        None \<Rightarrow> None
                      | Some (bk', Done evs) \<Rightarrow> Some (bk', evs)
                      | Some (bk', Fail ev) \<Rightarrow> Some (bk', [ev]))
                   else if last_buy = last_sell then
                     (let bk1 = fst (remove_by_order_no SellSide (trust_order_no sell) bk);
                          bk2 = fst (remove_by_order_no BuySide (trust_order_no buy) bk1);
                          buy1 = buy\<lparr>average_price := get_average_price bd (consumer_all_number buy) (average_price buy)
                                        last_buy (trust_price sell),
                                     order_status := ORDER_STATUS_SUCCESS, current_deal_number := last_buy,
                                     remaining_number := 0, consumer_all_number := trust_number buy\<rparr>
                      in Some (bk2, [fill_event bd (symbol_key buy1) buy1 sell (trust_price sell) last_buy 0 0
                                       ORDER_STATUS_SUCCESS ORDER_STATUS_SUCCESS]))
                   else
                     (let bk1 = fst (remove_by_order_no BuySide (trust_order_no buy) bk)
                      in case remove_by_order_no SellSide (trust_order_no sell) bk1 of
                        (bk2, r) \<Rightarrow>
                         (let sell0 = (case r of Some x \<Rightarrow> x | None \<Rightarrow> sell);
                              avg_buy = get_average_price bd (consumer_all_number buy) (average_price buy) last_buy (trust_price sell0);
                              avg_sell = get_average_price bd (consumer_all_number sell0) (average_price sell0) last_buy (trust_price sell0);
                              sell1 = sell0\<lparr>consumer_all_number := consumer_all_number sell0 + last_buy\<rparr>;
                              sell2 = sell1\<lparr>remaining_number := trust_number sell1 - consumer_all_number sell1,
                                            average_price := avg_sell\<rparr>;
                              bk3 = fst (ob_insert sell2 bk2);
                              buy1 = buy\<lparr>average_price := avg_buy, order_status := ORDER_STATUS_SUCCESS,
                                         current_deal_number := last_buy, remaining_number := 0,
                                         consumer_all_number := trust_number buy\<rparr>
                          in Some (bk3, [fill_event bd (symbol_key buy1) buy1 sell2 (trust_price sell2) last_buy 0
                                     (remaining_number sell2) ORDER_STATUS_SUCCESS ORDER_STATUS_SUCCESS_PART]))))))"

section \<open>Fill or kill, sell\<close>

definition rollback_fok_sell ::
  "'d::linordered_idom bigdec \<Rightarrow> 'd bb_order \<Rightarrow> 'd bb_order list \<Rightarrow> 'd order_book \<Rightarrow> 'd order_book \<times> fok_walk" where
  "rollback_fok_sell bd first_bb buy_order_list bk =
     (case revoke_fok_or_fallback bd first_bb (restore BuySide buy_order_list bk) of (bk', ev) \<Rightarrow> (bk', Fail ev))"

definition fok_sell_price_gap ::
  "'d::linordered_idom bigdec \<Rightarrow> 'd bb_order \<Rightarrow> 'd bb_order list \<Rightarrow> match_event list \<Rightarrow> 'd bb_order \<Rightarrow>
   'd order_book \<Rightarrow> 'd order_book \<times> fok_walk" where
  "fok_sell_price_gap bd first_bb buy_order_list evs sell bk =
     (if remaining_number sell > 0 then rollback_fok_sell bd first_bb buy_order_list bk else (bk, Done evs))"

partial_function (option) fok_sell_walk ::
  "'d::linordered_idom bigdec \<Rightarrow> 'd bb_order \<Rightarrow> 'd bb_order \<Rightarrow> match_event list \<Rightarrow> 'd bb_order list \<Rightarrow>
   'd order_book \<Rightarrow> ('d order_book \<times> fok_walk) option" where
  [code]: "fok_sell_walk bd sell first_bb evs buy_order_list bk =
     (case ob_first bk BuySide of
        None \<Rightarrow> Some (rollback_fok_sell bd first_bb buy_order_list bk)
      | Some buy \<Rightarrow>
          (let last_sell_rem = remaining sell; last_buy_rem = remaining buy;
               deal_qty = (if last_sell_rem \<ge> last_buy_rem then last_buy_rem else last_sell_rem)
           in if trust_price sell > trust_price buy then
                if buy_order_list = [] then Some (bk, Done evs)
                else Some (fok_sell_price_gap bd first_bb buy_order_list evs sell bk)
              else
                (let lst1 = buy_order_list @ [buy]
                 in if last_sell_rem < last_buy_rem then
                      (let bk1 = fst (remove_by_order_no BuySide (trust_order_no buy) bk);
                           bk2 = fst (remove_by_order_no SellSide (trust_order_no sell) bk1);
                           avg_sell = get_average_price bd (consumer_all_number sell) (average_price sell) deal_qty (trust_price buy);
                           avg_buy = get_average_price bd (consumer_all_number buy) (average_price buy) deal_qty (trust_price buy);
                           buy1 = buy\<lparr>consumer_all_number := consumer_all_number buy + deal_qty\<rparr>;
                           buy2 = buy1\<lparr>remaining_number := trust_number buy1 - consumer_all_number buy1, average_price := avg_buy\<rparr>;
                           bk3 = fst (ob_insert buy2 bk2);
                           sell2 = sell\<lparr>average_price := avg_sell, order_status := ORDER_STATUS_SUCCESS,
                                        current_deal_number := deal_qty, remaining_number := 0,
                                        consumer_all_number := trust_number sell\<rparr>
                       in Some (bk3, Done (evs @ [fill_event bd (symbol_key sell2) sell2 buy2 (trust_price buy2) deal_qty
                                  0 (remaining_number buy2) ORDER_STATUS_SUCCESS ORDER_STATUS_SUCCESS_PART])))
                    else
                      (let bk1 = fst (remove_by_order_no BuySide (trust_order_no buy) bk);
                           bk2 = fst (remove_by_order_no SellSide (trust_order_no sell) bk1);
                           avg_sell = get_average_price bd (consumer_all_number sell) (average_price sell) deal_qty (trust_price buy);
                           sell1 = sell\<lparr>average_price := avg_sell, consumer_all_number := consumer_all_number sell + deal_qty\<rparr>;
                           sell2 = sell1\<lparr>remaining_number := trust_number sell1 - consumer_all_number sell1,
                                         order_status := ORDER_STATUS_SUCCESS_PART, current_deal_number := deal_qty\<rparr>;
                           bk3 = fst (ob_insert sell2 bk2);
                           evs1 = evs @ [fill_event bd (symbol_key sell2) sell2 buy (trust_price buy) deal_qty
                                    (remaining_number sell2) 0 ORDER_STATUS_SUCCESS_PART ORDER_STATUS_SUCCESS]
                       in if last_sell_rem > deal_qty then
                            if ob_is_empty bk3 BuySide then Some (rollback_fok_sell bd first_bb lst1 bk3)
                            else fok_sell_walk bd sell2 first_bb evs1 lst1 bk3
                          else Some (fst (remove_by_order_no SellSide (trust_order_no sell2) bk3), Done evs1)))))"

definition fok_sell_handle ::
  "'d::linordered_idom bigdec \<Rightarrow> 'd order_book \<Rightarrow> ('d order_book \<times> match_event list) option" where
  "fok_sell_handle bd bk =
     (case ob_first bk BuySide of
        None \<Rightarrow> Some (bk, [])
      | Some buy \<Rightarrow>
          (case ob_first bk SellSide of
             None \<Rightarrow> Some (bk, [])
           | Some sell \<Rightarrow>
               (let last_sell = remaining sell; last_buy = remaining buy
                in if last_sell > last_buy then
                     (case fok_sell_walk bd sell sell [] [] bk of
                        None \<Rightarrow> None
                      | Some (bk', Done evs) \<Rightarrow> Some (bk', evs)
                      | Some (bk', Fail ev) \<Rightarrow> Some (bk', [ev]))
                   else if last_sell = last_buy then
                     (let bk1 = fst (remove_by_order_no SellSide (trust_order_no sell) bk);
                          bk2 = fst (remove_by_order_no BuySide (trust_order_no buy) bk1);
                          sell1 = sell\<lparr>average_price := get_average_price bd (consumer_all_number sell) (average_price sell)
                                          last_sell (trust_price buy),
                                       order_status := ORDER_STATUS_SUCCESS, current_deal_number := last_sell,
                                       remaining_number := 0, consumer_all_number := trust_number sell\<rparr>
                      in Some (bk2, [fill_event bd (symbol_key sell1) sell1 buy (trust_price buy) last_sell 0 0
                                       ORDER_STATUS_SUCCESS ORDER_STATUS_SUCCESS]))
                   else
                     (let bk1 = fst (remove_by_order_no SellSide (trust_order_no sell) bk)
                      in case remove_by_order_no BuySide (trust_order_no buy) bk1 of
                        (bk2, r) \<Rightarrow>
                         (let buy0 = (case r of Some x \<Rightarrow> x | None \<Rightarrow> buy);
                              avg_sell = get_average_price bd (consumer_all_number sell) (average_price sell) last_sell (trust_price buy0);
                              avg_buy = get_average_price bd (consumer_all_number buy0) (average_price buy0) last_sell (trust_price buy0);
                              buy1 = buy0\<lparr>consumer_all_number := consumer_all_number buy0 + last_sell\<rparr>;
                              buy2 = buy1\<lparr>remaining_number := trust_number buy1 - consumer_all_number buy1,
                                          average_price := avg_buy\<rparr>;
                              bk3 = fst (ob_insert buy2 bk2);
                              sell1 = sell\<lparr>average_price := avg_sell, order_status := ORDER_STATUS_SUCCESS,
                                           current_deal_number := last_sell, remaining_number := 0,
                                           consumer_all_number := trust_number sell\<rparr>
                          in Some (bk3, [fill_event bd (symbol_key sell1) sell1 buy2 (trust_price buy2) last_sell 0
                                     (remaining_number buy2) ORDER_STATUS_SUCCESS ORDER_STATUS_SUCCESS_PART]))))))"

section \<open>Post-only, IOC and FOK routing\<close>

definition ioc_or_fok_reason :: "int \<Rightarrow> string" where
  "ioc_or_fok_reason form = (if form = ORDER_FORM_IOC then ''ioc_remainder'' else ''fok_fail'')"

function height_buy_loop ::
  "'d::linordered_idom bigdec \<Rightarrow> int \<Rightarrow> string \<Rightarrow> 'd \<Rightarrow> 'd order_book \<Rightarrow> match_event list \<Rightarrow>
   ('d order_book \<times> match_event list) option" where
  "height_buy_loop bd form no price bk evs =
     (if form = ORDER_FORM_POST_ONLY then
        (let would_take = (case ob_first bk SellSide of None \<Rightarrow> False | Some sell \<Rightarrow> price \<ge> trust_price sell)
         in if would_take then Some (push_revoke bd no BuySide ''post_only'' bk evs) else Some (bk, evs))
      else if ob_is_empty bk SellSide then Some (push_revoke bd no BuySide (ioc_or_fok_reason form) bk evs)
      else if ob_is_empty bk BuySide then Some (bk, evs)
      else if form = ORDER_FORM_IOC \<and> \<not> contains_order_no bk no then Some (bk, evs)
      else if form = ORDER_FORM_IOC \<and> trust_order_no (hd (buys bk)) \<noteq> no
        then Some (push_revoke bd no BuySide ''ioc_remainder'' bk evs)
      else if trust_price (hd (buys bk)) < trust_price (hd (sells bk))
        then Some (push_revoke bd no BuySide (ioc_or_fok_reason form) bk evs)
      else if form = ORDER_FORM_FOK then
        (case fok_buy_handle bd bk of None \<Rightarrow> None | Some (bk', evs') \<Rightarrow> Some (bk', evs @ evs'))
      else (case push_rather_than_buy bd bk evs of (bk', evs') \<Rightarrow> height_buy_loop bd form no price bk' evs'))"
  by pat_completeness auto
termination
  by (relation "measure (\<lambda>(bd, form, no, price, bk, evs). book_size bk)")
     (auto simp: push_rather_than_buy_def ob_is_empty_def side_list_def split: prod.splits dest!: rather_than_buy_shrinks_eq)

definition push_rather_than_sell_ioc ::
  "'d::linordered_idom bigdec \<Rightarrow> 'd order_book \<Rightarrow> match_event list \<Rightarrow> 'd order_book \<times> match_event list" where
  "push_rather_than_sell_ioc bd bk evs =
     (case rather_than_sell bd bk of
        (bk', RFill ev) \<Rightarrow> (bk', evs @ [ev])
      | (bk', RRevoked ev) \<Rightarrow> (bk', evs @ [ev])
      | (bk', RNone) \<Rightarrow> (bk', evs))"

function height_sell_loop ::
  "'d::linordered_idom bigdec \<Rightarrow> int \<Rightarrow> string \<Rightarrow> 'd \<Rightarrow> 'd order_book \<Rightarrow> match_event list \<Rightarrow>
   ('d order_book \<times> match_event list) option" where
  "height_sell_loop bd form no price bk evs =
     (if form = ORDER_FORM_POST_ONLY then
        (let would_take = (case ob_first bk BuySide of None \<Rightarrow> False | Some buy \<Rightarrow> price \<le> trust_price buy)
         in if would_take then Some (push_revoke bd no SellSide ''post_only'' bk evs) else Some (bk, evs))
      else if ob_is_empty bk BuySide then Some (push_revoke bd no SellSide (ioc_or_fok_reason form) bk evs)
      else if ob_is_empty bk SellSide then Some (bk, evs)
      else if form = ORDER_FORM_IOC \<and> \<not> contains_order_no bk no then Some (bk, evs)
      else if form = ORDER_FORM_IOC \<and> trust_order_no (hd (sells bk)) \<noteq> no
        then Some (push_revoke bd no SellSide ''ioc_remainder'' bk evs)
      else if trust_price (hd (sells bk)) > trust_price (hd (buys bk))
        then Some (push_revoke bd no SellSide (ioc_or_fok_reason form) bk evs)
      else if form = ORDER_FORM_FOK then
        (case fok_sell_handle bd bk of None \<Rightarrow> None | Some (bk', evs') \<Rightarrow> Some (bk', evs @ evs'))
      else (case push_rather_than_sell_ioc bd bk evs of (bk', evs') \<Rightarrow> height_sell_loop bd form no price bk' evs'))"
  by pat_completeness auto
termination
  by (relation "measure (\<lambda>(bd, form, no, price, bk, evs). book_size bk)")
     (auto simp: push_rather_than_sell_ioc_def ob_is_empty_def side_list_def
       split: prod.splits rather_than_sell_result.splits dest!: rather_than_sell_shrinks_eq)

declare height_buy_loop.simps [simp del] height_sell_loop.simps [simp del]

definition handle_height_buy ::
  "'d::linordered_idom bigdec \<Rightarrow> 'd bb_order \<Rightarrow> 'd order_book \<Rightarrow> ('d order_book \<times> match_event list) option" where
  "handle_height_buy bd ord bk =
     (case ob_insert ord bk of
        (bk', ok) \<Rightarrow> if \<not> ok then Some (bk', [])
                     else height_buy_loop bd (order_form ord) (trust_order_no ord) (trust_price ord) bk' [])"

definition handle_height_sell ::
  "'d::linordered_idom bigdec \<Rightarrow> 'd bb_order \<Rightarrow> 'd order_book \<Rightarrow> ('d order_book \<times> match_event list) option" where
  "handle_height_sell bd ord bk =
     (case ob_insert ord bk of
        (bk', ok) \<Rightarrow> if \<not> ok then Some (bk', [])
                     else height_sell_loop bd (order_form ord) (trust_order_no ord) (trust_price ord) bk' [])"

end
