(* ===== verification/Core_Engine.thy ===== *)
theory Core_Engine
  imports Core_Handlers
begin

text \<open>
  The per-symbol engine of \<open>crates/match-core/src/engine.rs\<close>.  The result \<^const>\<open>None\<close> of
  \<open>core_on_order\<close> would be a call that does not return.
\<close>

record 'd core_engine =
  books :: "string \<Rightarrow> 'd order_book option"

definition core_engine_new :: "'d core_engine" where
  "core_engine_new = \<lparr>books = (\<lambda>_. None)\<rparr>"

definition is_height_order_form :: "int \<Rightarrow> bool" where
  "is_height_order_form form \<longleftrightarrow>
     form = ORDER_FORM_POST_ONLY \<or> form = ORDER_FORM_IOC \<or> form = ORDER_FORM_FOK"

text \<open>The body of \<open>on_order\<close> on the symbol's book.\<close>

definition dispatch ::
  "'d::linordered_idom bigdec \<Rightarrow> 'd bb_order \<Rightarrow> 'd order_book \<Rightarrow> ('d order_book \<times> match_event list) option" where
  "dispatch bd ord bk =
     (if is_revoke ord then
        (case revoke_order bd ord bk of (bk', ev) \<Rightarrow> Some (bk', push_opt [] ev))
      else if contains_order_no bk (trust_order_no ord) then Some (bk, [])
      else if is_height_order_form (order_form ord) then
        (case from_order_type (order_type ord) of
           Some BuySide \<Rightarrow> handle_height_buy bd ord bk
         | Some SellSide \<Rightarrow> handle_height_sell bd ord bk
         | None \<Rightarrow> Some (rest_only ord bk, []))
      else if order_form ord = ORDER_FORM_MARKET_PRICE then
        (case from_order_type (order_type ord) of
           Some BuySide \<Rightarrow> Some (handle_market_buy bd ord bk)
         | Some SellSide \<Rightarrow> Some (handle_market_sell bd ord bk)
         | None \<Rightarrow> Some (rest_only ord bk, []))
      else
        (case from_order_type (order_type ord) of
           Some BuySide \<Rightarrow> Some (handle_limit_buy bd ord bk)
         | Some SellSide \<Rightarrow> Some (handle_limit_sell bd ord bk)
         | None \<Rightarrow> Some (rest_only ord bk, [])))"

definition book_of :: "'d core_engine \<Rightarrow> string \<Rightarrow> 'd order_book" where
  "book_of e symbol = (case books e symbol of None \<Rightarrow> ob_new | Some bk \<Rightarrow> bk)"

definition core_on_order ::
  "'d::linordered_idom bigdec \<Rightarrow> 'd bb_order \<Rightarrow> 'd core_engine \<Rightarrow> ('d core_engine \<times> match_event list) option" where
  "core_on_order bd ord e =
     (case dispatch bd ord (book_of e (symbol_key ord)) of
        None \<Rightarrow> None
      | Some (bk', evs) \<Rightarrow> Some (e\<lparr>books := (books e)(symbol_key ord \<mapsto> bk')\<rparr>, evs))"

definition core_depth_levels ::
  "'d::linordered_idom core_engine \<Rightarrow> string \<Rightarrow> bside \<Rightarrow> nat \<Rightarrow> ('d \<times> 'd) list" where
  "core_depth_levels e symbol s lim =
     (case books e symbol of None \<Rightarrow> [] | Some bk \<Rightarrow> ob_depth_levels bk s lim)"

definition core_resting_orders :: "'d core_engine \<Rightarrow> string \<Rightarrow> bside \<Rightarrow> 'd bb_order list" where
  "core_resting_orders e symbol s = (case books e symbol of None \<Rightarrow> [] | Some bk \<Rightarrow> resting_orders bk s)"

end
