(* ===== verification/Core_Match.thy ===== *)
theory Core_Match
  imports Core_Engine
begin

text \<open>
  One side of the book as taker, the other as maker: the two directions of the code are
  shown to be instances of one step (\<open>cstep\<close>) and one walk along the opposite side
  (\<open>cmatch\<close>), the specification of matching in the decimal core.
\<close>

section \<open>Views by side\<close>

fun other :: "bside \<Rightarrow> bside" where
  "other BuySide = SellSide"
| "other SellSide = BuySide"

definition cmp_of :: "bside \<Rightarrow> 'd::linordered_idom bb_order \<Rightarrow> 'd bb_order \<Rightarrow> ordering" where
  "cmp_of s = (case s of BuySide \<Rightarrow> compare_buy | SellSide \<Rightarrow> compare_sell)"

definition set_side :: "bside \<Rightarrow> 'd bb_order list \<Rightarrow> 'd order_book \<Rightarrow> 'd order_book" where
  "set_side s xs bk = (case s of BuySide \<Rightarrow> bk\<lparr>buys := xs\<rparr> | SellSide \<Rightarrow> bk\<lparr>sells := xs\<rparr>)"

interpretation side_order: entry_order "cmp_of s" for s :: bside
  using buy_order.entry_order_axioms sell_order.entry_order_axioms
  by (cases s) (simp_all add: cmp_of_def)

lemma other_simps [simp]: "other (other s) = s" "other s \<noteq> s" "s \<noteq> other s"
  by (cases s; simp)+

lemma side_cases: "x = s \<or> x = other s"
  by (cases x; cases s) simp_all

lemma side_list_set [simp]:
  "side_list (set_side s xs bk) s = xs" "side_list (set_side (other s) xs bk) s = side_list bk s"
  "side_list (set_side s xs bk) (other s) = side_list bk (other s)"
  by (cases s; simp add: set_side_def side_list_def)+

lemma set_side_twice [simp]: "set_side s xs (set_side s ys bk) = set_side s xs bk"
  by (cases s) (simp_all add: set_side_def)

lemma set_side_id [simp]: "set_side s (side_list bk s) bk = bk"
  by (cases s) (simp_all add: set_side_def side_list_def)

lemma set_side_commute: "set_side s xs (set_side (other s) ys bk) = set_side (other s) ys (set_side s xs bk)"
  by (cases s) (simp_all add: set_side_def)

lemma set_sides_same:
  "side_list bk s = xs \<Longrightarrow> side_list bk (other s) = ys \<Longrightarrow> set_side s xs (set_side (other s) ys bk) = bk"
  by (metis set_side_id side_list_set(2))

lemma order_book_eqI: "(\<And>s. side_list bk s = side_list bk' s) \<Longrightarrow> bk = (bk' :: 'd order_book)"
proof -
  assume a: "\<And>s. side_list bk s = side_list bk' s"
  have "buys bk = buys bk'" "sells bk = sells bk'"
    using a [of BuySide] a [of SellSide] by (simp_all add: side_list_def)
  then show ?thesis by simp
qed

lemma ob_insert_side:
  "from_order_type (order_type ord) = Some s \<Longrightarrow>
   ob_insert ord bk = (set_side s (fst (bts_insert (cmp_of s) ord (side_list bk s))) bk,
                       snd (bts_insert (cmp_of s) ord (side_list bk s)))"
  by (cases s) (simp_all add: ob_insert_def set_side_def cmp_of_def side_list_def split_beta)

lemma remove_by_order_no_side:
  assumes "in_order (cmp_of s) (side_list bk s)"
  shows "remove_by_order_no s no bk =
    (set_side s (drop_no no (side_list bk s)) bk, find (\<lambda>e. trust_order_no e = no) (side_list bk s))"
proof -
  note f = side_order.find_take [OF assms, of no]
  show ?thesis
  proof (cases "find (\<lambda>e. trust_order_no e = no) (side_list bk s)")
    case None
    then show ?thesis using f
      by (cases s) (auto simp: remove_by_order_no_def set_side_def side_list_def)
  next
    case (Some x)
    then show ?thesis using f
      by (cases s) (auto simp: remove_by_order_no_def set_side_def side_list_def cmp_of_def)
  qed
qed

section \<open>Invariant\<close>

definition order_live :: "bside \<Rightarrow> 'd::linordered_idom bb_order \<Rightarrow> bool" where
  "order_live s ord \<longleftrightarrow>
     from_order_type (order_type ord) = Some s \<and> 0 < remaining ord \<and> remaining_number ord = remaining ord"

definition ob_inv :: "'d::linordered_idom order_book \<Rightarrow> bool" where
  "ob_inv bk \<longleftrightarrow>
     (\<forall>s. in_order (cmp_of s) (side_list bk s) \<and> (\<forall>x \<in> set (side_list bk s). order_live s x)) \<and>
     distinct (nos (buys bk @ sells bk))"

text \<open>Whether a taker of side \<open>s\<close> may trade with a maker of the other side.\<close>

definition ccross :: "bside \<Rightarrow> 'd::linorder bb_order \<Rightarrow> 'd bb_order \<Rightarrow> bool" where
  "ccross s t m =
     (case s of BuySide \<Rightarrow> trust_price m \<le> trust_price t | SellSide \<Rightarrow> trust_price t \<le> trust_price m)"

definition ob_uncrossed :: "'d::linorder order_book \<Rightarrow> bool" where
  "ob_uncrossed bk \<longleftrightarrow> (\<forall>b \<in> set (buys bk). \<forall>a \<in> set (sells bk). trust_price b < trust_price a)"

lemma ob_uncrossed_side:
  "ob_uncrossed bk \<longleftrightarrow> (\<forall>x \<in> set (side_list bk s). \<forall>y \<in> set (side_list bk (other s)). \<not> ccross s x y)"
  by (cases s) (auto simp: ob_uncrossed_def side_list_def ccross_def not_le)

section \<open>One trade\<close>

text \<open>The taker after consuming the whole maker, and the maker after being hit in part.\<close>

definition tpart :: "'d::linordered_idom bigdec \<Rightarrow> 'd bb_order \<Rightarrow> 'd bb_order \<Rightarrow> 'd bb_order" where
  "tpart bd t m =
     t\<lparr>average_price := get_average_price bd (consumer_all_number t) (average_price t) (remaining m) (trust_price m),
       consumer_all_number := consumer_all_number t + remaining m,
       remaining_number := trust_number t - (consumer_all_number t + remaining m),
       order_status := ORDER_STATUS_SUCCESS_PART, current_deal_number := remaining m\<rparr>"

definition mpart :: "bool \<Rightarrow> 'd::linordered_idom bigdec \<Rightarrow> 'd bb_order \<Rightarrow> 'd bb_order \<Rightarrow> 'd bb_order" where
  "mpart avg bd t m =
     (let m1 = m\<lparr>consumer_all_number := consumer_all_number m + remaining t,
                 remaining_number := trust_number m - (consumer_all_number m + remaining t)\<rparr>
      in if avg then m1\<lparr>average_price := get_average_price bd (consumer_all_number m) (average_price m)
                           (remaining t) (trust_price m)\<rparr> else m1)"

lemma tpart_simps [simp]:
  "trust_price (tpart bd t m) = trust_price t" "create_time (tpart bd t m) = create_time t"
  "trust_order_no (tpart bd t m) = trust_order_no t" "order_type (tpart bd t m) = order_type t"
  "order_form (tpart bd t m) = order_form t" "remaining (tpart bd t m) = remaining t - remaining m"
  "remaining_number (tpart bd t m) = remaining t - remaining m" "symbol_key (tpart bd t m) = symbol_key t"
  "user_type (tpart bd t m) = user_type t" "trust_number (tpart bd t m) = trust_number t"
  by (simp_all add: tpart_def remaining_def algebra_simps)

lemma mpart_simps [simp]:
  "trust_price (mpart avg bd t m) = trust_price m" "create_time (mpart avg bd t m) = create_time m"
  "trust_order_no (mpart avg bd t m) = trust_order_no m" "order_type (mpart avg bd t m) = order_type m"
  "order_form (mpart avg bd t m) = order_form m" "remaining (mpart avg bd t m) = remaining m - remaining t"
  "remaining_number (mpart avg bd t m) = remaining m - remaining t" "user_type (mpart avg bd t m) = user_type m"
  by (simp_all add: mpart_def remaining_def Let_def algebra_simps)

definition trade_ev :: "'d::linordered_idom bigdec \<Rightarrow> 'd bb_order \<Rightarrow> 'd bb_order \<Rightarrow> match_event" where
  "trade_ev bd t m =
     fill_event bd (symbol_key t) t m (trust_price m) (min (remaining t) (remaining m))
       (remaining t - min (remaining t) (remaining m)) (remaining m - min (remaining t) (remaining m))
       (if remaining t \<le> remaining m then ORDER_STATUS_SUCCESS else ORDER_STATUS_SUCCESS_PART)
       (if remaining m \<le> remaining t then ORDER_STATUS_SUCCESS else ORDER_STATUS_SUCCESS_PART)"

definition left_taker :: "'d::linordered_idom bigdec \<Rightarrow> 'd bb_order \<Rightarrow> 'd bb_order \<Rightarrow> 'd bb_order list" where
  "left_taker bd t m = (if remaining m < remaining t then [tpart bd t m] else [])"

definition left_maker :: "bool \<Rightarrow> 'd::linordered_idom bigdec \<Rightarrow> 'd bb_order \<Rightarrow> 'd bb_order \<Rightarrow> 'd bb_order list" where
  "left_maker avg bd t m = (if remaining t < remaining m then [mpart avg bd t m] else [])"

text \<open>The whole walk of a taker along the maker side.\<close>

fun cmatch :: "bool \<Rightarrow> 'd::linordered_idom bigdec \<Rightarrow> bside \<Rightarrow> 'd bb_order \<Rightarrow> 'd bb_order list \<Rightarrow>
    match_event list \<times> 'd bb_order list \<times> 'd bb_order list" where
  "cmatch avg bd s t [] = ([], [t], [])"
| "cmatch avg bd s t (m # ms) =
     (if \<not> ccross s t m then ([], [t], m # ms)
      else if remaining m < remaining t then
        (case cmatch avg bd s (tpart bd t m) ms of (evs, r, q) \<Rightarrow> (trade_ev bd t m # evs, r, q))
      else ([trade_ev bd t m], [], left_maker avg bd t m @ ms))"

section \<open>The code's steps\<close>

abbreviation ahead :: "bside \<Rightarrow> 'd::linordered_idom bb_order \<Rightarrow> 'd bb_order list \<Rightarrow> bool" where
  "ahead s x xs \<equiv> \<forall>y \<in> set xs. cmp_of s x y = Less"

lemma insert_ahead:
  assumes "from_order_type (order_type x) = Some s" and "same_key x x0" and "ahead s x0 (side_list bk s)"
  shows "fst (ob_insert x bk) = set_side s (x # side_list bk s) bk"
proof -
  have "cmp_of s x y = Less" if "y \<in> set (side_list bk s)" for y
    using side_order.key [OF assms(2), of s y] assms(3) that by simp
  then show ?thesis using side_order.insert_front [of "side_list bk s" s x] by (simp add: ob_insert_side [OF assms(1)])
qed

lemma fill_event_cong:
  "trust_order_no t = trust_order_no t' \<Longrightarrow> user_type t = user_type t' \<Longrightarrow>
   trust_order_no m = trust_order_no m' \<Longrightarrow> user_type m = user_type m' \<Longrightarrow>
   fill_event bd sy t m p q a b c d = fill_event bd sy t' m' p q a b c d"
  by (simp add: fill_event_def)

text \<open>\<open>limit_step\<close>: one iteration of a limit loop of either side.\<close>

definition limit_step :: "'d::linordered_idom bigdec \<Rightarrow> bside \<Rightarrow> 'd order_book \<Rightarrow> match_event list \<Rightarrow>
    'd order_book \<times> match_event list" where
  "limit_step bd s bk evs =
     (case s of BuySide \<Rightarrow> push_rather_than_buy bd bk evs | SellSide \<Rightarrow> push_rather_than_sell_limit bd bk evs)"

lemma ioc_step_same: "push_rather_than_sell_ioc = push_rather_than_sell_limit"
  by (intro ext) (simp add: push_rather_than_sell_ioc_def push_rather_than_sell_limit_def)

lemma remaining_after: "trust_number (t :: 'd::linordered_idom bb_order) - (consumer_all_number t + x) = remaining t - x"
  by (simp add: remaining_def algebra_simps)

lemma rather_than_buy_eq:
  assumes "pop_first BuySide bk = (bk1, Some t)" and "pop_first SellSide bk1 = (b0, Some m)"
  shows "rather_than_buy bd bk =
    (if remaining m < remaining t then fst (ob_insert (tpart bd t m) b0)
     else if remaining t < remaining m then fst (ob_insert (mpart False bd t m) b0) else b0,
     Some (trade_ev bd t m))"
  using assms
  by (simp add: rather_than_buy_def Let_def less_than_buy_def equals_buy_def tpart_def mpart_def
      trade_ev_def fill_event_def min_def remaining_after)

lemma rather_than_sell_eq:
  assumes "pop_first SellSide bk = (bk1, Some t)" and "pop_first BuySide bk1 = (b0, Some m)"
    and "order_form t \<noteq> ORDER_FORM_FOK"
  shows "rather_than_sell bd bk =
    (if remaining m < remaining t then fst (ob_insert (tpart bd t m) b0)
     else if remaining t < remaining m then fst (ob_insert (mpart True bd t m) b0) else b0,
     RFill (trade_ev bd t m))"
  using assms
  by (simp add: rather_than_sell_def Let_def less_than_sell_def equals_sell_def tpart_def mpart_def
      trade_ev_def fill_event_def min_def remaining_after)

lemma rather_than_trade:
  assumes t: "side_list bk s = t # ts" and m: "side_list bk (other s) = m # ms"
    and at: "ahead s t ts" and am: "ahead (other s) m ms"
    and ty: "from_order_type (order_type t) = Some s" "from_order_type (order_type m) = Some (other s)"
    and fok: "s = SellSide \<Longrightarrow> order_form t \<noteq> ORDER_FORM_FOK"
    and bk': "bk' = set_side s (left_taker bd t m @ ts) (set_side (other s) (left_maker (s = SellSide) bd t m @ ms) bk)"
  shows "s = BuySide \<Longrightarrow> rather_than_buy bd bk = (bk', Some (trade_ev bd t m))"
    and "s = SellSide \<Longrightarrow> rather_than_sell bd bk = (bk', RFill (trade_ev bd t m))"
proof -
  define b0 where "b0 = set_side s ts (set_side (other s) ms bk)"
  have lb: "side_list b0 s = ts" "side_list b0 (other s) = ms"
    by (simp_all add: b0_def)
  have it: "fst (ob_insert (tpart bd t m) b0) = set_side s (tpart bd t m # ts) (set_side (other s) ms bk)"
    using insert_ahead [of "tpart bd t m" s t b0] ty at lb by (simp add: b0_def)
  have im: "fst (ob_insert (mpart avg bd t m) b0) = set_side s ts (set_side (other s) (mpart avg bd t m # ms) bk)" for avg
    using insert_ahead [of "mpart avg bd t m" "other s" m b0] ty am lb
    by (simp add: b0_def) (metis other_simps(1) set_side_commute set_side_twice)
  note sides = it im left_taker_def left_maker_def
  show "rather_than_buy bd bk = (bk', Some (trade_ev bd t m))" if b: "s = BuySide"
  proof -
    have "pop_first BuySide bk = (set_side BuySide ts bk, Some t)"
      "pop_first SellSide (set_side BuySide ts bk) = (b0, Some m)"
      using t m b by (simp_all add: pop_first_def set_side_def side_list_def b0_def)
    from rather_than_buy_eq [OF this, of bd] show ?thesis
      using b by (simp add: bk' sides) (simp add: b0_def)
  qed
  show "rather_than_sell bd bk = (bk', RFill (trade_ev bd t m))" if a: "s = SellSide"
  proof -
    have "pop_first SellSide bk = (set_side SellSide ts bk, Some t)"
      "pop_first BuySide (set_side SellSide ts bk) = (b0, Some m)"
      using t m a by (simp_all add: pop_first_def set_side_def side_list_def b0_def)
    from rather_than_sell_eq [OF this, of bd] show ?thesis
      using a fok by (simp add: bk' sides) (simp add: b0_def)
  qed
qed

lemma limit_step_trade:
  assumes "side_list bk s = t # ts" and "side_list bk (other s) = m # ms"
    and "ahead s t ts" and "ahead (other s) m ms"
    and "from_order_type (order_type t) = Some s" "from_order_type (order_type m) = Some (other s)"
    and "s = SellSide \<Longrightarrow> order_form t \<noteq> ORDER_FORM_FOK"
  shows "limit_step bd s bk evs =
    (set_side s (left_taker bd t m @ ts) (set_side (other s) (left_maker (s = SellSide) bd t m @ ms) bk),
     evs @ [trade_ev bd t m])"
  using rather_than_trade [OF assms refl, of bd]
  by (cases s) (simp_all add: limit_step_def push_rather_than_buy_def push_opt_def push_rather_than_sell_limit_def)

section \<open>The limit loops walk the opposite side\<close>

definition limit_loop :: "'d::linordered_idom bigdec \<Rightarrow> bside \<Rightarrow> 'd order_book \<Rightarrow> match_event list \<Rightarrow>
    'd order_book \<times> match_event list" where
  "limit_loop bd s bk evs =
     (case s of BuySide \<Rightarrow> match_limit_buy_loop bd bk evs | SellSide \<Rightarrow> match_limit_sell_loop bd bk evs)"

lemma limit_loop_unfold:
  "limit_loop bd s bk evs =
     (if side_list bk s = [] \<or> side_list bk (other s) = [] \<or> \<not> ccross s (hd (side_list bk s)) (hd (side_list bk (other s)))
      then (bk, evs)
      else (case limit_step bd s bk evs of (bk', evs') \<Rightarrow> limit_loop bd s bk' evs'))"
proof (cases s)
  case BuySide
  then show ?thesis
    using match_limit_buy_loop.simps [of bd bk evs]
    by (auto simp: limit_loop_def limit_step_def side_list_def ob_is_empty_def ccross_def)
next
  case SellSide
  then show ?thesis
    using match_limit_sell_loop.simps [of bd bk evs]
    by (auto simp: limit_loop_def limit_step_def side_list_def ob_is_empty_def ccross_def)
qed

lemma ccross_cong:
  "trust_price t = trust_price t' \<Longrightarrow> trust_price m = trust_price m' \<Longrightarrow> ccross s t m = ccross s t' m'"
  by (cases s) (simp_all add: ccross_def)

abbreviation makers_ok :: "bside \<Rightarrow> 'd::linordered_idom bb_order list \<Rightarrow> bool" where
  "makers_ok s ms \<equiv> sorted_wrt (\<lambda>a b. cmp_of s a b = Less) ms \<and> (\<forall>m \<in> set ms. from_order_type (order_type m) = Some s)"

lemma limit_loop_idle:
  assumes "\<forall>y \<in> set (side_list bk s). \<forall>m \<in> set (side_list bk (other s)). \<not> ccross s y m"
  shows "limit_loop bd s bk evs = (bk, evs)"
  using assms hd_in_set [of "side_list bk s"] hd_in_set [of "side_list bk (other s)"]
  by (subst limit_loop_unfold) auto

lemma left_maker_idle:
  assumes "\<forall>y \<in> set ts. \<forall>x \<in> set (m # ms). \<not> ccross s y x"
  shows "\<forall>y \<in> set ts. \<forall>x \<in> set (left_maker avg bd t m @ ms). \<not> ccross s y x"
  using assms ccross_cong [of _ _ "mpart avg bd t m" m s] by (auto simp: left_maker_def)

lemma limit_loop_walk:
  assumes "side_list bk s = t # ts" and "side_list bk (other s) = ms"
    and "ahead s t ts" and "makers_ok (other s) ms"
    and "from_order_type (order_type t) = Some s"
    and "s = SellSide \<Longrightarrow> order_form t \<noteq> ORDER_FORM_FOK"
    and "\<forall>y \<in> set ts. \<forall>m \<in> set ms. \<not> ccross s y m"
    and "cmatch (s = SellSide) bd s t ms = (evs', r, q)"
  shows "limit_loop bd s bk evs = (set_side s (r @ ts) (set_side (other s) q bk), evs @ evs')"
  using assms
proof (induction ms arbitrary: t bk evs evs')
  case Nil
  then show ?case using set_sides_same [OF Nil.prems(1,2)] by (subst limit_loop_unfold) auto
next
  case (Cons m ms)
  note t = Cons.prems(1) and m = Cons.prems(2)
  let ?lm = "left_maker (s = SellSide) bd t m @ ms"
  let ?bk = "set_side s (left_taker bd t m @ ts) (set_side (other s) ?lm bk)"
  have tlb: "limit_loop bd s bk evs = limit_loop bd s ?bk (evs @ [trade_ev bd t m])" if "ccross s t m"
    using that Cons.prems limit_step_trade [OF t m, of bd evs] by (subst limit_loop_unfold) simp
  consider (stop) "\<not> ccross s t m" | (more) "ccross s t m" "remaining m < remaining t"
    | (filled) "ccross s t m" "\<not> remaining m < remaining t" by blast
  then show ?case
  proof cases
    case stop
    then have "limit_loop bd s bk evs = (bk, evs)" using t m by (subst limit_loop_unfold) simp
    then show ?thesis using Cons.prems(8) stop set_sides_same [OF t m] by auto
  next
    case more
    obtain evs1 where cm: "cmatch (s = SellSide) bd s (tpart bd t m) ms = (evs1, r, q)" "evs' = trade_ev bd t m # evs1"
      using Cons.prems(8) more by (auto split: prod.splits)
    have "ahead s (tpart bd t m) ts"
      using Cons.prems(3) side_order.key [of "tpart bd t m" t s] by simp
    moreover have "left_taker bd t m = [tpart bd t m]" "?lm = ms" using more by (simp_all add: left_taker_def left_maker_def)
    ultimately show ?thesis
      using Cons.IH [of ?bk "tpart bd t m" evs1 "evs @ [trade_ev bd t m]"] Cons.prems cm tlb [OF more(1)]
      by (simp add: set_side_commute)
  next
    case filled
    have "left_taker bd t m = []" using filled by (simp add: left_taker_def)
    then have "limit_loop bd s ?bk (evs @ [trade_ev bd t m]) = (?bk, evs @ [trade_ev bd t m])"
      using left_maker_idle [OF Cons.prems(7)] by (intro limit_loop_idle) simp
    then show ?thesis using Cons.prems(8) filled tlb [OF filled(1)] \<open>left_taker bd t m = []\<close> by auto
  qed
qed

end
