(* ===== verification/Core_Spec.thy ===== *)
theory Core_Spec
  imports Core_Match
begin

text \<open>
  What every order form does to an invariant, uncrossed book, and the proof that the handlers
  do it: limit and post-only, immediate-or-cancel.  \<open>cmatch\<close> gives the fills, the remainder of
  the taker and the makers that stay.
\<close>

section \<open>The invariant by sides\<close>

definition side_ok :: "bside \<Rightarrow> 'd::linordered_idom bb_order list \<Rightarrow> bool" where
  "side_ok s xs \<longleftrightarrow> in_order (cmp_of s) xs \<and> (\<forall>x \<in> set xs. order_live s x)"

definition place :: "bside \<Rightarrow> 'd::linordered_idom bb_order \<Rightarrow> 'd bb_order list \<Rightarrow> 'd bb_order list" where
  "place s t xs = fst (bts_insert (cmp_of s) t xs)"

lemma ob_inv_sides:
  "ob_inv bk \<longleftrightarrow> side_ok s (side_list bk s) \<and> side_ok (other s) (side_list bk (other s)) \<and>
     set (nos (side_list bk s)) \<inter> set (nos (side_list bk (other s))) = {}"
proof -
  have all: "(\<forall>x. P x) \<longleftrightarrow> P s \<and> P (other s)" for P using side_cases [of _ s] by metis
  have "distinct (nos (buys bk @ sells bk)) \<longleftrightarrow> distinct (nos (side_list bk s)) \<and> distinct (nos (side_list bk (other s))) \<and>
      set (nos (side_list bk s)) \<inter> set (nos (side_list bk (other s))) = {}"
    by (cases s) (auto simp: side_list_def)
  then show ?thesis unfolding ob_inv_def all side_ok_def in_order_def by blast
qed

lemma ob_inv_update:
  "side_ok s xs \<Longrightarrow> side_ok (other s) ys \<Longrightarrow> set (nos xs) \<inter> set (nos ys) = {} \<Longrightarrow>
   ob_inv (set_side s xs (set_side (other s) ys bk))"
  by (simp add: ob_inv_sides [of _ s])

lemma uncrossed_update:
  "ob_uncrossed (set_side s xs (set_side (other s) ys bk)) \<longleftrightarrow> (\<forall>x \<in> set xs. \<forall>y \<in> set ys. \<not> ccross s x y)"
  by (simp add: ob_uncrossed_side [of _ s])

lemma side_ok_Cons:
  "side_ok s (x # xs) \<longleftrightarrow> side_ok s xs \<and> ahead s x xs \<and> order_live s x \<and> trust_order_no x \<notin> set (nos xs)"
  by (auto simp: side_ok_def in_order_def)

lemma side_ok_key:
  assumes "side_ok s (x # xs)" and "same_key x' x" and "order_live s x'"
  shows "side_ok s (x' # xs)"
  using assms side_order.key [OF assms(2), of s] by (simp add: side_ok_Cons)

lemma side_ok_makers: "side_ok s ms \<Longrightarrow> makers_ok s ms"
  by (auto simp: side_ok_def in_order_def order_live_def)

lemma side_ok_drop: "side_ok s xs \<Longrightarrow> side_ok s (drop_no no xs)"
  by (simp add: side_ok_def side_order.in_order_drop set_drop_no)

lemma place_ok:
  assumes "side_ok s xs" and "order_live s t" and "trust_order_no t \<notin> set (nos xs)"
  shows "side_ok s (place s t xs)" and "set (place s t xs) = insert t (set xs)"
  using side_order.insert_fresh [of s xs t] assms by (auto simp: side_ok_def place_def)

lemma place_drop:
  assumes "trust_order_no t = no" and "no \<notin> set (nos xs)"
  shows "drop_no no (place s t xs) = xs"
  using assms by (induction xs) (auto simp: place_def drop_no_absent split: ordering.splits prod.splits)

lemma place_front: "ahead s t xs \<Longrightarrow> place s t xs = t # xs"
  using side_order.insert_front [of xs s t] by (simp add: place_def)

lemma insert_place:
  assumes "side_ok s (side_list bk s)" and "order_live s t" and "trust_order_no t \<notin> set (nos (side_list bk s))"
  shows "ob_insert t bk = (set_side s (place s t (side_list bk s)) bk, True)"
  using side_order.insert_fresh(1) [of s "side_list bk s" t] assms
  by (simp add: ob_insert_side [of t s] order_live_def side_ok_def place_def)

section \<open>Prices along a side\<close>

lemma better_first:
  assumes "cmp_of (other s) a b = Less" and "ccross s t b"
  shows "ccross s t a"
  using assms by (cases s) (auto simp: cmp_of_def ccross_def compare_buy_Less compare_sell_Less)

lemma no_cross_rest:
  assumes "makers_ok (other s) (m # ms)" and "\<not> ccross s t m" and "x \<in> set (m # ms)"
  shows "\<not> ccross s t x"
  using assms better_first [of s m x t] by auto

text \<open>An order that trades in an uncrossed book is better than all of its own side.\<close>

lemma cross_ahead:
  assumes "ob_uncrossed bk" and "m \<in> set (side_list bk (other s))" and "ccross s t m"
  shows "ahead s t (side_list bk s)"
proof
  fix y assume "y \<in> set (side_list bk s)"
  then have "\<not> ccross s y m" using assms by (simp add: ob_uncrossed_side [of _ s])
  then show "cmp_of s t y = Less"
    using assms(3) by (cases s) (auto simp: cmp_of_def ccross_def compare_buy_Less compare_sell_Less)
qed

section \<open>What a walk leaves\<close>

lemma tpart_live: "order_live s t \<Longrightarrow> remaining m < remaining t \<Longrightarrow> order_live s (tpart bd t m)"
  by (simp add: order_live_def)

lemma mpart_live: "order_live s m \<Longrightarrow> remaining t < remaining m \<Longrightarrow> order_live s (mpart avg bd t m)"
  by (simp add: order_live_def)

lemma left_maker_ok:
  assumes "side_ok s (m # ms)"
  shows "side_ok s (left_maker avg bd t m @ ms)"
    and "set (nos (left_maker avg bd t m @ ms)) \<subseteq> set (nos (m # ms))"
  using assms side_ok_key [OF assms, of "mpart avg bd t m"] mpart_live [of s m t avg bd]
  by (auto simp: left_maker_def side_ok_Cons)

lemma cmatch_makers:
  assumes "side_ok (other s) ms" and "cmatch avg bd s t ms = (evs, r, q)"
  shows "side_ok (other s) q" and "set (nos q) \<subseteq> set (nos ms)" and "trust_price ` set q \<subseteq> trust_price ` set ms"
proof -
  have "side_ok (other s) q \<and> set (nos q) \<subseteq> set (nos ms) \<and> trust_price ` set q \<subseteq> trust_price ` set ms"
    using assms
  proof (induction ms arbitrary: t evs)
    case (Cons m ms)
    note lm = left_maker_ok [OF Cons.prems(1), of avg bd t]
    have p: "trust_price ` set (left_maker avg bd t m @ ms) \<subseteq> trust_price ` set (m # ms)"
      by (auto simp: left_maker_def)
    consider "\<not> ccross s t m" | "ccross s t m" "remaining m < remaining t" | "ccross s t m" "\<not> remaining m < remaining t"
      by blast
    then show ?case
    proof cases
      case 1
      then show ?thesis using Cons.prems by auto
    next
      case 2
      then obtain evs1 where "cmatch avg bd s (tpart bd t m) ms = (evs1, r, q)"
        using Cons.prems(2) by (auto split: prod.splits)
      from Cons.IH [OF _ this] show ?thesis using Cons.prems(1) by (auto simp: side_ok_Cons)
    next
      case 3
      then have "q = left_maker avg bd t m @ ms" using Cons.prems(2) by simp
      then show ?thesis using lm p by simp
    qed
  qed simp
  then show "side_ok (other s) q" "set (nos q) \<subseteq> set (nos ms)" "trust_price ` set q \<subseteq> trust_price ` set ms"
    by blast+
qed

lemma cmatch_taker:
  assumes "makers_ok (other s) ms" and "order_live s t" and "cmatch avg bd s t ms = (evs, r, q)"
  shows "r = [] \<or> (\<exists>t'. r = [t'] \<and> same_key t' t \<and> symbol_key t' = symbol_key t \<and> order_live s t' \<and> (\<forall>m \<in> set q. \<not> ccross s t' m))"
  using assms
proof (induction ms arbitrary: t evs)
  case (Cons m ms)
  consider "\<not> ccross s t m" | "ccross s t m" "remaining m < remaining t" | "ccross s t m" "\<not> remaining m < remaining t"
    by blast
  then show ?case
  proof cases
    case 1
    then show ?thesis using Cons.prems no_cross_rest [OF Cons.prems(1) 1] by auto
  next
    case 2
    then obtain evs1 where "cmatch avg bd s (tpart bd t m) ms = (evs1, r, q)"
      using Cons.prems(3) by (auto split: prod.splits)
    from Cons.IH [OF _ _ this] show ?thesis using Cons.prems tpart_live [OF Cons.prems(2) 2(2)] by auto
  next
    case 3
    then show ?thesis using Cons.prems(3) by simp
  qed
qed auto

section \<open>Revocations\<close>

definition revoke_ev :: "'d::linordered_idom bigdec \<Rightarrow> string \<Rightarrow> 'd bb_order \<Rightarrow> match_event" where
  "revoke_ev bd reason t = RevokeEv (trust_order_no t) (symbol_key t) (dec_str bd (remaining t)) reason"

lemma revoke_with_reason_side:
  assumes "in_order (cmp_of s) (side_list bk s)" and "from_order_type (order_type t) = Some s"
  shows "revoke_order_with_reason bd t reason bk =
    (set_side s (drop_no (trust_order_no t) (side_list bk s)) bk,
     map_option (revoke_ev bd reason) (find (\<lambda>e. trust_order_no e = trust_order_no t) (side_list bk s)))"
  using remove_by_order_no_side [OF assms(1), of "trust_order_no t"] assms(2)
  by (auto simp: revoke_order_with_reason_def revoke_ev_def split: option.split)

lemma push_revoke_side:
  assumes "in_order (cmp_of s) (side_list bk s)"
  shows "push_revoke bd no s reason bk evs =
    (set_side s (drop_no no (side_list bk s)) bk,
     push_opt evs (map_option (revoke_ev bd reason) (find (\<lambda>e. trust_order_no e = no) (side_list bk s))))"
  using revoke_with_reason_side [OF assms, of "(test_limit s 0 no 0 0)\<lparr>order_type := side_order_type s\<rparr>" bd reason]
  by (simp add: push_revoke_def revoke_by_no_def test_limit_def)

lemma find_no: "distinct (nos xs) \<Longrightarrow> t \<in> set xs \<Longrightarrow> find (\<lambda>e. trust_order_no e = trust_order_no t) xs = Some t"
  by (induction xs) (auto simp: image_iff)

lemma find_no_absent: "no \<notin> set (nos xs) \<Longrightarrow> find (\<lambda>e. trust_order_no e = no) xs = None"
  by (auto simp: find_None_iff)

lemma push_revoke_member:
  assumes "side_ok s (side_list bk s)" and "t \<in> set (side_list bk s)" and "trust_order_no t = no"
  shows "push_revoke bd no s reason bk evs =
    (set_side s (drop_no no (side_list bk s)) bk, evs @ [revoke_ev bd reason t])"
  using assms push_revoke_side [of s bk bd no reason evs] find_no [of "side_list bk s" t]
  by (simp add: side_ok_def in_order_def push_opt_def)

lemma push_revoke_absent:
  assumes "side_ok s (side_list bk s)" and "no \<notin> set (nos (side_list bk s))"
  shows "push_revoke bd no s reason bk evs = (bk, evs)"
  using assms push_revoke_side [of s bk bd no reason evs]
  by (simp add: find_no_absent drop_no_absent side_ok_def push_opt_def)

section \<open>Limit orders\<close>

abbreviation fresh :: "'d bb_order \<Rightarrow> 'd order_book \<Rightarrow> bool" where
  "fresh t bk \<equiv> \<not> contains_order_no bk (trust_order_no t)"

lemma contains_order_no_side:
  "contains_order_no bk no \<longleftrightarrow> no \<in> set (nos (side_list bk s)) \<or> no \<in> set (nos (side_list bk (other s)))"
  by (cases s) (auto simp: contains_order_no_def side_list_def list_ex_iff)

text \<open>The remainder of a taker enters its own side.\<close>

abbreviation rest_in :: "bside \<Rightarrow> 'd::linordered_idom bb_order list \<Rightarrow> 'd bb_order list \<Rightarrow> 'd bb_order list" where
  "rest_in s r xs \<equiv> foldr (place s) r xs"

lemma rest_in_front:
  assumes "ahead s t xs" and "r = [] \<or> (\<exists>t'. r = [t'] \<and> same_key t' t \<and> P t')"
  shows "rest_in s r xs = r @ xs"
proof -
  have "rest_in s [t'] xs = t' # xs" if "same_key t' t" for t'
    using assms(1) side_order.key [OF that, of s] by (simp add: place_front)
  then show ?thesis using assms(2) by auto
qed

lemma handle_limit_side:
  assumes inv: "ob_inv bk" "ob_uncrossed bk" and t: "order_live s t" "fresh t bk" "order_form t \<noteq> ORDER_FORM_FOK"
    and cm: "cmatch (s = SellSide) bd s t (side_list bk (other s)) = (evs, r, q)"
  shows "with_inserted t (\<lambda>b. limit_loop bd s b []) bk =
    (set_side s (rest_in s r (side_list bk s)) (set_side (other s) q bk), evs)"
proof -
  let ?own = "side_list bk s" and ?ms = "side_list bk (other s)"
  have ok: "side_ok s ?own" "side_ok (other s) ?ms" using inv(1) ob_inv_sides [of bk s] by simp_all
  have new: "trust_order_no t \<notin> set (nos ?own)" using t(2) contains_order_no_side [of bk _ s] by simp
  let ?b = "set_side s (place s t ?own) bk"
  have ins: "with_inserted t (\<lambda>b. limit_loop bd s b []) bk = limit_loop bd s ?b []"
    using insert_place [OF ok(1) t(1) new] by (simp add: with_inserted_def)
  have un: "\<forall>y \<in> set ?own. \<forall>m \<in> set ?ms. \<not> ccross s y m" using inv(2) ob_uncrossed_side [of bk s] by simp
  show ?thesis
  proof (cases "?ms = [] \<or> \<not> ccross s t (hd ?ms)")
    case True
    then have "cmatch (s = SellSide) bd s t ?ms = ([], [t], ?ms)" by (cases ?ms) auto
    then have "evs = []" "r = [t]" "q = ?ms" using cm by simp_all
    moreover have "\<not> ccross s t m" if "m \<in> set ?ms" for m
      using no_cross_rest [of s "hd ?ms" "tl ?ms" t m] True that side_ok_makers [OF ok(2)] by (cases ?ms) auto
    then have "limit_loop bd s ?b [] = (?b, [])"
      using un place_ok(2) [OF ok(1) t(1) new] by (intro limit_loop_idle) auto
    ultimately show ?thesis using ins by simp
  next
    case False
    then have ah: "ahead s t ?own" using cross_ahead [OF inv(2), of "hd ?ms" s t] by simp
    have "limit_loop bd s ?b [] = (set_side s (r @ ?own) (set_side (other s) q ?b), [] @ evs)"
      using limit_loop_walk [OF _ _ ah _ _ _ un cm, of ?b "[]"] t side_ok_makers [OF ok(2)] place_front [OF ah]
      by (simp add: order_live_def)
    moreover have "rest_in s r ?own = r @ ?own"
      using rest_in_front [OF ah cmatch_taker [OF side_ok_makers [OF ok(2)] t(1) cm]] .
    ultimately show ?thesis using ins by (simp add: set_side_commute)
  qed
qed

end
