(* ===== verification/Core_Ioc.thy ===== *)
theory Core_Ioc
  imports Core_Spec
begin

text \<open>
  Post-only and immediate-or-cancel orders on an invariant, uncrossed book: the first never
  take, the second never rest.
\<close>

definition height_loop :: "'d::linordered_idom bigdec \<Rightarrow> bside \<Rightarrow> int \<Rightarrow> string \<Rightarrow> 'd \<Rightarrow> 'd order_book \<Rightarrow>
    match_event list \<Rightarrow> ('d order_book \<times> match_event list) option" where
  "height_loop bd s = (case s of BuySide \<Rightarrow> height_buy_loop bd | SellSide \<Rightarrow> height_sell_loop bd)"

definition handle_height :: "'d::linordered_idom bigdec \<Rightarrow> bside \<Rightarrow> 'd bb_order \<Rightarrow> 'd order_book \<Rightarrow>
    ('d order_book \<times> match_event list) option" where
  "handle_height bd s = (case s of BuySide \<Rightarrow> handle_height_buy bd | SellSide \<Rightarrow> handle_height_sell bd)"

lemma form_distinct [simp]:
  "ORDER_FORM_IOC \<noteq> ORDER_FORM_POST_ONLY" "ORDER_FORM_IOC \<noteq> ORDER_FORM_FOK" "ORDER_FORM_FOK \<noteq> ORDER_FORM_POST_ONLY"
  "ORDER_FORM_FOK \<noteq> ORDER_FORM_IOC"
  by (simp_all add: ORDER_FORM_IOC_def ORDER_FORM_POST_ONLY_def ORDER_FORM_FOK_def)

lemma handle_height_inserted:
  assumes "ob_insert t bk = (bk', True)"
  shows "handle_height bd s t bk = height_loop bd s (order_form t) (trust_order_no t) (trust_price t) bk' []"
  using assms by (cases s) (simp_all add: handle_height_def height_loop_def handle_height_buy_def handle_height_sell_def)

lemma ioc_loop_unfold:
  "height_loop bd s ORDER_FORM_IOC no p bk evs =
     (if side_list bk (other s) = [] then Some (push_revoke bd no s ''ioc_remainder'' bk evs)
      else if side_list bk s = [] then Some (bk, evs)
      else if \<not> contains_order_no bk no then Some (bk, evs)
      else if trust_order_no (hd (side_list bk s)) \<noteq> no then Some (push_revoke bd no s ''ioc_remainder'' bk evs)
      else if \<not> ccross s (hd (side_list bk s)) (hd (side_list bk (other s)))
        then Some (push_revoke bd no s ''ioc_remainder'' bk evs)
      else (case limit_step bd s bk evs of (bk', evs') \<Rightarrow> height_loop bd s ORDER_FORM_IOC no p bk' evs'))"
proof (cases s)
  case BuySide
  then show ?thesis
    using height_buy_loop.simps [of bd ORDER_FORM_IOC no p bk evs]
    by (auto simp: height_loop_def limit_step_def side_list_def ob_is_empty_def ccross_def ioc_or_fok_reason_def)
next
  case SellSide
  then show ?thesis
    using height_sell_loop.simps [of bd ORDER_FORM_IOC no p bk evs]
    by (auto simp: height_loop_def limit_step_def side_list_def ob_is_empty_def ccross_def ioc_or_fok_reason_def ioc_step_same)
qed

lemma set_side_same: "side_list bk s = xs \<Longrightarrow> set_side s xs bk = bk"
  by auto

text \<open>Once the order is gone the loop stops.\<close>

lemma ioc_loop_gone:
  assumes "side_ok s (side_list bk s)" and "\<not> contains_order_no bk no"
  shows "height_loop bd s ORDER_FORM_IOC no p bk evs = Some (bk, evs)"
  using assms push_revoke_absent [OF assms(1), of no] contains_order_no_side [of bk no s]
  by (subst ioc_loop_unfold) simp

text \<open>An order that is on the book and does not trade is revoked.\<close>

lemma ioc_loop_stop:
  assumes "side_ok s (side_list bk s)" and "t \<in> set (side_list bk s)" and "trust_order_no t = no"
    and "side_list bk (other s) = [] \<or> hd (side_list bk s) \<noteq> t \<or> \<not> ccross s t (hd (side_list bk (other s)))"
  shows "height_loop bd s ORDER_FORM_IOC no p bk evs =
    Some (set_side s (drop_no no (side_list bk s)) bk, evs @ [revoke_ev bd ''ioc_remainder'' t])"
proof -
  have c: "contains_order_no bk no" "side_list bk s \<noteq> []"
    using assms(2,3) contains_order_no_side [of bk no s] by auto
  have "trust_order_no (hd (side_list bk s)) \<noteq> no" if "hd (side_list bk s) \<noteq> t"
    using assms(1-3) that c(2) by (cases "side_list bk s") (auto simp: side_ok_Cons image_iff)
  then show ?thesis
    using c assms(4) push_revoke_member [OF assms(1-3), of bd "''ioc_remainder''" evs] by (subst ioc_loop_unfold) auto
qed

lemma ioc_loop_walk:
  assumes "side_list bk s = t # ts" and "side_list bk (other s) = ms"
    and "side_ok s (t # ts)" and "side_ok (other s) ms" and "trust_order_no t \<notin> set (nos ms)"
    and "s = SellSide \<Longrightarrow> order_form t \<noteq> ORDER_FORM_FOK"
    and "cmatch (s = SellSide) bd s t ms = (evs', r, q)"
  shows "height_loop bd s ORDER_FORM_IOC (trust_order_no t) p bk evs =
    Some (set_side s ts (set_side (other s) q bk), evs @ evs' @ map (revoke_ev bd ''ioc_remainder'') r)"
  using assms
proof (induction ms arbitrary: t bk evs evs')
  case Nil
  then show ?case using ioc_loop_stop [of s bk t "trust_order_no t" bd p evs] set_side_same [OF Nil.prems(2)]
    by (auto simp: side_ok_Cons drop_no_absent)
next
  case (Cons m ms)
  note t = Cons.prems(1) and m = Cons.prems(2)
  have mk: "makers_ok (other s) (m # ms)" by (rule side_ok_makers [OF Cons.prems(4)])
  let ?lm = "left_maker (s = SellSide) bd t m @ ms"
  let ?bk = "set_side s (left_taker bd t m @ ts) (set_side (other s) ?lm bk)"
  have tlb: "height_loop bd s ORDER_FORM_IOC (trust_order_no t) p bk evs =
      height_loop bd s ORDER_FORM_IOC (trust_order_no t) p ?bk (evs @ [trade_ev bd t m])" if "ccross s t m"
    using that Cons.prems mk limit_step_trade [OF t m, of bd evs] contains_order_no_side [of bk "trust_order_no t" s]
    by (subst ioc_loop_unfold) (simp add: side_ok_Cons order_live_def)
  consider (stop) "\<not> ccross s t m" | (more) "ccross s t m" "remaining m < remaining t"
    | (filled) "ccross s t m" "\<not> remaining m < remaining t" by blast
  then show ?case
  proof cases
    case stop
    then have "height_loop bd s ORDER_FORM_IOC (trust_order_no t) p bk evs =
        Some (set_side s ts bk, evs @ [revoke_ev bd ''ioc_remainder'' t])"
      using t m Cons.prems(3) ioc_loop_stop [of s bk t "trust_order_no t" bd p evs]
      by (simp add: side_ok_Cons drop_no_absent)
    moreover have "evs' = []" "r = [t]" "q = m # ms" using Cons.prems(7) stop by auto
    ultimately show ?thesis using set_side_same [OF m] by simp
  next
    case more
    obtain evs1 where cm: "cmatch (s = SellSide) bd s (tpart bd t m) ms = (evs1, r, q)" "evs' = trade_ev bd t m # evs1"
      using Cons.prems(7) more by (auto split: prod.splits)
    have "side_ok s (tpart bd t m # ts)"
      using side_ok_key [OF Cons.prems(3), of "tpart bd t m"] tpart_live [OF _ more(2), of s bd] Cons.prems(3)
      by (simp add: side_ok_Cons)
    moreover have "left_taker bd t m = [tpart bd t m]" "?lm = ms" using more by (simp_all add: left_taker_def left_maker_def)
    ultimately show ?thesis
      using Cons.IH [of ?bk "tpart bd t m" evs1 "evs @ [trade_ev bd t m]"] Cons.prems cm tlb [OF more(1)]
      by (simp add: set_side_commute side_ok_Cons)
  next
    case filled
    then have l: "left_taker bd t m = []" by (simp add: left_taker_def)
    have "trust_order_no t \<notin> set (nos ?lm)" using left_maker_ok(2) [OF Cons.prems(4), of "s = SellSide" bd t] Cons.prems(5) by blast
    then have "\<not> contains_order_no ?bk (trust_order_no t)"
      using l Cons.prems(3) contains_order_no_side [of ?bk "trust_order_no t" s] by (simp add: side_ok_Cons)
    then show ?thesis
      using ioc_loop_gone [of s ?bk "trust_order_no t" bd p "evs @ [trade_ev bd t m]"] Cons.prems(3,7) filled tlb [OF filled(1)] l
      by (auto simp: side_ok_Cons)
  qed
qed

lemma handle_ioc_side:
  assumes inv: "ob_inv bk" "ob_uncrossed bk" and t: "order_live s t" "fresh t bk" "order_form t = ORDER_FORM_IOC"
    and cm: "cmatch (s = SellSide) bd s t (side_list bk (other s)) = (evs, r, q)"
  shows "handle_height bd s t bk = Some (set_side (other s) q bk, evs @ map (revoke_ev bd ''ioc_remainder'') r)"
proof -
  let ?own = "side_list bk s" and ?ms = "side_list bk (other s)"
  have ok: "side_ok s ?own" "side_ok (other s) ?ms" using inv(1) ob_inv_sides [of bk s] by simp_all
  have new: "trust_order_no t \<notin> set (nos ?own)" "trust_order_no t \<notin> set (nos ?ms)"
    using t(2) contains_order_no_side [of bk _ s] by simp_all
  let ?b = "set_side s (place s t ?own) bk"
  note p = place_ok [OF ok(1) t(1) new(1)]
  have ins: "handle_height bd s t bk = height_loop bd s ORDER_FORM_IOC (trust_order_no t) (trust_price t) ?b []"
    using handle_height_inserted [OF insert_place [OF ok(1) t(1) new(1)]] t(3) by simp
  show ?thesis
  proof (cases "?ms = [] \<or> \<not> ccross s t (hd ?ms)")
    case True
    then have "cmatch (s = SellSide) bd s t ?ms = ([], [t], ?ms)" by (cases ?ms) auto
    moreover have "set_side s (drop_no (trust_order_no t) (place s t ?own)) ?b = bk"
      using place_drop [of t, OF refl new(1), of s] by simp
    ultimately show ?thesis
      using ioc_loop_stop [of s ?b t "trust_order_no t" bd "trust_price t" "[]"] True p ins cm by auto
  next
    case False
    then have ah: "ahead s t ?own" using cross_ahead [OF inv(2), of "hd ?ms" s t] by simp
    have "side_ok s (t # ?own)" using ok(1) ah t(1) new(1) by (simp add: side_ok_Cons)
    then show ?thesis
      using ioc_loop_walk [OF _ _ _ ok(2) new(2) _ cm, of ?b ?own "trust_price t" "[]"] place_front [OF ah] t(3) ins
      by (simp add: set_side_commute)
  qed
qed

section \<open>Post-only\<close>

lemma handle_post_only_side:
  assumes inv: "ob_inv bk" and t: "order_live s t" "fresh t bk" "order_form t = ORDER_FORM_POST_ONLY"
  shows "handle_height bd s t bk =
    Some (if side_list bk (other s) \<noteq> [] \<and> ccross s t (hd (side_list bk (other s)))
          then (bk, [revoke_ev bd ''post_only'' t]) else (set_side s (place s t (side_list bk s)) bk, []))"
proof -
  let ?own = "side_list bk s" and ?ms = "side_list bk (other s)"
  have ok: "side_ok s ?own" using inv ob_inv_sides [of bk s] by simp
  have new: "trust_order_no t \<notin> set (nos ?own)" using t(2) contains_order_no_side [of bk _ s] by simp
  let ?b = "set_side s (place s t ?own) bk"
  note p = place_ok [OF ok t(1) new]
  have "push_revoke bd (trust_order_no t) s ''post_only'' ?b [] = (bk, [revoke_ev bd ''post_only'' t])"
    using push_revoke_member [of s ?b t] p place_drop [of t, OF refl new, of s] by simp
  moreover have "height_loop bd s ORDER_FORM_POST_ONLY (trust_order_no t) (trust_price t) b evs =
      (if side_list b (other s) \<noteq> [] \<and> ccross s t (hd (side_list b (other s)))
       then Some (push_revoke bd (trust_order_no t) s ''post_only'' b evs) else Some (b, evs))" for b evs
    by (cases s; simp add: height_loop_def height_buy_loop.simps height_sell_loop.simps ob_first_def ob_best_def side_list_def ccross_def Let_def
        split: list.split)
  ultimately show ?thesis using handle_height_inserted [OF insert_place [OF ok t(1) new]] t(3) by simp
qed

end
