(* ===== verification/Core_Fok.thy ===== *)
theory Core_Fok
  imports Core_Ioc
begin

text \<open>
  Fill-or-kill orders on an invariant, uncrossed book: the walk returns, and it either fills
  the whole order or puts every maker back.
\<close>

section \<open>Putting makers back\<close>

lemma insert_between:
  assumes "\<forall>y \<in> set pre. cmp_of s y x = Less" and "ahead s x post"
  shows "bts_insert (cmp_of s) x (pre @ post) = (pre @ x # post, True)"
  using assms(1)
proof (induction pre)
  case Nil
  then show ?case using side_order.insert_front [of post s x] assms(2) by simp
next
  case (Cons y pre)
  then have "cmp_of s x y = Greater" using side_order.swap [of s y x] by simp
  then show ?case using Cons by simp
qed

lemma no_remove_absent:
  assumes "side_ok s (side_list bk s)" and "no \<notin> set (nos (side_list bk s))"
  shows "remove_by_order_no s no bk = (bk, None)"
  using assms remove_by_order_no_side [of s bk no] by (simp add: side_ok_def drop_no_absent find_no_absent)

lemma remove_head:
  assumes "side_ok s (x # xs)" and "side_list bk s = x # xs"
  shows "remove_by_order_no s (trust_order_no x) bk = (set_side s xs bk, Some x)"
  using assms remove_by_order_no_side [of s bk "trust_order_no x"] by (simp add: side_ok_def in_order_def drop_no_absent)

lemma side_ok_append:
  "side_ok s (xs @ ys) \<longleftrightarrow> side_ok s xs \<and> side_ok s ys \<and> (\<forall>x \<in> set xs. ahead s x ys) \<and>
     set (nos xs) \<inter> set (nos ys) = {}"
  by (auto simp: side_ok_def in_order_def sorted_wrt_append)

lemma restore_all:
  assumes "side_ok s (pre @ xs @ post)" and "side_list bk s = pre @ post"
  shows "restore s xs bk = set_side s (pre @ xs @ post) bk"
  using assms
proof (induction xs arbitrary: pre bk)
  case Nil
  then show ?case using set_side_same [OF Nil.prems(2)] by simp
next
  case (Cons x xs)
  have ok: "side_ok s (side_list bk s)" and x: "order_live s x" "trust_order_no x \<notin> set (nos (side_list bk s))"
    and lt: "\<forall>y \<in> set pre. cmp_of s y x = Less" "ahead s x post"
    using Cons.prems by (auto simp: side_ok_append side_ok_Cons)
  have "fst (ob_insert x bk) = set_side s (pre @ x # post) bk"
    using ob_insert_side [of x s bk] x(1) insert_between [OF lt] Cons.prems(2) by (simp add: order_live_def)
  then show ?case
    using Cons.IH [of "pre @ [x]" "set_side s (pre @ x # post) bk"] Cons.prems no_remove_absent [OF ok x(2)] by simp
qed

section \<open>Walks by side\<close>

definition fok_loop :: "'d::linordered_idom bigdec \<Rightarrow> bside \<Rightarrow> 'd bb_order \<Rightarrow> 'd bb_order \<Rightarrow> match_event list \<Rightarrow>
    'd bb_order list \<Rightarrow> 'd order_book \<Rightarrow> ('d order_book \<times> fok_walk) option" where
  "fok_loop bd s = (case s of BuySide \<Rightarrow> fok_buy_walk bd | SellSide \<Rightarrow> fok_sell_walk bd)"

definition fok_rollback :: "'d::linordered_idom bigdec \<Rightarrow> bside \<Rightarrow> 'd bb_order \<Rightarrow> 'd bb_order list \<Rightarrow> 'd order_book \<Rightarrow>
    'd order_book \<times> fok_walk" where
  "fok_rollback bd s f lst bk =
     (case revoke_fok_or_fallback bd f (restore (other s) lst bk) of (bk', ev) \<Rightarrow> (bk', Fail ev))"

lemma rollbacks: "rollback_fok_buy bd = fok_rollback bd BuySide" "rollback_fok_sell bd = fok_rollback bd SellSide"
  by (intro ext; simp add: rollback_fok_buy_def rollback_fok_sell_def fok_rollback_def)+

text \<open>The fill of a whole maker as the walk reports it, also when it completes the order.\<close>

definition part_ev :: "'d::linordered_idom bigdec \<Rightarrow> 'd bb_order \<Rightarrow> 'd bb_order \<Rightarrow> match_event" where
  "part_ev bd t m = fill_event bd (symbol_key t) t m (trust_price m) (remaining m) (remaining t - remaining m) 0
     ORDER_STATUS_SUCCESS_PART ORDER_STATUS_SUCCESS"

lemma part_ev_trade: "remaining m < remaining t \<Longrightarrow> part_ev bd t m = trade_ev bd t m"
  by (simp add: part_ev_def trade_ev_def min_def)

text \<open>The body of the walk with the updated orders and the event by name, for either side.\<close>

definition fok_body :: "'d::linordered_idom bigdec \<Rightarrow> bside \<Rightarrow> 'd bb_order \<Rightarrow> 'd bb_order \<Rightarrow> 'd bb_order \<Rightarrow> match_event list \<Rightarrow>
    'd bb_order list \<Rightarrow> 'd order_book \<Rightarrow> ('d order_book \<times> fok_walk) option" where
  "fok_body bd s m t f evs lst bk =
     (if \<not> ccross s t m then
        if lst = [] then Some (bk, Done evs)
        else if remaining_number t > 0 then Some (fok_rollback bd s f lst bk) else Some (bk, Done evs)
      else
        (let bk2 = fst (remove_by_order_no s (trust_order_no t) (fst (remove_by_order_no (other s) (trust_order_no m) bk)))
         in if remaining t < remaining m
            then Some (fst (ob_insert (mpart True bd t m) bk2), Done (evs @ [trade_ev bd t m]))
            else
              (let bk3 = fst (ob_insert (tpart bd t m) bk2)
               in if remaining m < remaining t then
                    if ob_is_empty bk3 (other s) then Some (fok_rollback bd s f (lst @ [m]) bk3)
                    else fok_loop bd s (tpart bd t m) f (evs @ [part_ev bd t m]) (lst @ [m]) bk3
                  else Some (fst (remove_by_order_no s (trust_order_no t) bk3), Done (evs @ [part_ev bd t m])))))"

lemma fok_loop_body:
  assumes "ob_first bk (other s) = Some m"
  shows "fok_loop bd s t f evs lst bk = fok_body bd s m t f evs lst bk"
proof -
  note defs = fok_loop_def fok_body_def Let_def rollbacks ccross_def tpart_def mpart_def part_ev_def trade_ev_def
    fill_event_def min_def remaining_after not_less
  show ?thesis
  proof (cases s)
    case BuySide
    have avg: "m\<lparr>average_price := a, consumer_all_number := c, remaining_number := x\<rparr> =
        m\<lparr>consumer_all_number := c, remaining_number := x, average_price := a\<rparr>" for a c x by simp
    show ?thesis unfolding BuySide
      using assms BuySide by (simp add: avg fok_buy_walk.simps [of bd t f evs lst bk] fok_buy_price_gap_def defs)
  next
    case SellSide
    show ?thesis unfolding SellSide
      using assms SellSide by (simp add: fok_sell_walk.simps [of bd t f evs lst bk] fok_sell_price_gap_def defs)
  qed
qed

lemma fok_loop_step:
  assumes t: "side_list bk s = t # ts" and m: "side_list bk (other s) = m # ms"
    and ok: "side_ok s (t # ts)" "side_ok (other s) (m # ms)"
  shows "fok_loop bd s t f evs lst bk =
    (if \<not> ccross s t m then
       if lst = [] then Some (bk, Done evs) else Some (fok_rollback bd s f lst bk)
     else if remaining t < remaining m then
       Some (set_side s ts (set_side (other s) (mpart True bd t m # ms) bk), Done (evs @ [trade_ev bd t m]))
     else
       (let bk1 = set_side s (tpart bd t m # ts) (set_side (other s) ms bk)
        in if remaining m < remaining t then
             if ms = [] then Some (fok_rollback bd s f (lst @ [m]) bk1)
             else fok_loop bd s (tpart bd t m) f (evs @ [trade_ev bd t m]) (lst @ [m]) bk1
           else Some (set_side s ts (set_side (other s) ms bk), Done (evs @ [part_ev bd t m]))))"
proof -
  let ?b1 = "set_side (other s) ms bk" and ?b2 = "set_side s ts (set_side (other s) ms bk)"
  have ty: "from_order_type (order_type t) = Some s" "from_order_type (order_type m) = Some (other s)"
    and rem: "0 < remaining_number t"
    using ok by (simp_all add: side_ok_Cons order_live_def)
  have r1: "remove_by_order_no (other s) (trust_order_no m) bk = (?b1, Some m)" by (rule remove_head [OF ok(2) m])
  have r2: "remove_by_order_no s (trust_order_no t) ?b1 = (?b2, Some t)" using remove_head [OF ok(1), of ?b1] t by simp
  have it: "fst (ob_insert x ?b2) = set_side s (x # ts) ?b1" if "same_key x t" "order_type x = order_type t" for x
    using insert_ahead [of x s t ?b2] that ty ok(1) by (simp add: side_ok_Cons)
  have im: "fst (ob_insert (mpart True bd t m) ?b2) = set_side s ts (set_side (other s) (mpart True bd t m # ms) bk)"
    using insert_ahead [of "mpart True bd t m" "other s" m ?b2] ty ok(2)
    by (simp add: side_ok_Cons) (metis other_simps(1) set_side_commute set_side_twice)
  have tp: "same_key (tpart bd t m) t" "order_type (tpart bd t m) = order_type t" by simp_all
  have r3: "remove_by_order_no s (trust_order_no t) (set_side s (tpart bd t m # ts) ?b1) = (?b2, Some (tpart bd t m))"
    if "remaining m = remaining t"
  proof -
    have "in_order (cmp_of s) (tpart bd t m # ts)"
      using ok(1) side_order.key [OF tp(1), of s] by (simp add: side_ok_def in_order_def)
    then show ?thesis
      using remove_by_order_no_side [of s "set_side s (tpart bd t m # ts) ?b1" "trust_order_no t"] ok(1)
      by (simp add: drop_no_absent side_ok_Cons)
  qed
  have fst: "ob_first bk (other s) = Some m" using m by (simp add: ob_first_def ob_best_def)
  show ?thesis
    unfolding fok_loop_body [OF fst] fok_body_def
    using rem r1 r2 r3 it [OF tp] im by (simp add: Let_def part_ev_trade ob_is_empty_def not_less)
qed

lemma fok_rollback_side:
  assumes t: "side_list bk s = t # ts" "side_ok s (t # ts)"
    and m: "side_list bk (other s) = ms" "side_ok (other s) (lst @ ms)"
    and f: "trust_order_no f = trust_order_no t" "from_order_type (order_type f) = Some s"
  shows "fok_rollback bd s f lst bk =
    (set_side s ts (set_side (other s) (lst @ ms) bk), Fail (revoke_ev bd ''fok_fail'' t))"
proof -
  let ?b = "set_side (other s) (lst @ ms) bk"
  have "restore (other s) lst bk = ?b" using restore_all [of "other s" "[]" lst ms bk] m by simp
  moreover have "revoke_order_with_reason bd f ''fok_fail'' ?b = (set_side s ts ?b, Some (revoke_ev bd ''fok_fail'' t))"
    using revoke_with_reason_side [of s ?b f bd "''fok_fail''"] t f by (simp add: side_ok_def in_order_def drop_no_absent)
  ultimately show ?thesis by (simp add: fok_rollback_def revoke_fok_or_fallback_def)
qed

section \<open>The walk\<close>

text \<open>The fills of a walk that completes the order.\<close>

fun fok_fills :: "'d::linordered_idom bigdec \<Rightarrow> 'd bb_order \<Rightarrow> 'd bb_order list \<Rightarrow> match_event list" where
  "fok_fills bd t [] = []"
| "fok_fills bd t (m # ms) =
     (if remaining m < remaining t then trade_ev bd t m # fok_fills bd (tpart bd t m) ms
      else if remaining t < remaining m then [trade_ev bd t m] else [part_ev bd t m])"

lemma fok_loop_walk:
  assumes "side_list bk s = t # ts" "side_list bk (other s) = ms"
    and "side_ok s (t # ts)" "side_ok (other s) (lst @ ms)" "ms \<noteq> []" "lst = [] \<longrightarrow> ccross s t (hd ms)"
    and "trust_order_no f = trust_order_no t" "from_order_type (order_type f) = Some s"
    and "cmatch True bd s t ms = (evs', r, q)"
  shows "fok_loop bd s t f evs lst bk =
    Some (if r = [] then (set_side s ts (set_side (other s) q bk), Done (evs @ fok_fills bd t ms))
          else (set_side s ts (set_side (other s) (lst @ ms) bk), Fail (revoke_ev bd ''fok_fail'' (hd r))))"
  using assms
proof (induction ms arbitrary: t lst bk evs evs')
  case (Cons m ms)
  note t = Cons.prems(1) and m = Cons.prems(2)
  have ok: "side_ok (other s) (m # ms)" using Cons.prems(4) by (simp add: side_ok_append)
  note step = fok_loop_step [OF t m Cons.prems(3) ok, of bd f evs lst]
  consider (stop) "\<not> ccross s t m" | (more) "ccross s t m" "remaining m < remaining t"
    | (filled) "ccross s t m" "\<not> remaining m < remaining t" by blast
  then show ?case
  proof cases
    case stop
    then have "lst \<noteq> []" "r = [t]" using Cons.prems(6,9) by auto
    then show ?thesis using step stop fok_rollback_side [OF t Cons.prems(3) m Cons.prems(4,7,8)] by simp
  next
    case filled
    then have "r = []" "q = left_maker True bd t m @ ms" using Cons.prems(9) by simp_all
    then show ?thesis using step filled by (simp add: left_maker_def not_less Let_def)
  next
    case more
    obtain evs1 where cm: "cmatch True bd s (tpart bd t m) ms = (evs1, r, q)"
      using Cons.prems(9) more by (auto split: prod.splits)
    have ok1: "side_ok s (tpart bd t m # ts)"
      using side_ok_key [OF Cons.prems(3), of "tpart bd t m"] tpart_live [OF _ more(2), of s bd] Cons.prems(3)
      by (simp add: side_ok_Cons)
    let ?bk = "set_side s (tpart bd t m # ts) (set_side (other s) ms bk)"
    have l: "side_list ?bk s = tpart bd t m # ts" "side_list ?bk (other s) = ms" "side_ok (other s) ((lst @ [m]) @ ms)"
      "trust_order_no f = trust_order_no (tpart bd t m)"
      using Cons.prems(4,7) by simp_all
    show ?thesis
    proof (cases "ms = []")
      case True
      then show ?thesis
        using step more cm fok_rollback_side [OF l(1) ok1 l(2,3,4) Cons.prems(8), of bd]
        by (auto simp: Let_def set_side_commute)
    next
      case False
      then show ?thesis
        using step more Cons.IH [OF l(1,2) ok1 l(3) False _ l(4) Cons.prems(8) cm, of "evs @ [trade_ev bd t m]"]
        by (simp add: Let_def set_side_commute)
    qed
  qed
qed simp

section \<open>The handler\<close>

definition fok_handle :: "'d::linordered_idom bigdec \<Rightarrow> bside \<Rightarrow> 'd order_book \<Rightarrow> ('d order_book \<times> match_event list) option" where
  "fok_handle bd s = (case s of BuySide \<Rightarrow> fok_buy_handle bd | SellSide \<Rightarrow> fok_sell_handle bd)"

definition fok_events :: "'d::linordered_idom bigdec \<Rightarrow> 'd bb_order \<Rightarrow> 'd bb_order list \<Rightarrow> match_event list" where
  "fok_events bd t ms = (if ms \<noteq> [] \<and> remaining t = remaining (hd ms) then [trade_ev bd t (hd ms)] else fok_fills bd t ms)"

lemma fok_handle_body:
  assumes "ob_first bk s = Some t" and "ob_first bk (other s) = Some m"
    and "remove_by_order_no (other s) (trust_order_no m) bk = (b1, Some m)"
    and "remove_by_order_no (other s) (trust_order_no m) (fst (remove_by_order_no s (trust_order_no t) bk)) = (b2, Some m)"
    and "fst (remove_by_order_no s (trust_order_no t) b1) = b2"
  shows "fok_handle bd s bk =
    (if remaining m < remaining t then
       (case fok_loop bd s t t [] [] bk of
          None \<Rightarrow> None
        | Some (bk', Done evs) \<Rightarrow> Some (bk', evs)
        | Some (bk', Fail ev) \<Rightarrow> Some (bk', [ev]))
     else if remaining t = remaining m then Some (b2, [trade_ev bd t m])
     else Some (fst (ob_insert (mpart True bd t m) b2), [trade_ev bd t m]))"
proof -
  note defs = fok_handle_def Let_def fok_loop_def mpart_def trade_ev_def fill_event_def min_def remaining_after
  show ?thesis
  proof (cases s)
    case BuySide
    then show ?thesis using assms by (simp add: fok_buy_handle_def defs cong: option.case_cong)
  next
    case SellSide
    then show ?thesis using assms by (simp add: fok_sell_handle_def defs cong: option.case_cong)
  qed
qed

lemma fok_handle_front:
  assumes t: "side_list bk s = t # ts" and m: "side_list bk (other s) = m # ms"
    and ok: "side_ok s (t # ts)" "side_ok (other s) (m # ms)" and cross: "ccross s t m"
    and cm: "cmatch True bd s t (m # ms) = (evs', r, q)"
  shows "fok_handle bd s bk =
    Some (if r = [] then (set_side s ts (set_side (other s) q bk), fok_events bd t (m # ms))
          else (set_side s ts bk, [revoke_ev bd ''fok_fail'' (hd r)]))"
proof -
  let ?b2 = "set_side s ts (set_side (other s) ms bk)"
  have ty: "from_order_type (order_type t) = Some s" "from_order_type (order_type m) = Some (other s)"
    using ok by (simp_all add: side_ok_Cons order_live_def)
  have rt: "remove_by_order_no s (trust_order_no t) bk = (set_side s ts bk, Some t)" by (rule remove_head [OF ok(1) t])
  have rm: "remove_by_order_no (other s) (trust_order_no m) bk = (set_side (other s) ms bk, Some m)" by (rule remove_head [OF ok(2) m])
  have rmt: "remove_by_order_no (other s) (trust_order_no m) (set_side s ts bk) = (?b2, Some m)"
    using remove_head [OF ok(2), of "set_side s ts bk"] m by (simp add: set_side_commute)
  have rtm: "remove_by_order_no s (trust_order_no t) (set_side (other s) ms bk) = (?b2, Some t)"
    using remove_head [OF ok(1), of "set_side (other s) ms bk"] t by simp
  have im: "fst (ob_insert (mpart True bd t m) ?b2) = set_side s ts (set_side (other s) (mpart True bd t m # ms) bk)"
    using insert_ahead [of "mpart True bd t m" "other s" m ?b2] ty ok(2)
    by (simp add: side_ok_Cons) (metis other_simps(1) set_side_commute set_side_twice)
  have body: "fok_handle bd s bk =
      (if remaining m < remaining t then
         (case fok_loop bd s t t [] [] bk of
            None \<Rightarrow> None | Some (bk', Done evs) \<Rightarrow> Some (bk', evs) | Some (bk', Fail ev) \<Rightarrow> Some (bk', [ev]))
       else if remaining t = remaining m then Some (?b2, [trade_ev bd t m])
       else Some (set_side s ts (set_side (other s) (mpart True bd t m # ms) bk), [trade_ev bd t m]))"
    using fok_handle_body [of bk s t m "set_side (other s) ms bk" ?b2 bd] t m rt rm rmt rtm im
    by (simp add: ob_first_def ob_best_def)
  show ?thesis
  proof (cases "remaining m < remaining t")
    case True
    have "set_side s ts (set_side (other s) (m # ms) bk) = set_side s ts bk" using set_side_same [OF m] by simp
    then show ?thesis
      using body True fok_loop_walk [OF t m ok(1) _ _ _ _ ty(1) cm, of "[]" "[]"] ok(2) cross by (simp add: fok_events_def)
  next
    case False
    then have "r = []" "q = left_maker True bd t m @ ms" using cm cross by simp_all
    then show ?thesis using body False by (simp add: fok_events_def left_maker_def not_less)
  qed
qed

lemma fok_height_loop:
  "height_loop bd s ORDER_FORM_FOK no p bk evs =
     (if side_list bk (other s) = [] then Some (push_revoke bd no s ''fok_fail'' bk evs)
      else if side_list bk s = [] then Some (bk, evs)
      else if \<not> ccross s (hd (side_list bk s)) (hd (side_list bk (other s)))
        then Some (push_revoke bd no s ''fok_fail'' bk evs)
      else (case fok_handle bd s bk of None \<Rightarrow> None | Some (bk', evs') \<Rightarrow> Some (bk', evs @ evs')))"
proof (cases s)
  case BuySide
  then show ?thesis
    using height_buy_loop.simps [of bd ORDER_FORM_FOK no p bk evs]
    by (auto simp: height_loop_def fok_handle_def side_list_def ob_is_empty_def ccross_def ioc_or_fok_reason_def)
next
  case SellSide
  then show ?thesis
    using height_sell_loop.simps [of bd ORDER_FORM_FOK no p bk evs]
    by (auto simp: height_loop_def fok_handle_def side_list_def ob_is_empty_def ccross_def ioc_or_fok_reason_def)
qed

lemma handle_fok_side:
  assumes inv: "ob_inv bk" "ob_uncrossed bk" and t: "order_live s t" "fresh t bk" "order_form t = ORDER_FORM_FOK"
    and cm: "cmatch True bd s t (side_list bk (other s)) = (evs, r, q)"
  shows "handle_height bd s t bk =
    Some (if r = [] then (set_side (other s) q bk, fok_events bd t (side_list bk (other s)))
          else (bk, [revoke_ev bd ''fok_fail'' (hd r)]))"
proof -
  let ?own = "side_list bk s" and ?ms = "side_list bk (other s)"
  have ok: "side_ok s ?own" "side_ok (other s) ?ms" using inv(1) ob_inv_sides [of bk s] by simp_all
  have new: "trust_order_no t \<notin> set (nos ?own)" using t(2) contains_order_no_side [of bk _ s] by simp
  let ?b = "set_side s (place s t ?own) bk"
  note p = place_ok [OF ok(1) t(1) new]
  have ins: "handle_height bd s t bk = height_loop bd s ORDER_FORM_FOK (trust_order_no t) (trust_price t) ?b []"
    using handle_height_inserted [OF insert_place [OF ok(1) t(1) new]] t(3) by simp
  have un: "\<forall>y \<in> set ?own. \<forall>m \<in> set ?ms. \<not> ccross s y m" using inv(2) ob_uncrossed_side [of bk s] by simp
  show ?thesis
  proof (cases "?ms = [] \<or> \<not> ccross s t (hd ?ms)")
    case True
    then have "cmatch True bd s t ?ms = ([], [t], ?ms)" by (cases ?ms) auto
    then have "r = [t]" using cm by simp
    moreover have "push_revoke bd (trust_order_no t) s ''fok_fail'' ?b [] = (bk, [revoke_ev bd ''fok_fail'' t])"
      using push_revoke_member [of s ?b t] p place_drop [of t, OF refl new, of s] by simp
    moreover have "place s t ?own \<noteq> []" using p(2) by force
    moreover have "\<not> ccross s (hd (place s t ?own)) (hd ?ms)" if "?ms \<noteq> []"
      using hd_in_set [OF \<open>place s t ?own \<noteq> []\<close>] p(2) un True that by auto
    ultimately show ?thesis using ins by (simp add: fok_height_loop)
  next
    case False
    then obtain m ms where m: "?ms = m # ms" "ccross s t m" by (cases ?ms) auto
    then have ah: "ahead s t ?own" using cross_ahead [OF inv(2), of m s t] by simp
    have "side_ok s (t # ?own)" using ok(1) ah t(1) new by (simp add: side_ok_Cons)
    then show ?thesis
      using fok_handle_front [of ?b s t ?own m ms bd evs r q] ok(2) m cm ins place_front [OF ah]
      by (simp add: fok_height_loop set_side_commute)
  qed
qed

end
