(* ===== verification/Core_Mkt.thy ===== *)
theory Core_Mkt
  imports Core_Fok
begin

text \<open>
  Market orders on an invariant, uncrossed book.  A market order at the front of its side takes
  at most \<open>gear\<close> makers whatever their price, and what is left of it is revoked.
\<close>

definition market_loop :: "'d::linordered_idom bigdec \<Rightarrow> bside \<Rightarrow> string \<Rightarrow> int \<Rightarrow> int \<Rightarrow> 'd order_book \<Rightarrow>
    match_event list \<Rightarrow> 'd order_book \<times> match_event list" where
  "market_loop bd s = (case s of BuySide \<Rightarrow> market_buy_loop bd | SellSide \<Rightarrow> market_sell_loop bd)"

definition handle_market :: "'d::linordered_idom bigdec \<Rightarrow> bside \<Rightarrow> 'd bb_order \<Rightarrow> 'd order_book \<Rightarrow>
    'd order_book \<times> match_event list" where
  "handle_market bd s = (case s of BuySide \<Rightarrow> handle_market_buy bd | SellSide \<Rightarrow> handle_market_sell bd)"

text \<open>The order as it enters the book.\<close>

definition market_entry :: "bside \<Rightarrow> 'd::linordered_idom bb_order \<Rightarrow> 'd bb_order" where
  "market_entry s t = (case s of BuySide \<Rightarrow> t\<lparr>trust_price := of_int MARKET_BUY_TRUST_PRICE\<rparr> | SellSide \<Rightarrow> t)"

text \<open>A market buy does not trade with a resting market sell.\<close>

abbreviation blocks :: "bside \<Rightarrow> 'd bb_order \<Rightarrow> bool" where
  "blocks s m \<equiv> s = BuySide \<and> order_form m = ORDER_FORM_MARKET_PRICE"

fun mwalk :: "'d::linordered_idom bigdec \<Rightarrow> bside \<Rightarrow> int \<Rightarrow> 'd bb_order \<Rightarrow> 'd bb_order list \<Rightarrow>
    match_event list \<times> ('d bb_order \<times> string) list \<times> 'd bb_order list" where
  "mwalk bd s g t [] = ([], [(t, ''market_empty'')], [])"
| "mwalk bd s g t (m # ms) =
     (if blocks s m then ([], [(t, ''market_blocked'')], m # ms)
      else if remaining m < remaining t then
        if g \<le> 1 then ([trade_ev bd t m], [(tpart bd t m, ''market_gear'')], ms)
        else (case mwalk bd s (g - 1) (tpart bd t m) ms of (evs, r, q) \<Rightarrow> (trade_ev bd t m # evs, r, q))
      else ([trade_ev bd t m], [], left_maker (s = SellSide) bd t m @ ms))"

abbreviation revoked :: "'d::linordered_idom bigdec \<Rightarrow> ('d bb_order \<times> string) list \<Rightarrow> match_event list" where
  "revoked bd r \<equiv> map (\<lambda>(t, reason). revoke_ev bd reason t) r"

lemma market_form [simp]: "ORDER_FORM_MARKET_PRICE \<noteq> ORDER_FORM_FOK" "ORDER_FORM_FOK \<noteq> ORDER_FORM_MARKET_PRICE"
  by (simp_all add: ORDER_FORM_MARKET_PRICE_def ORDER_FORM_FOK_def)

lemma market_loop_guards:
  "side_list bk s = [] \<Longrightarrow> market_loop bd s no gr fc bk evs = (bk, evs)"
  "side_list bk s \<noteq> [] \<Longrightarrow> side_list bk (other s) = [] \<Longrightarrow>
     market_loop bd s no gr fc bk evs = push_revoke bd no s ''market_empty'' bk evs"
  "side_list bk s \<noteq> [] \<Longrightarrow> side_list bk (other s) \<noteq> [] \<Longrightarrow> order_form (hd (side_list bk s)) \<noteq> ORDER_FORM_MARKET_PRICE \<Longrightarrow>
     market_loop bd s no gr fc bk evs = (bk, evs)"
  "side_list bk s \<noteq> [] \<Longrightarrow> side_list bk (other s) \<noteq> [] \<Longrightarrow> order_form (hd (side_list bk s)) = ORDER_FORM_MARKET_PRICE \<Longrightarrow>
     trust_order_no (hd (side_list bk s)) \<noteq> no \<Longrightarrow>
     market_loop bd s no gr fc bk evs = push_revoke bd no s ''market_blocked'' bk evs"
  by (cases s; simp add: market_loop_def market_buy_loop.simps market_sell_loop.simps ob_is_empty_def side_list_def)+

text \<open>With the order gone the loop stops without an event.\<close>

lemma market_loop_gone:
  assumes "side_ok s (side_list bk s)" and "no \<notin> set (nos (side_list bk s))"
  shows "market_loop bd s no gr fc bk evs = (bk, evs)"
proof (cases "side_list bk s = []")
  case False
  then have "trust_order_no (hd (side_list bk s)) \<noteq> no" using assms(2) hd_in_set by fastforce
  then show ?thesis
    using False market_loop_guards(2-4) [of bk s] push_revoke_absent [OF assms, of bd _ evs] by metis
qed (simp add: market_loop_guards)

lemma market_loop_step:
  assumes t: "side_list bk s = t # ts" and m: "side_list bk (other s) = m # ms"
    and ok: "side_ok s (t # ts)" "side_ok (other s) (m # ms)"
    and form: "order_form t = ORDER_FORM_MARKET_PRICE" and gr: "fc < gr" "0 < gr"
  shows "market_loop bd s (trust_order_no t) gr fc bk evs =
    (if blocks s m then push_revoke bd (trust_order_no t) s ''market_blocked'' bk evs
     else
       (let bk1 = set_side s (left_taker bd t m @ ts) (set_side (other s) (left_maker (s = SellSide) bd t m @ ms) bk);
            evs1 = evs @ [trade_ev bd t m]
        in if fc + 1 \<ge> gr then push_revoke bd (trust_order_no t) s ''market_gear'' bk1 evs1
           else market_loop bd s (trust_order_no t) gr (fc + 1) bk1 evs1))"
proof -
  have ty: "from_order_type (order_type t) = Some s" "from_order_type (order_type m) = Some (other s)"
    and ah: "ahead s t ts" "ahead (other s) m ms"
    using ok by (simp_all add: side_ok_Cons order_live_def)
  show ?thesis
  proof (cases s)
    case BuySide
    then show ?thesis using t m gr form rather_than_trade(1) [OF t m ah ty _ refl, of bd]
      by (simp add: market_loop_def market_buy_loop.simps [of bd _ gr fc bk evs] ob_is_empty_def market_buy_handle_def
          ob_first_def ob_best_def market_gear_stop_def Let_def) (simp add: side_list_def)
  next
    case SellSide
    then show ?thesis using t m gr form rather_than_trade(2) [OF t m ah ty _ refl, of bd]
      by (simp add: market_loop_def market_sell_loop.simps [of bd _ gr fc bk evs] ob_is_empty_def market_sell_fill_delta_def
          market_gear_stop_def Let_def) (simp add: side_list_def)
  qed
qed

lemma market_loop_walk:
  assumes "side_list bk s = t # ts" and "side_list bk (other s) = ms"
    and "side_ok s (t # ts)" and "side_ok (other s) ms"
    and "order_form t = ORDER_FORM_MARKET_PRICE" and "fc < gr" "0 < gr"
    and "mwalk bd s (gr - fc) t ms = (evs', r, q)"
  shows "market_loop bd s (trust_order_no t) gr fc bk evs =
    (set_side s ts (set_side (other s) q bk), evs @ evs' @ revoked bd r)"
  using assms
proof (induction ms arbitrary: t bk fc evs evs')
  case Nil
  then show ?case
    using market_loop_guards(2) [of bk s bd] push_revoke_member [of s bk t "trust_order_no t" bd] set_side_same [OF Nil.prems(2)]
    by (auto simp: side_ok_Cons drop_no_absent)
next
  case (Cons m ms)
  note t = Cons.prems(1) and m = Cons.prems(2)
  let ?lm = "left_maker (s = SellSide) bd t m @ ms"
  let ?bk = "set_side s (left_taker bd t m @ ts) (set_side (other s) ?lm bk)" and ?evs = "evs @ [trade_ev bd t m]"
  note step = market_loop_step [OF t m Cons.prems(3-7), of bd evs]
  consider (stop) "blocks s m" | (more) "\<not> blocks s m" "remaining m < remaining t"
    | (filled) "\<not> blocks s m" "\<not> remaining m < remaining t" by blast
  then show ?case
  proof cases
    case stop
    then have "evs' = []" "r = [(t, ''market_blocked'')]" "q = m # ms" using Cons.prems(8) by auto
    moreover have "push_revoke bd (trust_order_no t) s ''market_blocked'' bk evs =
        (set_side s ts bk, evs @ [revoke_ev bd ''market_blocked'' t])"
      using push_revoke_member [of s bk t] t Cons.prems(3) by (simp add: side_ok_Cons drop_no_absent)
    ultimately show ?thesis using step stop set_side_same [OF m] by simp
  next
    case more
    have l: "left_taker bd t m = [tpart bd t m]" "?lm = ms" using more by (simp_all add: left_taker_def left_maker_def)
    have ok1: "side_ok s (tpart bd t m # ts)"
      using side_ok_key [OF Cons.prems(3), of "tpart bd t m"] tpart_live [OF _ more(2), of s bd] Cons.prems(3)
      by (simp add: side_ok_Cons)
    show ?thesis
    proof (cases "gr \<le> fc + 1")
      case True
      have "push_revoke bd (trust_order_no t) s ''market_gear'' ?bk ?evs =
          (set_side s ts (set_side (other s) ms bk), ?evs @ [revoke_ev bd ''market_gear'' (tpart bd t m)])"
        using push_revoke_member [of s ?bk "tpart bd t m"] ok1 l by (simp add: side_ok_Cons drop_no_absent)
      then show ?thesis using step more True Cons.prems(8) by (auto simp: Let_def)
    next
      case False
      obtain evs1 where cm: "mwalk bd s (gr - (fc + 1)) (tpart bd t m) ms = (evs1, r, q)" "evs' = trade_ev bd t m # evs1"
        using Cons.prems(8) more False by (auto simp: algebra_simps split: prod.splits)
      show ?thesis
        using step more False Cons.IH [of ?bk "tpart bd t m" "fc + 1" evs1 ?evs] cm ok1 l Cons.prems
        by (simp add: Let_def set_side_commute side_ok_Cons)
    qed
  next
    case filled
    then have l: "left_taker bd t m = []" by (simp add: left_taker_def)
    have gone: "side_ok s (side_list ?bk s)" "trust_order_no t \<notin> set (nos (side_list ?bk s))"
      using Cons.prems(3) l by (simp_all add: side_ok_Cons)
    have "evs' = [trade_ev bd t m]" "r = []" "q = ?lm" using Cons.prems(8) filled by auto
    then show ?thesis
      using step filled market_loop_gone [OF gone] push_revoke_absent [OF gone] l by (simp add: Let_def)
  qed
qed

section \<open>The handler\<close>

lemma gear_of_pos: "0 < gear_of t"
  by (auto simp: gear_of_def split: option.split)

lemma market_entry_simps [simp]:
  "trust_order_no (market_entry s t) = trust_order_no t" "order_form (market_entry s t) = order_form t"
  "order_type (market_entry s t) = order_type t" "gear_of (market_entry s t) = gear_of t"
  "order_live s' (market_entry s t) = order_live s' t"
  by (cases s; simp add: market_entry_def gear_of_def order_live_def remaining_def)+

text \<open>
  What a market order does: it is revoked at once when there is no maker; it rests, with no
  event, behind an order of its own side that is not a market order; otherwise it walks.
\<close>

definition market_spec :: "'d::linordered_idom bigdec \<Rightarrow> bside \<Rightarrow> 'd bb_order \<Rightarrow> 'd order_book \<Rightarrow>
    'd order_book \<times> match_event list" where
  "market_spec bd s t bk =
     (let t1 = market_entry s t; own = place s t1 (side_list bk s); ms = side_list bk (other s)
      in if ms = [] then (bk, [revoke_ev bd ''market_empty'' t1])
         else if hd own = t1 then
           (case mwalk bd s (gear_of t) t1 ms of (evs, r, q) \<Rightarrow> (set_side (other s) q bk, evs @ revoked bd r))
         else if order_form (hd own) \<noteq> ORDER_FORM_MARKET_PRICE then (set_side s own bk, [])
         else (bk, [revoke_ev bd ''market_blocked'' t1]))"

lemma handle_market_side:
  assumes inv: "ob_inv bk" and t: "order_live s t" "fresh t bk" "order_form t = ORDER_FORM_MARKET_PRICE"
  shows "handle_market bd s t bk = market_spec bd s t bk"
proof -
  let ?t = "market_entry s t" and ?own = "side_list bk s" and ?ms = "side_list bk (other s)"
  have ok: "side_ok s ?own" "side_ok (other s) ?ms" using inv ob_inv_sides [of bk s] by simp_all
  have live: "order_live s ?t" using t(1) by simp
  have new: "trust_order_no ?t \<notin> set (nos ?own)" using t(2) contains_order_no_side [of bk _ s] by simp
  let ?p = "place s ?t ?own"
  let ?b = "set_side s ?p bk"
  note p = place_ok [OF ok(1) live new]
  have ne: "?p \<noteq> []" using p(2) by force
  have ins: "handle_market bd s t bk = market_loop bd s (trust_order_no t) (gear_of t) 0 ?b []"
    using insert_place [OF ok(1) live new]
    by (cases s) (simp_all add: handle_market_def market_loop_def handle_market_buy_def handle_market_sell_def
        market_entry_def gear_of_def)
  have rev: "push_revoke bd (trust_order_no t) s reason ?b [] = (bk, [revoke_ev bd reason ?t])" for reason
    using push_revoke_member [of s ?b ?t "trust_order_no t"] p place_drop [OF refl new, of s] by simp
  consider "?ms = []" | "?ms \<noteq> []" "hd ?p = ?t" | "?ms \<noteq> []" "hd ?p \<noteq> ?t" by blast
  then show ?thesis
  proof cases
    case 1
    then show ?thesis using ins ne rev market_loop_guards(2) [of ?b s] by (simp add: market_spec_def Let_def)
  next
    case 2
    obtain ts where ts: "?p = ?t # ts" using 2(2) ne by (metis list.collapse)
    then have "drop_no (trust_order_no t) (?t # ts) = ?own" using place_drop [OF refl new, of s] by simp
    moreover have "trust_order_no t \<notin> set (nos ts)" using p(1) ts by (simp add: side_ok_Cons)
    ultimately have own: "ts = ?own" by (simp add: drop_no_absent)
    obtain evs r q where w: "mwalk bd s (gear_of t) ?t ?ms = (evs, r, q)" by (cases "mwalk bd s (gear_of t) ?t ?ms")
    show ?thesis
      using market_loop_walk [of ?b s ?t ts ?ms 0 "gear_of t" bd evs r q "[]"] ins ts own ok(2) p(1) t(3) w gear_of_pos [of t] 2
      by (simp add: market_spec_def Let_def set_side_commute)
  next
    case 3
    have "hd ?p \<in> set ?p" using ne by simp
    then have "hd ?p \<in> set ?own" using 3(2) p(2) by simp
    then have "trust_order_no (hd ?p) \<noteq> trust_order_no t" using new by (force simp: image_iff)
    then show ?thesis
      using 3 ins rev ne market_loop_guards(3,4) [of ?b s] by (simp add: market_spec_def Let_def)
  qed
qed

end
