(* ===== verification/Core_Refine.thy ===== *)
theory Core_Refine
  imports Core_Mkt
begin

text \<open>
  The specification of \<open>on_order\<close> for every order form on one book, the proof that the
  dispatcher implements it, and that it keeps the book invariant and the book uncrossed.
\<close>

section \<open>Specification\<close>

definition order_ok :: "'d::linordered_idom bb_order \<Rightarrow> bool" where
  "order_ok t \<longleftrightarrow> 0 < remaining t \<and> remaining_number t = remaining t"

definition revoke_spec :: "'d::linordered_idom bigdec \<Rightarrow> bside \<Rightarrow> string \<Rightarrow> 'd order_book \<Rightarrow> 'd order_book \<times> match_event list" where
  "revoke_spec bd s no bk =
     (set_side s (drop_no no (side_list bk s)) bk,
      map (revoke_ev bd ''user'') (filter (\<lambda>e. trust_order_no e = no) (side_list bk s)))"

definition limit_spec :: "'d::linordered_idom bigdec \<Rightarrow> bside \<Rightarrow> 'd bb_order \<Rightarrow> 'd order_book \<Rightarrow> 'd order_book \<times> match_event list" where
  "limit_spec bd s t bk =
     (case cmatch (s = SellSide) bd s t (side_list bk (other s)) of
        (evs, r, q) \<Rightarrow> (set_side s (rest_in s r (side_list bk s)) (set_side (other s) q bk), evs))"

definition ioc_spec :: "'d::linordered_idom bigdec \<Rightarrow> bside \<Rightarrow> 'd bb_order \<Rightarrow> 'd order_book \<Rightarrow> 'd order_book \<times> match_event list" where
  "ioc_spec bd s t bk =
     (case cmatch (s = SellSide) bd s t (side_list bk (other s)) of
        (evs, r, q) \<Rightarrow> (set_side (other s) q bk, evs @ map (revoke_ev bd ''ioc_remainder'') r))"

definition fok_spec :: "'d::linordered_idom bigdec \<Rightarrow> bside \<Rightarrow> 'd bb_order \<Rightarrow> 'd order_book \<Rightarrow> 'd order_book \<times> match_event list" where
  "fok_spec bd s t bk =
     (case cmatch True bd s t (side_list bk (other s)) of
        (evs, r, q) \<Rightarrow> if r = [] then (set_side (other s) q bk, fok_events bd t (side_list bk (other s)))
                       else (bk, [revoke_ev bd ''fok_fail'' (hd r)]))"

definition post_only_spec :: "'d::linordered_idom bigdec \<Rightarrow> bside \<Rightarrow> 'd bb_order \<Rightarrow> 'd order_book \<Rightarrow> 'd order_book \<times> match_event list" where
  "post_only_spec bd s t bk =
     (if list_ex (ccross s t) (side_list bk (other s)) then (bk, [revoke_ev bd ''post_only'' t])
      else (set_side s (place s t (side_list bk s)) bk, []))"

definition core_spec :: "'d::linordered_idom bigdec \<Rightarrow> 'd bb_order \<Rightarrow> 'd order_book \<Rightarrow> 'd order_book \<times> match_event list" where
  "core_spec bd t bk =
     (case from_order_type (order_type t) of
        None \<Rightarrow> (bk, [])
      | Some s \<Rightarrow>
          if is_revoke t then revoke_spec bd s (trust_order_no t) bk
          else if contains_order_no bk (trust_order_no t) then (bk, [])
          else if order_form t = ORDER_FORM_POST_ONLY then post_only_spec bd s t bk
          else if order_form t = ORDER_FORM_IOC then ioc_spec bd s t bk
          else if order_form t = ORDER_FORM_FOK then fok_spec bd s t bk
          else if order_form t = ORDER_FORM_MARKET_PRICE then market_spec bd s t bk
          else limit_spec bd s t bk)"

section \<open>The dispatcher implements it\<close>

lemma dispatch_by_side:
  assumes "from_order_type (order_type t) = Some s" and "\<not> is_revoke t" and "fresh t bk"
  shows "dispatch bd t bk =
    (if is_height_order_form (order_form t) then handle_height bd s t bk
     else if order_form t = ORDER_FORM_MARKET_PRICE then Some (handle_market bd s t bk)
     else Some (with_inserted t (\<lambda>b. limit_loop bd s b []) bk))"
  using assms
  by (cases s) (simp_all add: dispatch_def handle_height_def handle_market_def limit_loop_def handle_limit_buy_def handle_limit_sell_def)

lemma first_crosses:
  assumes "makers_ok (other s) ms"
  shows "ms \<noteq> [] \<and> ccross s t (hd ms) \<longleftrightarrow> list_ex (ccross s t) ms"
  using no_cross_rest [of s "hd ms" "tl ms" t] assms by (cases ms) (auto simp: list_ex_iff)

lemma revoke_order_spec:
  assumes "ob_inv bk" and "from_order_type (order_type t) = Some s"
  shows "(case revoke_order bd t bk of (bk', ev) \<Rightarrow> (bk', push_opt [] ev)) = revoke_spec bd s (trust_order_no t) bk"
proof -
  have ok: "side_ok s (side_list bk s)" using assms(1) ob_inv_sides [of bk s] by simp
  have "push_opt [] (map_option f (find (\<lambda>e. trust_order_no e = no) xs)) = map f (filter (\<lambda>e. trust_order_no e = no) xs)"
    if "distinct (nos xs)" for f :: "'a bb_order \<Rightarrow> match_event" and no xs
    using that by (induction xs) (auto simp: push_opt_def filter_empty_conv image_iff)
  then show ?thesis
    using revoke_with_reason_side [of s bk t bd "''user''"] assms(2) ok
    by (simp add: revoke_order_def revoke_spec_def side_ok_def in_order_def)
qed

lemma height_forms:
  "is_height_order_form f \<longleftrightarrow> f = ORDER_FORM_POST_ONLY \<or> f = ORDER_FORM_IOC \<or> f = ORDER_FORM_FOK"
  by (simp add: is_height_order_form_def)

lemma dispatch_core_spec:
  assumes inv: "ob_inv bk" "ob_uncrossed bk" and ok: "is_revoke t \<or> order_ok t"
  shows "dispatch bd t bk = Some (core_spec bd t bk)"
proof (cases "from_order_type (order_type t)")
  case None
  then show ?thesis
    by (simp add: dispatch_def core_spec_def revoke_order_def revoke_order_with_reason_def push_opt_def rest_only_def ob_insert_def)
next
  case (Some s)
  consider (revoke) "is_revoke t" | (dup) "\<not> is_revoke t" "\<not> fresh t bk" | (new) "\<not> is_revoke t" "fresh t bk" by blast
  then show ?thesis
  proof cases
    case revoke
    then show ?thesis using Some revoke_order_spec [OF inv(1) Some, of bd] by (simp add: dispatch_def core_spec_def split: prod.splits)
  next
    case dup
    then show ?thesis using Some by (simp add: dispatch_def core_spec_def)
  next
    case new
    have live: "order_live s t" using ok new(1) Some by (simp add: order_ok_def order_live_def)
    have mk: "makers_ok (other s) (side_list bk (other s))"
      by (rule side_ok_makers) (use inv(1) ob_inv_sides [of bk s] in simp)
    obtain evs r q where cm: "cmatch (s = SellSide) bd s t (side_list bk (other s)) = (evs, r, q)"
      by (cases "cmatch (s = SellSide) bd s t (side_list bk (other s))")
    obtain evs2 r2 q2 where cm2: "cmatch True bd s t (side_list bk (other s)) = (evs2, r2, q2)"
      by (cases "cmatch True bd s t (side_list bk (other s))")
    note handlers = handle_post_only_side [OF inv(1) live new(2), of bd] handle_ioc_side [OF inv live new(2) _ cm]
      handle_fok_side [OF inv live new(2) _ cm2] handle_market_side [OF inv(1) live new(2), of bd]
      handle_limit_side [OF inv live new(2) _ cm]
    show ?thesis
      using new Some cm cm2 first_crosses [OF mk, of t] handlers
      by (simp add: dispatch_by_side [OF Some new] core_spec_def post_only_spec_def ioc_spec_def fok_spec_def limit_spec_def height_forms)
  qed
qed

section \<open>Invariants\<close>

abbreviation book_ok :: "'d::linordered_idom order_book \<Rightarrow> bool" where
  "book_ok bk \<equiv> ob_inv bk \<and> ob_uncrossed bk"

lemma book_ok_shrink:
  assumes "book_ok bk" and "side_ok s xs" and "set (nos xs) \<subseteq> set (nos (side_list bk s))"
    and "trust_price ` set xs \<subseteq> trust_price ` set (side_list bk s)"
  shows "book_ok (set_side s xs bk)"
proof
  show "ob_inv (set_side s xs bk)"
    using assms(1-3) ob_inv_sides [of bk s] by (auto simp: ob_inv_sides [of _ s])
  have "\<not> ccross s x y" if x: "x \<in> set xs" and y: "y \<in> set (side_list bk (other s))" for x y
  proof -
    obtain z where "z \<in> set (side_list bk s)" "trust_price z = trust_price x" using x assms(4) by force
    then show ?thesis using y assms(1) ccross_cong [of z x y y s] by (simp add: ob_uncrossed_side [of _ s])
  qed
  then show "ob_uncrossed (set_side s xs bk)" by (simp add: ob_uncrossed_side [of _ s])
qed

lemma book_ok_place:
  assumes "book_ok bk" and "order_live s t" and "fresh t bk" and "\<forall>m \<in> set (side_list bk (other s)). \<not> ccross s t m"
  shows "book_ok (set_side s (place s t (side_list bk s)) bk)"
proof -
  have ok: "side_ok s (side_list bk s)" using assms(1) ob_inv_sides [of bk s] by simp
  have new: "trust_order_no t \<notin> set (nos (side_list bk s))" "trust_order_no t \<notin> set (nos (side_list bk (other s)))"
    using assms(3) contains_order_no_side [of bk _ s] by simp_all
  note p = place_ok [OF ok assms(2) new(1)]
  then show ?thesis
    using assms(1,4) new(2) ob_inv_sides [of bk s] ob_uncrossed_side [of bk s]
    by (auto simp: ob_inv_sides [of _ s] ob_uncrossed_side [of _ s])
qed

lemma book_ok_cmatch:
  assumes "book_ok bk" and "cmatch avg bd s t (side_list bk (other s)) = (evs, r, q)"
  shows "book_ok (set_side (other s) q bk)"
  by (rule book_ok_shrink [OF assms(1) cmatch_makers [OF _ assms(2)]])
     (use assms(1) ob_inv_sides [of bk s] in simp_all)

lemma limit_spec_ok:
  assumes bk: "book_ok bk" and t: "order_live s t" "fresh t bk"
  shows "book_ok (fst (limit_spec bd s t bk))"
proof -
  let ?ms = "side_list bk (other s)"
  obtain evs r q where cm: "cmatch (s = SellSide) bd s t ?ms = (evs, r, q)" by (cases "cmatch (s = SellSide) bd s t ?ms")
  have ok: "side_ok (other s) ?ms" using bk ob_inv_sides [of bk s] by simp
  let ?b = "set_side (other s) q bk"
  have b: "book_ok ?b" by (rule book_ok_cmatch [OF bk cm])
  from cmatch_taker [OF side_ok_makers [OF ok] t(1) cm] show ?thesis
  proof
    assume "r = []"
    then show ?thesis using b cm by (simp add: limit_spec_def) (metis other_simps(1) set_side_commute set_side_id)
  next
    assume "\<exists>t'. r = [t'] \<and> same_key t' t \<and> symbol_key t' = symbol_key t \<and> order_live s t' \<and> (\<forall>m \<in> set q. \<not> ccross s t' m)"
    then obtain t' where t': "r = [t']" "same_key t' t" "order_live s t'" "\<forall>m \<in> set q. \<not> ccross s t' m" by blast
    have "fresh t' ?b"
      using t(2) t'(2) cmatch_makers(2) [OF ok cm] by (auto simp: contains_order_no_side [of _ _ s])
    then show ?thesis using book_ok_place [OF b t'(3)] t' cm by (simp add: limit_spec_def)
  qed
qed

lemma mwalk_makers:
  assumes "side_ok (other s) ms" and "mwalk bd s g t ms = (evs, r, q)"
  shows "side_ok (other s) q" and "set (nos q) \<subseteq> set (nos ms)" and "trust_price ` set q \<subseteq> trust_price ` set ms"
proof -
  have "side_ok (other s) q \<and> set (nos q) \<subseteq> set (nos ms) \<and> trust_price ` set q \<subseteq> trust_price ` set ms"
    using assms
  proof (induction ms arbitrary: g t evs)
    case (Cons m ms)
    note lm = left_maker_ok [OF Cons.prems(1), of "s = SellSide" bd t]
    have p: "trust_price ` set (left_maker (s = SellSide) bd t m @ ms) \<subseteq> trust_price ` set (m # ms)"
      by (auto simp: left_maker_def)
    have ms: "side_ok (other s) ms" using Cons.prems(1) by (simp add: side_ok_Cons)
    consider "blocks s m" | "\<not> blocks s m" "remaining m < remaining t" "g \<le> 1"
      | (more) "\<not> blocks s m" "remaining m < remaining t" "\<not> g \<le> 1" | (filled) "\<not> blocks s m" "\<not> remaining m < remaining t"
      by blast
    then show ?case
    proof cases
      case more
      then obtain evs1 where "mwalk bd s (g - 1) (tpart bd t m) ms = (evs1, r, q)"
        using Cons.prems(2) by (auto split: prod.splits)
      from Cons.IH [OF ms this] show ?thesis by auto
    next
      case filled
      then have "q = left_maker (s = SellSide) bd t m @ ms" using Cons.prems(2) by (simp split: if_splits)
      then show ?thesis using lm p by simp
    qed (use Cons.prems ms in auto)
  qed simp
  then show "side_ok (other s) q" "set (nos q) \<subseteq> set (nos ms)" "trust_price ` set q \<subseteq> trust_price ` set ms"
    by blast+
qed

lemma worse_no_cross:
  assumes "cmp_of s x t = Less" and "\<not> ccross s x m"
  shows "\<not> ccross s t m"
  using assms by (cases s) (auto simp: ccross_def cmp_of_def compare_buy_Less compare_sell_Less)

lemma market_spec_ok:
  assumes bk: "book_ok bk" and t: "order_live s t" "fresh t bk"
  shows "book_ok (fst (market_spec bd s t bk))"
proof -
  let ?t = "market_entry s t" and ?own = "side_list bk s" and ?ms = "side_list bk (other s)"
  have ok: "side_ok s ?own" "side_ok (other s) ?ms" using bk ob_inv_sides [of bk s] by simp_all
  have live: "order_live s ?t" "fresh ?t bk" using t by simp_all
  have new: "trust_order_no ?t \<notin> set (nos ?own)" using t(2) contains_order_no_side [of bk _ s] by simp
  note p = place_ok [OF ok(1) live(1) new]
  have walk: "book_ok (set_side (other s) q bk)" if "mwalk bd s g ?t ?ms = (evs, r, q)" for g evs r q
    by (rule book_ok_shrink [OF bk mwalk_makers [OF ok(2) that]])
  have rests: "book_ok (set_side s (place s ?t ?own) bk)" if "hd (place s ?t ?own) \<noteq> ?t"
  proof (rule book_ok_place [OF bk live], rule)
    fix m assume m: "m \<in> set ?ms"
    obtain x xs where x: "place s ?t ?own = x # xs" using p(2) by (cases "place s ?t ?own") auto
    then have "x \<in> set ?own" "cmp_of s x ?t = Less" using that p by (auto simp: side_ok_Cons)
    then show "\<not> ccross s ?t m" using worse_no_cross [of s x ?t m] m bk ob_uncrossed_side [of bk s] by simp
  qed
  show ?thesis using bk walk rests by (auto simp: market_spec_def Let_def split: prod.splits)
qed

lemma core_spec_ok:
  assumes "book_ok bk" and "is_revoke t \<or> order_ok t"
  shows "book_ok (fst (core_spec bd t bk))"
proof (cases "from_order_type (order_type t)")
  case (Some s)
  have drop: "book_ok (set_side s (drop_no no (side_list bk s)) bk)" for no
    by (rule book_ok_shrink [OF assms(1)])
       (use assms(1) ob_inv_sides [of bk s] in \<open>auto simp: set_drop_no intro: side_ok_drop\<close>)
  have live: "order_live s t" if "\<not> is_revoke t" using assms(2) that Some by (simp add: order_ok_def order_live_def)
  show ?thesis
    using assms(1) Some drop live limit_spec_ok [OF assms(1)] market_spec_ok [OF assms(1)] book_ok_cmatch [OF assms(1)]
      book_ok_place [OF assms(1)]
    by (auto simp: core_spec_def revoke_spec_def post_only_spec_def ioc_spec_def fok_spec_def list_ex_iff split: prod.splits)
qed (use assms in \<open>simp add: core_spec_def\<close>)

end
