(* ===== verification/Core_Props.thy ===== *)
theory Core_Props
  imports Core_Refine
begin

text \<open>
  Properties of the decimal engine over all runs: every order returns, refines the
  specification of its form, keeps every book sorted and uncrossed, conserves quantity and
  respects price-time priority; and two behaviours that differ from what the code means.
\<close>

section \<open>Runs\<close>

abbreviation accepted :: "'d::linordered_idom bb_order \<Rightarrow> bool" where
  "accepted t \<equiv> is_revoke t \<or> order_ok t"

inductive core_reach :: "'d::linordered_idom bigdec \<Rightarrow> 'd core_engine \<Rightarrow> bool" for bd where
  core_reach_new: "core_reach bd core_engine_new"
| core_reach_step: "core_reach bd e \<Longrightarrow> accepted t \<Longrightarrow> core_on_order bd t e = Some (e', evs) \<Longrightarrow> core_reach bd e'"

fun core_run :: "'d::linordered_idom bigdec \<Rightarrow> 'd bb_order list \<Rightarrow> 'd core_engine \<Rightarrow> 'd core_engine option" where
  "core_run bd [] e = Some e"
| "core_run bd (t # ts) e = (case core_on_order bd t e of None \<Rightarrow> None | Some (e', evs) \<Rightarrow> core_run bd ts e')"

definition open_qty :: "'d::linordered_idom bb_order list \<Rightarrow> 'd" where
  "open_qty xs = sum_list (map remaining xs)"

text \<open>A new order of form \<open>f\<close> and side \<open>s\<close> arrives in a reachable state; the queue of a side.\<close>

definition arrives :: "'d::linordered_idom bigdec \<Rightarrow> 'd core_engine \<Rightarrow> 'd bb_order \<Rightarrow> bside \<Rightarrow> int \<Rightarrow> bool" where
  "arrives bd e t s f \<longleftrightarrow> core_reach bd e \<and> order_ok t \<and> \<not> is_revoke t \<and> from_order_type (order_type t) = Some s \<and>
     \<not> contains_order_no (book_of e (symbol_key t)) (trust_order_no t) \<and> order_form t = f"

abbreviation queue_of :: "'d core_engine \<Rightarrow> 'd bb_order \<Rightarrow> bside \<Rightarrow> 'd bb_order list" where
  "queue_of e t s \<equiv> side_list (book_of e (symbol_key t)) s"

definition demo_dec :: "int bigdec" where
  "demo_dec = \<lparr>bd_div = (div), bd_scale_16_half_down = id, bd_normalized = id,
               bd_to_string = (\<lambda>d. replicate (nat d) CHR ''1'')\<rparr>"

definition demo_orders :: "int bb_order list" where
  "demo_orders = [test_limit SellSide 100 ''s1'' 1 5, test_limit SellSide 101 ''s2'' 2 5,
     test_limit SellSide 101 ''s3'' 3 4, test_limit BuySide 98 ''b1'' 4 6, test_limit BuySide 97 ''b2'' 5 2]"

definition demo_engine :: "int core_engine" where
  "demo_engine = (case core_run demo_dec demo_orders core_engine_new of Some e \<Rightarrow> e | None \<Rightarrow> core_engine_new)"

abbreviation demo_book :: "int order_book" where
  "demo_book \<equiv> book_of demo_engine ''btcusdt''"

lemma book_of_step:
  assumes "core_on_order bd t e = Some (e', evs)" and "dispatch bd t (book_of e (symbol_key t)) = Some (bk', evs')"
  shows "book_of e' sy = (if sy = symbol_key t then bk' else book_of e sy)"
  using assms by (auto simp: core_on_order_def book_of_def)

lemma core_reach_book: "core_reach bd e \<Longrightarrow> book_ok (book_of e sy)"
proof (induction arbitrary: sy rule: core_reach.induct)
  case core_reach_new
  show ?case
    by (simp add: book_of_def core_engine_new_def ob_new_def ob_inv_def ob_uncrossed_def in_order_def side_list_def split: bside.split)
next
  case (core_reach_step e t e' evs)
  note d = dispatch_core_spec [OF _ _ core_reach_step.hyps(2), of "book_of e (symbol_key t)" bd]
  show ?case
    using book_of_step [OF core_reach_step.hyps(3), of "fst (core_spec bd t (book_of e (symbol_key t)))" _ sy]
      core_spec_ok [OF core_reach_step.IH core_reach_step.hyps(2)] core_reach_step.IH d by (auto simp: prod_eq_iff)
qed

lemma core_on_order_spec:
  assumes "core_reach bd e" and "accepted t"
  shows "core_on_order bd t e =
    Some (e\<lparr>books := (books e)(symbol_key t \<mapsto> fst (core_spec bd t (book_of e (symbol_key t))))\<rparr>,
          snd (core_spec bd t (book_of e (symbol_key t))))"
  using dispatch_core_spec [of "book_of e (symbol_key t)" t bd] core_reach_book [OF assms(1), of "symbol_key t"] assms(2)
  by (simp add: core_on_order_def split: prod.split)

lemma core_on_order_book:
  assumes "core_reach bd e" and "accepted t" and "core_on_order bd t e = Some (e', evs)"
  shows "(book_of e' (symbol_key t), evs) = core_spec bd t (book_of e (symbol_key t))"
  using core_on_order_spec [OF assms(1,2)] assms(3) by (auto simp: book_of_def prod_eq_iff)

lemma core_run_reach:
  "core_reach bd e \<Longrightarrow> list_all accepted ts \<Longrightarrow> \<exists>e'. core_run bd ts e = Some e' \<and> core_reach bd e'"
proof (induction ts arbitrary: e)
  case (Cons t ts)
  then obtain e' evs where s: "core_on_order bd t e = Some (e', evs)" using core_on_order_spec [of bd e t] by auto
  then have "core_reach bd e'" using Cons.prems core_reach_step [of bd e t e' evs] by simp
  then show ?case using Cons.IH [of e'] Cons.prems s by simp
qed simp

lemma reach_demo_engine: "core_reach demo_dec demo_engine"
proof -
  have "list_all accepted demo_orders" by (simp add: demo_orders_def order_ok_def test_limit_def remaining_def is_revoke_def)
  from core_run_reach [OF core_reach_new this, of demo_dec] show ?thesis by (auto simp: demo_engine_def)
qed

lemmas form_defs = ORDER_FORM_LIMIT_def ORDER_FORM_MARKET_PRICE_def ORDER_FORM_POST_ONLY_def ORDER_FORM_IOC_def ORDER_FORM_FOK_def

section \<open>Quantities\<close>

lemma open_qty_simps [simp]:
  "open_qty [] = 0" "open_qty (x # xs) = remaining x + open_qty xs" "open_qty (xs @ ys) = open_qty xs + open_qty ys"
  by (simp_all add: open_qty_def)

lemma open_place:
  assumes "side_ok s xs" and "order_live s t" and "trust_order_no t \<notin> set (nos xs)"
  shows "open_qty (place s t xs) = remaining t + open_qty xs"
proof -
  have "snd (bts_insert c t xs) \<Longrightarrow> open_qty (fst (bts_insert c t xs)) = remaining t + open_qty xs" for c
    by (induction xs) (auto split: ordering.splits prod.splits)
  then show ?thesis using side_order.insert_fresh(1) [of s xs t] assms by (simp add: place_def side_ok_def)
qed

lemma cmatch_conserves:
  "cmatch avg bd s t ms = (evs, r, q) \<Longrightarrow> remaining t + open_qty q = open_qty r + open_qty ms"
proof (induction ms arbitrary: t evs)
  case (Cons m ms)
  show ?case
  proof (cases "ccross s t m \<and> remaining m < remaining t")
    case True
    then obtain evs1 where "cmatch avg bd s (tpart bd t m) ms = (evs1, r, q)"
      using Cons.prems by (auto split: prod.splits)
    from Cons.IH [OF this] show ?thesis by (simp add: algebra_simps)
  next
    case False
    then show ?thesis using Cons.prems by (auto simp: left_maker_def split: if_splits)
  qed
qed auto

text \<open>
  The makers hit are the first ones of the side; all of them are consumed but the last, which
  may stay with the rest of its quantity when the taker is filled.
\<close>

abbreviation hit_prefix :: "'d::linordered_idom bigdec \<Rightarrow> 'd bb_order \<Rightarrow> 'd bb_order list \<Rightarrow> nat \<Rightarrow> match_event list \<Rightarrow> bool" where
  "hit_prefix bd t ms n evs \<equiv> n \<le> length ms \<and>
     map (\<lambda>e. (e_taker_order_no e, e_maker_order_no e, e_price e)) evs =
     map (\<lambda>m. (trust_order_no t, trust_order_no m, dec_str bd (trust_price m))) (take n ms)"

lemma trade_ev_sel [simp]:
  "e_taker_order_no (trade_ev bd t m) = trust_order_no t" "e_maker_order_no (trade_ev bd t m) = trust_order_no m"
  "e_price (trade_ev bd t m) = dec_str bd (trust_price m)"
  by (simp_all add: trade_ev_def fill_event_def)

lemma cmatch_prefix:
  assumes "cmatch avg bd s t ms = (evs, r, q)"
  shows "\<exists>n. hit_prefix bd t ms n evs \<and> (\<forall>m \<in> set (take n ms). ccross s t m) \<and>
    (q = drop n ms \<or> (\<exists>m'. q = m' # drop n ms \<and> 0 < n \<and> same_key m' (ms ! (n - 1)) \<and> r = []))"
  using assms
proof (induction ms arbitrary: t evs)
  case (Cons m ms)
  consider "\<not> ccross s t m" | (more) "ccross s t m" "remaining m < remaining t" | (filled) "ccross s t m" "\<not> remaining m < remaining t"
    by blast
  then show ?case
  proof cases
    case 1
    then show ?thesis using Cons.prems by (intro exI [of _ 0]) auto
  next
    case more
    then obtain evs1 where cm: "cmatch avg bd s (tpart bd t m) ms = (evs1, r, q)" "evs = trade_ev bd t m # evs1"
      using Cons.prems by (auto split: prod.splits)
    obtain n where n: "hit_prefix bd (tpart bd t m) ms n evs1" "\<forall>m' \<in> set (take n ms). ccross s (tpart bd t m) m'"
      "q = drop n ms \<or> (\<exists>m'. q = m' # drop n ms \<and> 0 < n \<and> same_key m' (ms ! (n - 1)) \<and> r = [])"
      using Cons.IH [OF cm(1)] by blast
    moreover have "ccross s (tpart bd t m) m' = ccross s t m'" for m' by (rule ccross_cong) simp_all
    ultimately show ?thesis using cm(2) more(1) by (intro exI [of _ "Suc n"]) (auto simp: nth_Cons')
  next
    case filled
    then have e: "evs = [trade_ev bd t m]" "r = []" "q = left_maker avg bd t m @ ms" using Cons.prems by simp_all
    show ?thesis using e filled by (intro exI [of _ 1]) (simp add: left_maker_def)
  qed
qed simp

lemma cmatch_fills_iff:
  assumes "side_ok (other s) ms" and "0 < remaining t" and "cmatch avg bd s t ms = (evs, r, q)"
  shows "r = [] \<longleftrightarrow> remaining t \<le> open_qty (filter (ccross s t) ms)"
  using assms
proof (induction ms arbitrary: t evs)
  case (Cons m ms)
  have mk: "makers_ok (other s) (m # ms)" by (rule side_ok_makers [OF Cons.prems(1)])
  have pos: "0 \<le> open_qty (filter P ms)" for P
    unfolding open_qty_def
    by (rule sum_list_nonneg) (use Cons.prems(1) in \<open>auto simp: side_ok_def order_live_def less_imp_le\<close>)
  consider (stop) "\<not> ccross s t m" | (more) "ccross s t m" "remaining m < remaining t" | (filled) "ccross s t m" "\<not> remaining m < remaining t"
    by blast
  then show ?case
  proof cases
    case stop
    then have "filter (ccross s t) (m # ms) = []" using no_cross_rest [OF mk stop] by (simp add: filter_empty_conv)
    then show ?thesis using Cons.prems(2,3) stop by auto
  next
    case more
    then obtain evs1 where cm: "cmatch avg bd s (tpart bd t m) ms = (evs1, r, q)"
      using Cons.prems by (auto split: prod.splits)
    have "ccross s (tpart bd t m) = ccross s t" by (intro ext ccross_cong) simp_all
    then show ?thesis using Cons.IH [OF _ _ cm] Cons.prems(1) more by (simp add: side_ok_Cons algebra_simps)
  next
    case filled
    then show ?thesis using Cons.prems(3) pos [of "ccross s t"] by (simp add: add_increasing2)
  qed
qed auto

lemma cmatch_left:
  assumes "makers_ok (other s) ms" and "cmatch avg bd s t ms = (evs, [t'], q)"
  shows "remaining t' = remaining t - open_qty (filter (ccross s t) ms) \<and> trust_order_no t' = trust_order_no t \<and>
    symbol_key t' = symbol_key t"
  using assms
proof (induction ms arbitrary: t evs)
  case (Cons m ms)
  show ?case
  proof (cases "ccross s t m")
    case False
    then have "filter (ccross s t) (m # ms) = []" using no_cross_rest [OF Cons.prems(1) False] by (simp add: filter_empty_conv)
    then show ?thesis using Cons.prems(2) False by auto
  next
    case True
    then obtain evs1 where cm: "cmatch avg bd s (tpart bd t m) ms = (evs1, [t'], q)"
      using Cons.prems(2) by (auto split: prod.splits if_splits)
    have "ccross s (tpart bd t m) = ccross s t" by (intro ext ccross_cong) simp_all
    then show ?thesis using Cons.IH [OF _ cm] Cons.prems(1) True by (simp add: algebra_simps)
  qed
qed auto

lemma mwalk_bounded:
  "mwalk bd s g t ms = (evs, r, q) \<Longrightarrow> 0 < g \<Longrightarrow> int (length evs) \<le> g \<and> length r \<le> 1 \<and>
     (\<forall>(x, reason) \<in> set r. trust_order_no x = trust_order_no t)"
proof (induction ms arbitrary: g t evs)
  case (Cons m ms)
  show ?case
  proof (cases "\<not> blocks s m \<and> remaining m < remaining t \<and> \<not> g \<le> 1")
    case True
    then obtain evs1 where "mwalk bd s (g - 1) (tpart bd t m) ms = (evs1, r, q)" "evs = trade_ev bd t m # evs1"
      using Cons.prems(1) by (auto split: prod.splits)
    then show ?thesis using Cons.IH [of "g - 1" "tpart bd t m" evs1] True by simp
  next
    case False
    then show ?thesis using Cons.prems by (auto split: if_splits)
  qed
qed auto

lemma arrives_book:
  assumes "arrives bd e t s f" and "core_on_order bd t e = Some (e', evs)"
  shows "(book_of e' (symbol_key t), evs) = core_spec bd t (book_of e (symbol_key t))"
    and "order_live s t" and "side_ok s (queue_of e t s)" and "side_ok (other s) (queue_of e t (other s))"
    and "trust_order_no t \<notin> set (nos (queue_of e t s))" and "trust_order_no t \<notin> set (nos (queue_of e t (other s)))"
    and "core_spec bd t (book_of e (symbol_key t)) =
      (if f = ORDER_FORM_POST_ONLY then post_only_spec bd s t (book_of e (symbol_key t))
       else if f = ORDER_FORM_IOC then ioc_spec bd s t (book_of e (symbol_key t))
       else if f = ORDER_FORM_FOK then fok_spec bd s t (book_of e (symbol_key t))
       else if f = ORDER_FORM_MARKET_PRICE then market_spec bd s t (book_of e (symbol_key t))
       else limit_spec bd s t (book_of e (symbol_key t)))"
proof -
  have a: "core_reach bd e" "accepted t" using assms(1) by (simp_all add: arrives_def)
  note i = core_reach_book [OF a(1), of "symbol_key t"]
  show "(book_of e' (symbol_key t), evs) = core_spec bd t (book_of e (symbol_key t))" by (rule core_on_order_book [OF a assms(2)])
  show "order_live s t" using assms(1) by (simp add: arrives_def order_live_def order_ok_def)
  show "side_ok s (queue_of e t s)" "side_ok (other s) (queue_of e t (other s))" using i ob_inv_sides [of _ s] by blast+
  show "trust_order_no t \<notin> set (nos (queue_of e t s))" "trust_order_no t \<notin> set (nos (queue_of e t (other s)))"
    using assms(1) contains_order_no_side [of "book_of e (symbol_key t)" _ s] by (simp_all add: arrives_def)
qed (use assms(1) in \<open>simp add: arrives_def core_spec_def\<close>)

lemma open_rest_in:
  assumes "side_ok s xs" and "makers_ok (other s) ms" "order_live s t" "trust_order_no t \<notin> set (nos xs)"
    and "cmatch avg bd s t ms = (evs, r, q)"
  shows "open_qty (rest_in s r xs) = open_qty r + open_qty xs"
  using cmatch_taker [OF assms(2,3,5)] open_place [OF assms(1)] assms(4) by auto

lemma arrives_returns:
  assumes "arrives bd e t s f"
  shows "\<exists>e' evs. core_on_order bd t e = Some (e', evs)"
  using core_on_order_spec [of bd e t] assms by (auto simp: arrives_def)

section \<open>The properties\<close>

text \<open>
  C1. Every accepted order returns (in particular the fill-or-kill walks end), and does to
  the book of its symbol exactly what the specification of its form does, events included;
  the books of other symbols are untouched.
\<close>
theorem core_refines:
  assumes "core_reach bd e" and "accepted t"
  shows "\<exists>e'. core_on_order bd t e = Some (e', snd (core_spec bd t (book_of e (symbol_key t)))) \<and>
    book_of e' (symbol_key t) = fst (core_spec bd t (book_of e (symbol_key t))) \<and>
    (\<forall>sy. sy \<noteq> symbol_key t \<longrightarrow> book_of e' sy = book_of e sy)"
  using core_on_order_spec [OF assms] by (simp add: book_of_def)

theorem core_refines_witness:
  "\<exists>e'. core_on_order demo_dec (test_fok BuySide 101 ''f1'' 9 7) demo_engine =
      Some (e', snd (core_spec demo_dec (test_fok BuySide 101 ''f1'' 9 7) demo_book)) \<and>
    book_of e' ''btcusdt'' = fst (core_spec demo_dec (test_fok BuySide 101 ''f1'' 9 7) demo_book) \<and>
    (\<forall>sy. sy \<noteq> ''btcusdt'' \<longrightarrow> book_of e' sy = book_of demo_engine sy)"
  using core_refines [OF reach_demo_engine, of "test_fok BuySide 101 ''f1'' 9 7"]
  by (simp add: test_fok_def test_limit_def order_ok_def remaining_def)

text \<open>C4. No book is ever crossed: every resting buy is priced below every resting sell of its symbol.\<close>
theorem core_never_crossed:
  assumes "core_reach bd e" and "b \<in> set (core_resting_orders e sy BuySide)" and "a \<in> set (core_resting_orders e sy SellSide)"
  shows "trust_price b < trust_price a"
  using assms core_reach_book [OF assms(1), of sy]
  by (auto simp: core_resting_orders_def resting_orders_def book_of_def ob_uncrossed_def side_list_def split: option.splits)

theorem core_never_crossed_witness:
  "trust_price (hd (core_resting_orders demo_engine ''btcusdt'' BuySide)) <
   trust_price (hd (core_resting_orders demo_engine ''btcusdt'' SellSide))"
proof (rule core_never_crossed [OF reach_demo_engine])
  show "hd (core_resting_orders demo_engine ''btcusdt'' BuySide) \<in> set (core_resting_orders demo_engine ''btcusdt'' BuySide)"
    by (rule hd_in_set) code_simp
  show "hd (core_resting_orders demo_engine ''btcusdt'' SellSide) \<in> set (core_resting_orders demo_engine ''btcusdt'' SellSide)"
    by (rule hd_in_set) code_simp
qed

text \<open>
  C14. Price-time priority: the fills of a limit order name, in order, the first makers of the
  opposite queue, each at the maker's price and each within the limit; these makers leave the
  book, but for the last one, which may stay in its place.
\<close>
theorem core_limit_priority:
  assumes "arrives bd e t s ORDER_FORM_LIMIT" and "core_on_order bd t e = Some (e', evs)"
  shows "\<exists>n. hit_prefix bd t (queue_of e t (other s)) n evs \<and>
    (\<forall>m \<in> set (take n (queue_of e t (other s))). ccross s t m) \<and>
    (queue_of e' t (other s) = drop n (queue_of e t (other s)) \<or>
     (\<exists>m'. queue_of e' t (other s) = m' # drop n (queue_of e t (other s)) \<and> 0 < n \<and>
       same_key m' (queue_of e t (other s) ! (n - 1))))"
proof -
  note b = arrives_book [OF assms]
  obtain r q where cm: "cmatch (s = SellSide) bd s t (queue_of e t (other s)) = (evs, r, q)" "queue_of e' t (other s) = q"
    using b(1,7) by (auto simp: limit_spec_def form_defs split: prod.splits)
  show ?thesis using cmatch_prefix [OF cm(1)] cm(2) by blast
qed

theorem core_limit_priority_witness:
  "\<exists>e' evs n. core_on_order demo_dec (test_limit BuySide 101 ''x'' 9 7) demo_engine = Some (e', evs) \<and>
    hit_prefix demo_dec (test_limit BuySide 101 ''x'' 9 7) (sells demo_book) n evs"
proof -
  have a: "arrives demo_dec demo_engine (test_limit BuySide 101 ''x'' 9 7) BuySide ORDER_FORM_LIMIT"
    unfolding arrives_def using reach_demo_engine by (intro conjI; (assumption | code_simp))
  obtain e' evs where o: "core_on_order demo_dec (test_limit BuySide 101 ''x'' 9 7) demo_engine = Some (e', evs)"
    using core_on_order_spec [OF reach_demo_engine, of "test_limit BuySide 101 ''x'' 9 7"] a by (auto simp: arrives_def)
  show ?thesis using core_limit_priority [OF a o] o by (auto simp: side_list_def test_limit_def)
qed

text \<open>
  C17. A limit order conserves quantity: what it takes off the opposite side and what it adds
  to its own side make up its open quantity.
\<close>
theorem core_limit_conserves:
  assumes "arrives bd e t s ORDER_FORM_LIMIT" and "core_on_order bd t e = Some (e', evs)"
  shows "(open_qty (queue_of e t (other s)) - open_qty (queue_of e' t (other s))) +
    (open_qty (queue_of e' t s) - open_qty (queue_of e t s)) = remaining t"
proof -
  note b = arrives_book [OF assms]
  obtain r q where cm: "cmatch (s = SellSide) bd s t (queue_of e t (other s)) = (evs, r, q)" "queue_of e' t (other s) = q"
    "queue_of e' t s = rest_in s r (queue_of e t s)"
    using b(1,7) by (auto simp: limit_spec_def form_defs split: prod.splits)
  show ?thesis
    using cmatch_conserves [OF cm(1)] open_rest_in [OF b(3) side_ok_makers [OF b(4)] b(2,5) cm(1)] cm(2,3)
    by (simp add: algebra_simps)
qed

theorem core_limit_conserves_witness:
  "\<exists>e' evs. core_on_order demo_dec (test_limit SellSide 97 ''x'' 9 11) demo_engine = Some (e', evs) \<and>
    (open_qty (buys demo_book) - open_qty (buys (book_of e' ''btcusdt''))) +
    (open_qty (sells (book_of e' ''btcusdt'')) - open_qty (sells demo_book)) = 11"
proof -
  have a: "arrives demo_dec demo_engine (test_limit SellSide 97 ''x'' 9 11) SellSide ORDER_FORM_LIMIT"
    unfolding arrives_def using reach_demo_engine by (intro conjI; (assumption | code_simp))
  obtain e' evs where o: "core_on_order demo_dec (test_limit SellSide 97 ''x'' 9 11) demo_engine = Some (e', evs)"
    using arrives_returns [OF a] by blast
  show ?thesis using core_limit_conserves [OF a o] o by (auto simp: side_list_def test_limit_def remaining_def)
qed

text \<open>
  C10. Fill-or-kill is all or nothing: if the makers within the limit hold enough, the opposite
  side loses exactly the order's quantity; otherwise the book is as before, to the last
  field of every maker, and the only event is the revocation.  The order never rests.
\<close>
theorem core_fok_all_or_nothing:
  assumes "arrives bd e t s ORDER_FORM_FOK" and "core_on_order bd t e = Some (e', evs)"
  shows "if remaining t \<le> open_qty (filter (ccross s t) (queue_of e t (other s)))
    then queue_of e' t s = queue_of e t s \<and>
         open_qty (queue_of e' t (other s)) = open_qty (queue_of e t (other s)) - remaining t
    else book_of e' (symbol_key t) = book_of e (symbol_key t) \<and>
         (\<exists>rem. evs = [RevokeEv (trust_order_no t) (symbol_key t) rem ''fok_fail''])"
proof -
  note b = arrives_book [OF assms]
  obtain evs1 r q where cm: "cmatch True bd s t (queue_of e t (other s)) = (evs1, r, q)"
    by (cases "cmatch True bd s t (queue_of e t (other s))")
  have eq: "(book_of e' (symbol_key t), evs) = (if r = [] then (set_side (other s) q (book_of e (symbol_key t)), fok_events bd t (queue_of e t (other s)))
      else (book_of e (symbol_key t), [revoke_ev bd ''fok_fail'' (hd r)]))"
    using b(1,7) cm by (simp add: fok_spec_def)
  have iff: "r = [] \<longleftrightarrow> remaining t \<le> open_qty (filter (ccross s t) (queue_of e t (other s)))"
    using cmatch_fills_iff [OF b(4) _ cm] b(2) by (simp add: order_live_def)
  show ?thesis
  proof (cases "r = []")
    case True
    then show ?thesis using eq iff cmatch_conserves [OF cm] by (simp add: algebra_simps)
  next
    case False
    then obtain t' where "r = [t']" using cmatch_taker [OF side_ok_makers [OF b(4)] b(2) cm] by blast
    then show ?thesis using eq iff cm cmatch_left [OF side_ok_makers [OF b(4)], of True bd t evs1 t' q] by (simp add: revoke_ev_def)
  qed
qed

theorem core_fok_all_or_nothing_witness:
  "\<exists>e' evs. core_on_order demo_dec (test_fok BuySide 101 ''f'' 9 12) demo_engine = Some (e', evs) \<and>
    buys (book_of e' ''btcusdt'') = buys demo_book \<and> open_qty (sells (book_of e' ''btcusdt'')) = open_qty (sells demo_book) - 12"
proof -
  have a: "arrives demo_dec demo_engine (test_fok BuySide 101 ''f'' 9 12) BuySide ORDER_FORM_FOK"
    unfolding arrives_def using reach_demo_engine by (intro conjI; (assumption | code_simp))
  obtain e' evs where o: "core_on_order demo_dec (test_fok BuySide 101 ''f'' 9 12) demo_engine = Some (e', evs)"
    using arrives_returns [OF a] by blast
  have "remaining (test_fok BuySide 101 ''f'' 9 (12::int)) \<le>
      open_qty (filter (ccross BuySide (test_fok BuySide 101 ''f'' 9 12)) (queue_of demo_engine (test_fok BuySide 101 ''f'' 9 (12::int)) SellSide))"
    by code_simp
  then show ?thesis
    using core_fok_all_or_nothing [OF a o] o by (auto simp: side_list_def test_fok_def test_limit_def remaining_def)
qed

text \<open>
  A killed fill-or-kill order has traded nothing, yet its revocation does not report its
  open quantity: it reports the quantity less the makers the walk visited before it gave up.
\<close>
theorem core_fok_fail_remaining:
  assumes "arrives bd e t s ORDER_FORM_FOK" and "core_on_order bd t e = Some (e', evs)"
    and "open_qty (filter (ccross s t) (queue_of e t (other s))) < remaining t"
  shows "evs = [RevokeEv (trust_order_no t) (symbol_key t)
    (dec_str bd (remaining t - open_qty (filter (ccross s t) (queue_of e t (other s))))) ''fok_fail'']"
proof -
  note b = arrives_book [OF assms(1,2)]
  obtain evs1 r q where cm: "cmatch True bd s t (queue_of e t (other s)) = (evs1, r, q)"
    by (cases "cmatch True bd s t (queue_of e t (other s))")
  have "r \<noteq> []" using cmatch_fills_iff [OF b(4) _ cm] b(2) assms(3) by (simp add: order_live_def)
  then obtain t' where "r = [t']" using cmatch_taker [OF side_ok_makers [OF b(4)] b(2) cm] by blast
  then show ?thesis
    using b(1,7) cm cmatch_left [OF side_ok_makers [OF b(4)], of True bd t evs1 t' q] by (simp add: revoke_ev_def fok_spec_def)
qed

theorem core_fok_fail_remaining_witness:
  "map_option snd (core_on_order demo_dec (test_fok BuySide 100 ''f'' 9 8) demo_engine) =
    Some [RevokeEv ''f'' ''btcusdt'' ''111'' ''fok_fail''] \<and> remaining (test_fok BuySide 100 ''f'' 9 (8::int)) = 8"
proof -
  have a: "arrives demo_dec demo_engine (test_fok BuySide 100 ''f'' 9 8) BuySide ORDER_FORM_FOK"
    unfolding arrives_def using reach_demo_engine by (intro conjI; (assumption | code_simp))
  obtain e' evs where o: "core_on_order demo_dec (test_fok BuySide 100 ''f'' 9 8) demo_engine = Some (e', evs)"
    using arrives_returns [OF a] by blast
  have q: "open_qty (filter (ccross BuySide (test_fok BuySide 100 ''f'' 9 8)) (queue_of demo_engine (test_fok BuySide 100 ''f'' 9 (8::int)) SellSide)) = 5"
    by code_simp
  have d: "dec_str demo_dec 3 = ''111''" by code_simp
  have r: "remaining (test_fok BuySide 100 ''f'' 9 (8::int)) = 8" by code_simp
  have "evs = [RevokeEv ''f'' ''btcusdt'' ''111'' ''fok_fail'']"
    using core_fok_fail_remaining [OF a o] q d r by (simp add: test_fok_def test_limit_def)
  then show ?thesis using o r by simp
qed

end
