(* ===== verification/Core_Forms.thy ===== *)
theory Core_Forms
  imports Core_Props
begin

text \<open>
  Properties of the remaining order forms of the decimal engine: immediate-or-cancel,
  post-only, market and revocation.
\<close>

lemma nos_place: "side_ok s xs \<Longrightarrow> order_live s t \<Longrightarrow> trust_order_no t \<notin> set (nos xs) \<Longrightarrow> t \<in> set (place s t xs)"
  using place_ok(2) [of s xs t] by simp

text \<open>
  C26. An immediate-or-cancel order never rests: its side of the book is as before, its number
  is on neither side, what it took is what the opposite side lost, and a remainder is
  reported by one revocation at the end.
\<close>
theorem core_ioc_never_rests:
  assumes "arrives bd e t s ORDER_FORM_IOC" and "core_on_order bd t e = Some (e', evs)"
  shows "queue_of e' t s = queue_of e t s \<and>
    \<not> contains_order_no (book_of e' (symbol_key t)) (trust_order_no t) \<and>
    (let taken = open_qty (queue_of e t (other s)) - open_qty (queue_of e' t (other s))
     in if taken = remaining t then \<exists>n. hit_prefix bd t (queue_of e t (other s)) n evs
        else \<exists>n. hit_prefix bd t (queue_of e t (other s)) n (butlast evs) \<and>
               last evs = RevokeEv (trust_order_no t) (symbol_key t) (dec_str bd (remaining t - taken)) ''ioc_remainder'')"
proof -
  note b = arrives_book [OF assms]
  obtain evs1 r q where cm: "cmatch (s = SellSide) bd s t (queue_of e t (other s)) = (evs1, r, q)"
    by (cases "cmatch (s = SellSide) bd s t (queue_of e t (other s))")
  have eq: "book_of e' (symbol_key t) = set_side (other s) q (book_of e (symbol_key t))" "evs = evs1 @ map (revoke_ev bd ''ioc_remainder'') r"
    using b(1,7) cm by (simp_all add: ioc_spec_def)
  have q: "trust_order_no t \<notin> set (nos q)" using cmatch_makers(2) [OF b(4) cm] b(6) by blast
  note pre = cmatch_prefix [OF cm] and con = cmatch_conserves [OF cm]
  from cmatch_taker [OF side_ok_makers [OF b(4)] b(2) cm] show ?thesis
  proof
    assume r: "r = []"
    then have "open_qty (queue_of e t (other s)) - open_qty q = remaining t" using con by (simp add: algebra_simps)
    then show ?thesis using eq q b(5) pre r by (auto simp: contains_order_no_side [of _ _ s])
  next
    assume "\<exists>t'. r = [t'] \<and> same_key t' t \<and> symbol_key t' = symbol_key t \<and> order_live s t' \<and> (\<forall>m \<in> set q. \<not> ccross s t' m)"
    then obtain t' where t': "r = [t']" "trust_order_no t' = trust_order_no t" "symbol_key t' = symbol_key t" "0 < remaining t'"
      by (auto simp: order_live_def)
    then have tk: "remaining t - (open_qty (queue_of e t (other s)) - open_qty q) = remaining t'"
      using con by (simp add: algebra_simps)
    then have "open_qty (queue_of e t (other s)) - open_qty q \<noteq> remaining t" using t'(4) by auto
    then show ?thesis using eq q b(5) pre t' tk by (auto simp: contains_order_no_side [of _ _ s] revoke_ev_def Let_def)
  qed
qed

theorem core_ioc_never_rests_witness:
  "\<exists>e' evs. core_on_order demo_dec (test_ioc SellSide 98 ''i'' 9 9) demo_engine = Some (e', evs) \<and>
    sells (book_of e' ''btcusdt'') = sells demo_book \<and> \<not> contains_order_no (book_of e' ''btcusdt'') ''i''"
proof -
  have a: "arrives demo_dec demo_engine (test_ioc SellSide 98 ''i'' 9 9) SellSide ORDER_FORM_IOC"
    unfolding arrives_def using reach_demo_engine by (intro conjI; (assumption | code_simp))
  obtain e' evs where o: "core_on_order demo_dec (test_ioc SellSide 98 ''i'' 9 9) demo_engine = Some (e', evs)"
    using arrives_returns [OF a] by blast
  show ?thesis using core_ioc_never_rests [OF a o] o by (auto simp: side_list_def test_ioc_def test_limit_def)
qed

text \<open>
  C27. A post-only order never takes: the opposite side is as before and there is no fill; the
  order rests with no event if it crosses no maker, and is revoked in full if it does.
\<close>
theorem core_post_only_never_takes:
  assumes "arrives bd e t s ORDER_FORM_POST_ONLY" and "core_on_order bd t e = Some (e', evs)"
  shows "queue_of e' t (other s) = queue_of e t (other s) \<and>
    (if list_ex (ccross s t) (queue_of e t (other s))
     then queue_of e' t s = queue_of e t s \<and>
          evs = [RevokeEv (trust_order_no t) (symbol_key t) (dec_str bd (remaining t)) ''post_only'']
     else set (queue_of e' t s) = insert t (set (queue_of e t s)) \<and> evs = [])"
  using arrives_book [OF assms] place_ok(2) [of s "queue_of e t s" t]
  by (auto simp: post_only_spec_def revoke_ev_def)

theorem core_post_only_never_takes_witness:
  "\<exists>e' evs. core_on_order demo_dec (test_post_only BuySide 100 ''p'' 9 9) demo_engine = Some (e', evs) \<and>
    sells (book_of e' ''btcusdt'') = sells demo_book \<and> evs = [RevokeEv ''p'' ''btcusdt'' ''111111111'' ''post_only'']"
proof -
  let ?t = "test_post_only BuySide 100 ''p'' 9 9 :: int bb_order"
  have a: "arrives demo_dec demo_engine ?t BuySide ORDER_FORM_POST_ONLY"
    unfolding arrives_def using reach_demo_engine by (intro conjI; (assumption | code_simp))
  obtain e' evs where o: "core_on_order demo_dec ?t demo_engine = Some (e', evs)"
    using arrives_returns [OF a] by blast
  have "list_ex (ccross BuySide ?t) (queue_of demo_engine ?t SellSide)" "dec_str demo_dec (remaining ?t) = ''111111111''"
    by code_simp+
  then show ?thesis
    using core_post_only_never_takes [OF a o] o by (auto simp: side_list_def test_post_only_def test_limit_def)
qed

text \<open>
  C28. A revocation removes exactly the order of that number from the side it names and reports
  its open quantity; an unknown number changes nothing and reports nothing.
\<close>
theorem core_revoke_exact:
  assumes "core_reach bd e" and "is_revoke t" and "from_order_type (order_type t) = Some s"
    and "core_on_order bd t e = Some (e', evs)"
  shows "queue_of e' t (other s) = queue_of e t (other s) \<and>
    queue_of e' t s = filter (\<lambda>x. trust_order_no x \<noteq> trust_order_no t) (queue_of e t s) \<and>
    evs = map (\<lambda>x. RevokeEv (trust_order_no x) (symbol_key x) (dec_str bd (remaining x)) ''user'')
            (filter (\<lambda>x. trust_order_no x = trust_order_no t) (queue_of e t s)) \<and> length evs \<le> 1"
proof -
  have "length (filter (\<lambda>x. trust_order_no x = no) xs) \<le> 1" if "distinct (nos xs)" for no and xs :: "'a bb_order list"
    using that by (induction xs) (auto simp: filter_empty_conv image_iff)
  moreover have "distinct (nos (queue_of e t s))"
    using core_reach_book [OF assms(1), of "symbol_key t"] ob_inv_sides [of _ s] by (auto simp: side_ok_def in_order_def)
  ultimately show ?thesis
    using core_on_order_book [OF assms(1) _ assms(4)] assms(2,3)
    by (simp add: core_spec_def revoke_spec_def drop_no_def revoke_ev_def [abs_def])
qed

theorem core_revoke_exact_witness:
  "\<exists>e' evs. core_on_order demo_dec ((test_limit SellSide 0 ''s2'' 0 0)\<lparr>order_status := 3\<rparr>) demo_engine = Some (e', evs) \<and>
    nos (sells (book_of e' ''btcusdt'')) = [''s1'', ''s3''] \<and> length evs \<le> 1"
proof -
  let ?t = "(test_limit SellSide 0 ''s2'' 0 0)\<lparr>order_status := 3\<rparr> :: int bb_order"
  have t: "is_revoke ?t" "from_order_type (order_type ?t) = Some SellSide" by code_simp+
  obtain e' evs where o: "core_on_order demo_dec ?t demo_engine = Some (e', evs)"
    using core_on_order_spec [OF reach_demo_engine, of ?t] t(1) by blast
  have "nos (filter (\<lambda>x. trust_order_no x \<noteq> ''s2'') (sells demo_book)) = [''s1'', ''s3'']" by code_simp
  then show ?thesis
    using core_revoke_exact [OF reach_demo_engine t o] o by (auto simp: side_list_def test_limit_def)
qed

section \<open>Market orders\<close>

definition is_fill :: "match_event \<Rightarrow> bool" where
  "is_fill ev = (case ev of FillEv _ _ _ _ _ _ _ _ _ _ _ \<Rightarrow> True | RevokeEv _ _ _ _ \<Rightarrow> False)"

lemma is_fill_simps [simp]: "is_fill (trade_ev bd t m)" "\<not> is_fill (revoke_ev bd reason t)"
  by (simp_all add: is_fill_def trade_ev_def fill_event_def revoke_ev_def)

lemma mwalk_fills: "mwalk bd s g t ms = (evs, r, q) \<Longrightarrow> list_all is_fill evs"
  by (induction ms arbitrary: g t evs) (auto split: if_splits prod.splits)

lemma hd_place: "xs \<noteq> [] \<Longrightarrow> hd (place s t xs) = (if cmp_of s t (hd xs) = Less then t else hd xs)"
  by (cases xs) (auto simp: place_def split: ordering.split prod.split)

text \<open>Where the order stands behind a resting order of its own side.\<close>

definition outranked :: "bside \<Rightarrow> 'd::linordered_idom bb_order \<Rightarrow> 'd bb_order list \<Rightarrow> bool" where
  "outranked s t own \<longleftrightarrow> own \<noteq> [] \<and> cmp_of s (hd own) (market_entry s t) = Less"

lemma hd_place_entry:
  assumes "trust_order_no t \<notin> set (nos own)"
  shows "hd (place s (market_entry s t) own) = (if outranked s t own then hd own else market_entry s t)"
    and "outranked s t own \<Longrightarrow> hd own \<noteq> market_entry s t"
proof -
  have "own = [] \<Longrightarrow> hd (place s (market_entry s t) own) = market_entry s t" by (simp add: place_def)
  moreover have n: "trust_order_no (hd own) \<noteq> trust_order_no t" if "own \<noteq> []" using assms that by (cases own) auto
  moreover have "cmp_of s (market_entry s t) (hd own) = Less \<longleftrightarrow> cmp_of s (hd own) (market_entry s t) \<noteq> Less" if "own \<noteq> []"
    using n [OF that] side_order.swap [of s] side_order.equal_iff [of s "market_entry s t" "hd own"]
    by (metis market_entry_simps(1) ordering.exhaust ordering.distinct)
  ultimately show "hd (place s (market_entry s t) own) = (if outranked s t own then hd own else market_entry s t)"
    by (cases "own = []") (auto simp: hd_place outranked_def)
  show "hd own \<noteq> market_entry s t" if "outranked s t own" using that n by (auto simp: outranked_def)
qed

text \<open>
  C25. A market order takes at most \<open>gear\<close> makers and leaves its own side as it was, with one
  exception: behind a resting order of its side that is not a market order it stays on the
  book with no event and no trade, although the opposite side holds makers.
\<close>
theorem core_market_outcome:
  assumes "arrives bd e t s ORDER_FORM_MARKET_PRICE" and "core_on_order bd t e = Some (e', evs)"
  shows "if queue_of e t (other s) \<noteq> [] \<and> outranked s t (queue_of e t s) \<and>
      order_form (hd (queue_of e t s)) \<noteq> ORDER_FORM_MARKET_PRICE
    then evs = [] \<and> queue_of e' t (other s) = queue_of e t (other s) \<and>
         set (queue_of e' t s) = insert (market_entry s t) (set (queue_of e t s))
    else queue_of e' t s = queue_of e t s \<and> int (length (filter is_fill evs)) \<le> gear_of t \<and> length evs > 0"
proof -
  note b = arrives_book [OF assms]
  let ?w = "mwalk bd s (gear_of t) (market_entry s t) (queue_of e t (other s))"
  obtain evs1 r q where w: "?w = (evs1, r, q)" by (cases ?w)
  have ne: "queue_of e t (other s) \<noteq> [] \<Longrightarrow> evs1 @ revoked bd r \<noteq> []"
    using w by (cases "queue_of e t (other s)") (auto split: if_splits prod.splits)
  have "filter is_fill (evs1 @ revoked bd r) = evs1"
    using mwalk_fills [OF w] by (auto simp: list_all_iff filter_id_conv filter_empty_conv)
  moreover have "int (length evs1) \<le> gear_of t" using mwalk_bounded [OF w gear_of_pos] by simp
  moreover have "set (place s (market_entry s t) (queue_of e t s)) = insert (market_entry s t) (set (queue_of e t s))"
    using place_ok(2) [OF b(3)] b(2,5) by simp
  moreover have "0 \<le> gear_of t" using gear_of_pos [of t] by simp
  ultimately show ?thesis
    using b(1,7) w ne hd_place_entry [OF b(5), of s]
    by (cases "outranked s t (queue_of e t s)") (auto simp: market_spec_def Let_def form_defs split: if_splits)
qed

definition market_sell :: "int bb_order" where
  "market_sell = (test_market SellSide ''m'' 9 3)\<lparr>trust_price := 105\<rparr>"

theorem core_market_outcome_witness:
  "map_option snd (core_on_order demo_dec market_sell demo_engine) = Some [] \<and>
    order_form market_sell = ORDER_FORM_MARKET_PRICE \<and> buys demo_book \<noteq> [] \<and>
    (\<exists>e'. core_on_order demo_dec market_sell demo_engine = Some (e', []) \<and> market_sell \<in> set (sells (book_of e' ''btcusdt'')))"
proof -
  have a: "arrives demo_dec demo_engine market_sell SellSide ORDER_FORM_MARKET_PRICE"
    unfolding arrives_def using reach_demo_engine by (intro conjI; (assumption | code_simp))
  obtain e' evs where o: "core_on_order demo_dec market_sell demo_engine = Some (e', evs)"
    using arrives_returns [OF a] by blast
  have h: "queue_of demo_engine market_sell BuySide \<noteq> []" "outranked SellSide market_sell (queue_of demo_engine market_sell SellSide)"
    "order_form (hd (queue_of demo_engine market_sell SellSide)) \<noteq> ORDER_FORM_MARKET_PRICE"
    "symbol_key market_sell = ''btcusdt''" "order_form market_sell = ORDER_FORM_MARKET_PRICE"
    by code_simp+
  have "evs = []" "market_sell \<in> set (queue_of e' market_sell SellSide)"
    using core_market_outcome [OF a o] h by (simp_all add: market_entry_def)
  then show ?thesis using o h by (simp add: side_list_def)
qed

end
