(* ===== verification/Core_Depth.thy ===== *)
theory Core_Depth
  imports Core_Props
begin

text \<open>
  The depth snapshot equals its definition by grouping: one level per price of the side, best
  first, each with the open quantity resting at that price, cut at the limit.
\<close>

section \<open>Grouping\<close>

definition level_of :: "'d::linordered_idom bb_order list \<Rightarrow> 'd \<Rightarrow> 'd \<times> 'd" where
  "level_of xs p = (p, open_qty (filter (\<lambda>x. trust_price x = p) xs))"

definition levels_ref :: "'d::linordered_idom bb_order list \<Rightarrow> ('d \<times> 'd) list" where
  "levels_ref xs = map (level_of xs) (remdups_adj (map trust_price xs))"

lemma depth_loop_append: "depth_loop (xs @ ys) lim ls = depth_loop ys lim (depth_loop xs lim ls)"
  by (induction xs arbitrary: ls) simp_all

lemma remdups_adj_snoc:
  "remdups_adj (xs @ [x]) = (if xs \<noteq> [] \<and> last xs = x then remdups_adj xs else remdups_adj xs @ [x])"
  by (induction xs rule: remdups_adj.induct) auto

lemma last_remdups_adj: "xs \<noteq> [] \<Longrightarrow> last (remdups_adj xs) = last xs"
  by (induction xs rule: remdups_adj.induct) auto

lemma level_of_same: "level_of (xs @ [x]) (trust_price x) = (trust_price x, open_qty (filter (\<lambda>y. trust_price y = trust_price x) xs) + remaining x)"
  by (simp add: level_of_def)

lemma level_of_other: "p \<noteq> trust_price x \<Longrightarrow> level_of (xs @ [x]) p = level_of xs p"
  by (simp add: level_of_def)

text \<open>Along a side the prices come in blocks: a price that ended does not come back.\<close>

lemma price_block:
  assumes "sorted_wrt (\<lambda>a b. cmp_of s a b = Less) (xs @ [x])" and "y \<in> set xs" and "trust_price y = trust_price x"
  shows "trust_price (last xs) = trust_price x"
proof -
  have lx: "cmp_of s (last xs) x = Less" using assms(1,2) last_in_set [of xs] by (cases xs) (auto simp: sorted_wrt_append)
  have "y = last xs \<or> cmp_of s y (last xs) = Less"
    using assms(1,2) by (cases xs rule: rev_cases) (auto simp: sorted_wrt_append)
  then show ?thesis
    using lx assms(3) by (cases s) (auto simp: cmp_of_def compare_buy_Less compare_sell_Less)
qed

lemma price_new:
  assumes "sorted_wrt (\<lambda>a b. cmp_of s a b = Less) (xs @ [x])" and "\<not> (xs \<noteq> [] \<and> trust_price (last xs) = trust_price x)"
  shows "trust_price x \<notin> trust_price ` set xs"
proof
  assume "trust_price x \<in> trust_price ` set xs"
  then obtain y where y: "trust_price x = trust_price y" "y \<in> set xs" by (rule imageE)
  show False using price_block [OF assms(1) y(2) y(1) [symmetric]] y(2) assms(2) by auto
qed

lemma distinct_blocks: "sorted_wrt (\<lambda>a b. cmp_of s a b = Less) xs \<Longrightarrow> distinct (remdups_adj (map trust_price xs))"
proof (induction xs rule: rev_induct)
  case (snoc x xs)
  show ?case using snoc price_new [OF snoc.prems] by (cases "xs = []") (auto simp: remdups_adj_snoc sorted_wrt_append last_map)
qed simp

lemma levels_ref_snoc:
  assumes "sorted_wrt (\<lambda>a b. cmp_of s a b = Less) (xs @ [x])"
  shows "levels_ref (xs @ [x]) =
    (if xs \<noteq> [] \<and> trust_price (last xs) = trust_price x
     then butlast (levels_ref xs) @ [(trust_price x, snd (last (levels_ref xs)) + remaining x)]
     else levels_ref xs @ [(trust_price x, remaining x)])"
proof -
  let ?ps = "remdups_adj (map trust_price xs)"
  have d: "distinct ?ps" using distinct_blocks [of s xs] assms by (simp add: sorted_wrt_append)
  show ?thesis
  proof (cases "xs \<noteq> [] \<and> trust_price (last xs) = trust_price x")
    case True
    then have l: "last ?ps = trust_price x" "?ps \<noteq> []" by (auto simp: last_remdups_adj last_map)
    then obtain qs where qs: "?ps = qs @ [trust_price x]" by (metis append_butlast_last_id)
    then have "trust_price x \<notin> set qs" using d by simp
    then show ?thesis
      using True qs by (auto simp: levels_ref_def remdups_adj_snoc last_map level_of_same level_of_def level_of_other)
  next
    case False
    then have "trust_price x \<notin> trust_price ` set xs" by (rule price_new [OF assms])
    then have no: "trust_price y \<noteq> trust_price x" if "y \<in> set xs" for y using that by (metis image_eqI)
    then have "filter (\<lambda>y. trust_price y = trust_price x) xs = []" by (force simp: filter_empty_conv image_iff)
    moreover have "map (level_of (xs @ [x])) ?ps = map (level_of xs) ?ps"
      using no by (intro map_cong [OF refl] level_of_other) auto
    ultimately show ?thesis
      using False by (auto simp: levels_ref_def remdups_adj_snoc last_map level_of_same)
  qed
qed

lemma fst_last_levels: "xs \<noteq> [] \<Longrightarrow> levels_ref xs \<noteq> [] \<and> fst (last (levels_ref xs)) = trust_price (last xs)"
  by (simp add: levels_ref_def last_map last_remdups_adj level_of_def)

section \<open>The loop\<close>

lemma distinct_fst_levels:
  "sorted_wrt (\<lambda>a b. cmp_of s a b = Less) xs \<Longrightarrow> distinct (map fst (levels_ref xs))"
  using distinct_blocks [of s xs] by (simp add: levels_ref_def comp_def level_of_def)

lemma last_take_fst: "p \<notin> fst ` set M \<Longrightarrow> take lim M = [] \<or> fst (last (take lim M)) \<noteq> p"
  by (metis image_eqI in_set_takeD last_in_set)

lemma depth_loop_ref:
  assumes "0 < lim" and "sorted_wrt (\<lambda>a b. cmp_of s a b = Less) xs" and "\<forall>x \<in> set xs. order_live s x"
  shows "depth_loop xs lim [] = take lim (levels_ref xs)"
  using assms(2,3)
proof (induction xs rule: rev_induct)
  case Nil
  then show ?case by (simp add: levels_ref_def)
next
  case (snoc x xs)
  let ?L = "levels_ref xs"
  have s: "sorted_wrt (\<lambda>a b. cmp_of s a b = Less) xs" using snoc.prems(1) by (simp add: sorted_wrt_append)
  have r: "\<not> remaining_number x \<le> 0" "remaining_number x = remaining x" using snoc.prems(2) by (auto simp: order_live_def)
  have step: "depth_loop (xs @ [x]) lim [] = push_depth_level (take lim ?L) lim (trust_price x) (remaining x)"
    using snoc s r by (simp add: depth_loop_append)
  note ref = levels_ref_snoc [OF snoc.prems(1)]
  show ?case
  proof (cases "xs \<noteq> [] \<and> trust_price (last xs) = trust_price x")
    case True
    then obtain M z where L: "?L = M @ [z]" "fst z = trust_price x"
      using fst_last_levels [of xs] by (metis append_butlast_last_id)
    have "trust_price x \<notin> fst ` set M" using distinct_fst_levels [OF s] L by auto
    then have "take lim M = [] \<or> fst (last (take lim M)) \<noteq> trust_price x"
      by (rule last_take_fst)
    then show ?thesis
      using step ref True L assms(1) by (cases "length M < lim") (auto simp: push_depth_level_def not_less)
  next
    case False
    have "?L = [] \<or> fst (last (take lim ?L)) \<noteq> trust_price x"
    proof (cases "xs = []")
      case True
      then show ?thesis by (simp add: levels_ref_def)
    next
      case f: False
      have "trust_price x \<notin> trust_price ` set xs" by (rule price_new [OF snoc.prems(1) False])
      then have "trust_price x \<notin> fst ` set ?L" by (auto simp: levels_ref_def level_of_def)
      then show ?thesis using last_take_fst [of _ ?L lim] assms(1) by auto
    qed
    then show ?thesis
      using step ref False assms(1) by (cases "length ?L < lim") (auto simp: push_depth_level_def not_less)
  qed
qed

section \<open>The snapshot\<close>

text \<open>
  C31. The depth of a symbol equals its definition by grouping: the first \<open>lim\<close> prices of the
  side, best first, each once, each with the total open quantity resting at it.
\<close>
theorem core_depth_equiv:
  assumes "core_reach bd e"
  shows "core_depth_levels e sy s lim = take lim (levels_ref (side_list (book_of e sy) s))"
proof -
  have "side_ok s (side_list (book_of e sy) s)" using core_reach_book [OF assms, of sy] ob_inv_sides [of _ s] by blast
  then show ?thesis
    using depth_loop_ref [of lim s "side_list (book_of e sy) s"]
    by (auto simp: core_depth_levels_def ob_depth_levels_def depth_levels_from_orders_def book_of_def side_ok_def in_order_def
        ob_new_def side_list_def levels_ref_def split: option.splits bside.splits)
qed

theorem core_depth_equiv_witness:
  "core_depth_levels demo_engine ''btcusdt'' SellSide 5 = [(100, 5), (101, 9)]"
proof -
  have "take 5 (levels_ref (side_list demo_book SellSide)) = [(100, 5), (101, 9)]" by code_simp
  then show ?thesis using core_depth_equiv [OF reach_demo_engine, of "''btcusdt''" SellSide 5] by simp
qed

end
