(* ===== verification/Protocol.thy ===== *)
theory Protocol
  imports Core_Order Rust_Text
begin

text \<open>
  The message side of \<open>crates/match-protocol/src\<close>: the inbound order with its optional fields,
  the validators and converters of the contract and the spot service, and the encoding of
  symbol keys.  Strings are sequences of characters up to U+00FF, on which \<open>trim\<close> and
  \<open>to_lowercase\<close> act as in the standard library; the decimal parser and the base64 engine are
  parameters.
\<close>

section \<open>Constants\<close>

definition TYPES :: "int list" where "TYPES = [1, 2, 3, 4, 5, 6, 7, 8]"
definition ORDER_TYPES :: "int list" where "ORDER_TYPES = [1, 2]"
definition ORDER_STATUS :: "int list" where
  "ORDER_STATUS = [ORDER_STATUS_WAIT, ORDER_STATUS_SUCCESS_PART, ORDER_STATUS_REVOKE]"
definition ORDER_FORMS :: "int list" where
  "ORDER_FORMS = [ORDER_FORM_LIMIT, ORDER_FORM_MARKET_PRICE, ORDER_FORM_POST_ONLY, ORDER_FORM_IOC, ORDER_FORM_FOK]"
definition SPOT_TYPES :: "int list" where "SPOT_TYPES = [1, 2, 3]"
definition SPOT_ORDER_FORM_MARKET_PRICE :: int where "SPOT_ORDER_FORM_MARKET_PRICE = 2"
definition SPOT_ORDER_FORMS :: "int list" where "SPOT_ORDER_FORMS = [1, SPOT_ORDER_FORM_MARKET_PRICE]"

section \<open>The inbound message\<close>

record 'd mq_order =
  mq_user_id :: "int option"
  mq_uid :: "int option"
  mq_c_type :: int
  mq_deal_type :: "int option"
  mq_type :: "int option"
  mq_order_type :: "int option"
  mq_market_id :: "int option"
  mq_coin_id :: "int option"
  mq_symbol_key :: "string option"
  mq_coin_market :: "string option"
  mq_trust_order_no :: "string option"
  mq_close_position :: "int option"
  mq_start_deposit :: "string option"
  mq_position_type :: "int option"
  mq_taker_rate :: "string option"
  mq_order_status :: "int option"
  mq_order_form :: "int option"
  mq_gear :: "int option"
  mq_lever_times :: "int option"
  mq_trust_number :: "string option"
  mq_trust_price :: "string option"
  mq_create_time :: "int option"
  mq_face_value :: "'d option"
  mq_handicap_type :: "int option"

section \<open>Validation\<close>

text \<open>A trimmed string is empty when all its characters are white space.\<close>

definition is_blank :: "string option \<Rightarrow> bool" where
  "is_blank v = (case v of None \<Rightarrow> True | Some s \<Rightarrow> list_all is_white s)"

definition contains_value :: "int list \<Rightarrow> int \<Rightarrow> bool" where
  "contains_value values v \<longleftrightarrow> v \<in> set values"

definition holds_some :: "'a option \<Rightarrow> ('a \<Rightarrow> bool) \<Rightarrow> bool" where
  "holds_some v p = (case v of None \<Rightarrow> False | Some x \<Rightarrow> p x)"

definition check_mq_order :: "'d mq_order \<Rightarrow> bool" where
  "check_mq_order mq \<longleftrightarrow>
     mq_user_id mq \<noteq> None \<and>
     holds_some (mq_type mq) (contains_value TYPES) \<and>
     holds_some (mq_order_type mq) (contains_value ORDER_TYPES) \<and>
     \<not> (mq_market_id mq = None \<or> mq_coin_id mq = None) \<and>
     holds_some (mq_order_form mq) (\<lambda>form. contains_value ORDER_FORMS form \<and>
       (form = ORDER_FORM_MARKET_PRICE \<longrightarrow> holds_some (mq_gear mq) (\<lambda>g. g \<ge> 1))) \<and>
     \<not> (is_blank (mq_symbol_key mq) \<or> is_blank (mq_coin_market mq) \<or> is_blank (mq_trust_order_no mq)) \<and>
     holds_some (mq_order_status mq) (contains_value ORDER_STATUS) \<and>
     \<not> (is_blank (mq_trust_number mq) \<or> is_blank (mq_trust_price mq)) \<and>
     holds_some (mq_create_time mq) (\<lambda>ct. 0 < ct) \<and>
     mq_close_position mq \<noteq> None \<and>
     \<not> (is_blank (mq_start_deposit mq) \<or> is_blank (mq_taker_rate mq)) \<and>
     mq_position_type mq \<noteq> None"

definition check_mq_order_spot :: "'d mq_order \<Rightarrow> bool" where
  "check_mq_order_spot mq \<longleftrightarrow>
     mq_user_id mq \<noteq> None \<and>
     holds_some (mq_type mq) (contains_value SPOT_TYPES) \<and>
     holds_some (mq_order_type mq) (contains_value ORDER_TYPES) \<and>
     \<not> (mq_market_id mq = None \<or> mq_coin_id mq = None) \<and>
     holds_some (mq_order_form mq) (\<lambda>form. contains_value SPOT_ORDER_FORMS form \<and>
       \<not> (form = SPOT_ORDER_FORM_MARKET_PRICE \<and> mq_gear mq = None)) \<and>
     \<not> (is_blank (mq_symbol_key mq) \<or> is_blank (mq_coin_market mq) \<or> is_blank (mq_trust_order_no mq)) \<and>
     holds_some (mq_order_status mq) (contains_value ORDER_STATUS) \<and>
     \<not> (is_blank (mq_trust_number mq) \<or> is_blank (mq_trust_price mq)) \<and>
     holds_some (mq_create_time mq) (\<lambda>ct. 0 < ct)"

section \<open>Conversion\<close>

definition to_lower :: "char \<Rightarrow> char" where
  "to_lower c = (let n = of_char c :: int
     in if 65 \<le> n \<and> n \<le> 90 \<or> 192 \<le> n \<and> n \<le> 222 \<and> n \<noteq> 215 then char_of (n + 32) else c)"

text \<open>\<open>replace('/', "").to_lowercase()\<close>\<close>

definition normal_key :: "string \<Rightarrow> string" where
  "normal_key s = map to_lower (filter (\<lambda>c. c \<noteq> CHR ''/'') s)"

text \<open>The order of the engine, with every field the message must carry.\<close>

definition type_convert :: "(string \<Rightarrow> 'd option) \<Rightarrow> 'd::linordered_idom mq_order \<Rightarrow> 'd bb_order option" where
  "type_convert parse_decimal mq =
     do {
       sk \<leftarrow> mq_symbol_key mq;
       tn \<leftarrow> Option.bind (mq_trust_number mq) parse_decimal;
       tp \<leftarrow> Option.bind (mq_trust_price mq) parse_decimal;
       if tn \<le> 0 \<or> tp \<le> 0 then None
       else do {
         uid' \<leftarrow> mq_user_id mq;
         u \<leftarrow> mq_uid mq;
         ty \<leftarrow> mq_type mq;
         oty \<leftarrow> mq_order_type mq;
         mid \<leftarrow> mq_market_id mq;
         cid \<leftarrow> mq_coin_id mq;
         cm \<leftarrow> mq_coin_market mq;
         no \<leftarrow> mq_trust_order_no mq;
         form \<leftarrow> mq_order_form mq;
         cp \<leftarrow> mq_close_position mq;
         dep \<leftarrow> Option.bind (mq_start_deposit mq) parse_decimal;
         rate \<leftarrow> Option.bind (mq_taker_rate mq) parse_decimal;
         pos \<leftarrow> mq_position_type mq;
         lev \<leftarrow> mq_lever_times mq;
         st \<leftarrow> mq_order_status mq;
         ct \<leftarrow> mq_create_time mq;
         Some \<lparr>user_id = uid', uid = u, user_type = ty, order_type = oty, market_id = mid, coin_id = cid,
               symbol_key = normal_key sk, coin_market = cm, trust_order_no = no, order_form = form,
               gear = mq_gear mq, close_position = cp, start_deposit = dep, target_rate = rate, position_type = pos,
               lever_times = lev, order_status = st, consumer_all_number = 0, current_deal_number = 0,
               trust_number = tn, trust_price = tp, remaining_number = tn, create_time = ct,
               face_value = mq_face_value mq, average_price = 0\<rparr>
       }
     }"

definition unwrap_or :: "'a option \<Rightarrow> 'a \<Rightarrow> 'a" where
  "unwrap_or v d = (case v of Some x \<Rightarrow> x | None \<Rightarrow> d)"

definition type_convert_spot :: "(string \<Rightarrow> 'd option) \<Rightarrow> 'd::linordered_idom mq_order \<Rightarrow> 'd bb_order option" where
  "type_convert_spot parse_decimal mq =
     do {
       sk \<leftarrow> mq_symbol_key mq;
       tn \<leftarrow> Option.bind (mq_trust_number mq) parse_decimal;
       tp \<leftarrow> Option.bind (mq_trust_price mq) parse_decimal;
       if tn \<le> 0 then None
       else do {
         form \<leftarrow> mq_order_form mq;
         if tp \<le> 0 \<and> form \<noteq> SPOT_ORDER_FORM_MARKET_PRICE then None
         else do {
           uid' \<leftarrow> mq_user_id mq;
           ty \<leftarrow> mq_type mq;
           oty \<leftarrow> mq_order_type mq;
           mid \<leftarrow> mq_market_id mq;
           cid \<leftarrow> mq_coin_id mq;
           cm \<leftarrow> mq_coin_market mq;
           no \<leftarrow> mq_trust_order_no mq;
           st \<leftarrow> mq_order_status mq;
           ct \<leftarrow> mq_create_time mq;
           Some \<lparr>user_id = uid', uid = unwrap_or (mq_uid mq) 0, user_type = ty, order_type = oty, market_id = mid,
                 coin_id = cid, symbol_key = normal_key sk, coin_market = cm, trust_order_no = no, order_form = form,
                 gear = Some (unwrap_or (mq_gear mq) 0), close_position = unwrap_or (mq_close_position mq) 0,
                 start_deposit = unwrap_or (Option.bind (mq_start_deposit mq) parse_decimal) 0,
                 target_rate = unwrap_or (Option.bind (mq_taker_rate mq) parse_decimal) 0,
                 position_type = unwrap_or (mq_position_type mq) 0, lever_times = unwrap_or (mq_lever_times mq) 0,
                 order_status = st, consumer_all_number = 0, current_deal_number = 0,
                 trust_number = tn, trust_price = tp, remaining_number = tn, create_time = ct,
                 face_value = mq_face_value mq, average_price = 0\<rparr>
         }
       }
     }"

section \<open>Symbol keys\<close>

definition is_ascii_alnum :: "char \<Rightarrow> bool" where
  "is_ascii_alnum c \<longleftrightarrow> (let n = of_char c :: int in 48 \<le> n \<and> n \<le> 57 \<or> 65 \<le> n \<and> n \<le> 90 \<or> 97 \<le> n \<and> n \<le> 122)"

definition is_ascii_token :: "string \<Rightarrow> bool" where
  "is_ascii_token v \<longleftrightarrow> v \<noteq> [] \<and> list_all (\<lambda>c. is_ascii_alnum c \<or> c = CHR ''_'' \<or> c = CHR ''-'') v"

definition encode_part :: "(string \<Rightarrow> string) \<Rightarrow> string \<Rightarrow> string" where
  "encode_part b64 v = (if is_ascii_token v then v else b64 v)"

text \<open>\<open>splitn(2, '/')\<close> on a key that holds a slash.\<close>

definition encode_symbol_key :: "(string \<Rightarrow> string) \<Rightarrow> string \<Rightarrow> string" where
  "encode_symbol_key b64 key =
     (if key = [] then []
      else if CHR ''/'' \<in> set key then
        (let base = takeWhile (\<lambda>c. c \<noteq> CHR ''/'') key;
             quote = tl (dropWhile (\<lambda>c. c \<noteq> CHR ''/'') key)
         in if \<not> is_ascii_token base \<or> \<not> is_ascii_token quote
            then encode_part b64 base @ ''/'' @ encode_part b64 quote
            else key)
      else if is_ascii_token key then key else b64 key)"

end
