(* ===== verification/Inbound.thy ===== *)
theory Inbound
  imports Protocol Core_Limit "HOL-Library.AList"
begin

text \<open>
  The inbound paths: \<open>crates/match-contract/src/inbound.rs\<close> with its start-up duplicate filter, and
  \<open>crates/match-spot/src/inbound.rs\<close>.  The bounded channels to the symbol workers are a
  parameter: \<open>try_send\<close> gives the channel with the order in it, or refuses.  The locks serialise
  the calls, so each call is one step on the router state; the compare-and-swap loop on the
  largest restored number is a maximum.
\<close>

section \<open>Start-up duplicate filter\<close>

record start_queue_state =
  restored :: "(string \<times> string list) list"
  big_no :: int
  active :: bool

definition start_queue_new :: start_queue_state where
  "start_queue_new = \<lparr>restored = [], big_no = 0, active = True\<rparr>"

definition record_restored :: "string \<Rightarrow> string \<Rightarrow> start_queue_state \<Rightarrow> start_queue_state" where
  "record_restored sy no st =
     (let old = (case map_of (restored st) sy of None \<Rightarrow> [] | Some ns \<Rightarrow> ns);
          st1 = st\<lparr>restored := AList.update sy (List.insert no old) (restored st)\<rparr>
      in case parse_i64 no of
           None \<Rightarrow> st1
         | Some n \<Rightarrow> if n > big_no st1 then st1\<lparr>big_no := n\<rparr> else st1)"

definition start_queue_clear :: "start_queue_state \<Rightarrow> start_queue_state" where
  "start_queue_clear st = st\<lparr>restored := [], big_no := 0, active := False\<rparr>"

definition should_dedupe :: "start_queue_state \<Rightarrow> 'd bb_order \<Rightarrow> bool" where
  "should_dedupe st ord =
     (if \<not> active st then False
      else if order_status ord = ORDER_STATUS_REVOKE then False
      else if restored st = [] then False
      else if (case map_of (restored st) (symbol_key ord) of None \<Rightarrow> False | Some ns \<Rightarrow> trust_order_no ord \<in> set ns) then True
      else if big_no st > 0 then
        (case parse_i64 (trust_order_no ord) of None \<Rightarrow> False | Some n \<Rightarrow> big_no st \<ge> n)
      else False)"

section \<open>Router\<close>

datatype send_error = SendFull | SendClosed

datatype inbound_error = MissingQueue string | EnqueueErr string

record 'ch inbound_router =
  queues :: "string \<Rightarrow> 'ch option"
  start_queue :: start_queue_state
  invalid_total :: "64 word"
  placed_total :: "64 word"

definition router_new :: "start_queue_state \<Rightarrow> 'ch inbound_router" where
  "router_new st = \<lparr>queues = Map.empty, start_queue = st, invalid_total = 0, placed_total = 0\<rparr>"

definition register_queue :: "string \<Rightarrow> 'ch \<Rightarrow> 'ch inbound_router \<Rightarrow> 'ch inbound_router" where
  "register_queue sy tx r = r\<lparr>queues := (queues r)(sy \<mapsto> tx)\<rparr>"

definition shutdown_queues :: "'ch inbound_router \<Rightarrow> 'ch inbound_router" where
  "shutdown_queues r = r\<lparr>queues := Map.empty\<rparr>"

definition enqueue_order :: "('d bb_order \<Rightarrow> 'ch \<Rightarrow> send_error + 'ch) \<Rightarrow> 'd bb_order \<Rightarrow> 'ch inbound_router \<Rightarrow>
    'ch inbound_router \<times> (inbound_error + unit)" where
  "enqueue_order try_send ord r =
     (case queues r (symbol_key ord) of
        None \<Rightarrow> (r, Inl (MissingQueue (symbol_key ord)))
      | Some tx \<Rightarrow>
          (case try_send ord tx of
             Inr tx' \<Rightarrow> (r\<lparr>queues := (queues r)(symbol_key ord \<mapsto> tx')\<rparr>, Inr ())
           | Inl SendFull \<Rightarrow> (r, Inl (EnqueueErr ''channel full''))
           | Inl SendClosed \<Rightarrow> (r, Inl (EnqueueErr ''channel closed''))))"

definition record_invalid :: "'ch inbound_router \<Rightarrow> 'ch inbound_router" where
  "record_invalid r = r\<lparr>invalid_total := invalid_total r + 1\<rparr>"

definition record_placed :: "'ch inbound_router \<Rightarrow> 'ch inbound_router" where
  "record_placed r = r\<lparr>placed_total := placed_total r + 1\<rparr>"

definition handle_mq_order :: "(string \<Rightarrow> 'd option) \<Rightarrow> ('d bb_order \<Rightarrow> 'ch \<Rightarrow> send_error + 'ch) \<Rightarrow>
    'd::linordered_idom mq_order \<Rightarrow> 'ch inbound_router \<Rightarrow> 'ch inbound_router \<times> (inbound_error + unit)" where
  "handle_mq_order parse_decimal try_send mq r =
     (if \<not> check_mq_order mq then (record_invalid r, Inr ())
      else case type_convert parse_decimal mq of
        None \<Rightarrow> (record_invalid r, Inr ())
      | Some ord \<Rightarrow>
          if should_dedupe (start_queue r) ord then (r, Inr ())
          else (case enqueue_order try_send ord r of
                  (r', Inl e) \<Rightarrow> (r', Inl e)
                | (r', Inr _) \<Rightarrow> (record_placed r', Inr ())))"

definition handle_restore_order :: "(string \<Rightarrow> 'd option) \<Rightarrow> ('d bb_order \<Rightarrow> 'ch \<Rightarrow> send_error + 'ch) \<Rightarrow>
    'd::linordered_idom mq_order \<Rightarrow> 'ch inbound_router \<Rightarrow> 'ch inbound_router \<times> (inbound_error + unit)" where
  "handle_restore_order parse_decimal try_send mq r =
     (if \<not> check_mq_order mq then (r, Inr ())
      else case type_convert parse_decimal mq of
        None \<Rightarrow> (r, Inr ())
      | Some ord \<Rightarrow>
          (case enqueue_order try_send ord r of
             (r', Inl e) \<Rightarrow> (r', Inl e)
           | (r', Inr _) \<Rightarrow>
               (r'\<lparr>start_queue := record_restored (symbol_key ord) (trust_order_no ord) (start_queue r')\<rparr>, Inr ())))"

text \<open>The decoded batch of \<open>handle_body\<close>; errors of single orders are dropped.\<close>

fun handle_batch :: "(string \<Rightarrow> 'd option) \<Rightarrow> ('d bb_order \<Rightarrow> 'ch \<Rightarrow> send_error + 'ch) \<Rightarrow>
    'd::linordered_idom mq_order list \<Rightarrow> 'ch inbound_router \<Rightarrow> 'ch inbound_router" where
  "handle_batch parse_decimal try_send [] r = r"
| "handle_batch parse_decimal try_send (mq # mqs) r =
     handle_batch parse_decimal try_send mqs (fst (handle_mq_order parse_decimal try_send mq r))"

text \<open>The spot service has no filter.\<close>

definition handle_mq_order_spot :: "(string \<Rightarrow> 'd option) \<Rightarrow> ('d bb_order \<Rightarrow> 'ch \<Rightarrow> send_error + 'ch) \<Rightarrow>
    'd::linordered_idom mq_order \<Rightarrow> 'ch inbound_router \<Rightarrow> 'ch inbound_router \<times> (inbound_error + unit)" where
  "handle_mq_order_spot parse_decimal try_send mq r =
     (if \<not> check_mq_order_spot mq then (record_invalid r, Inr ())
      else case type_convert_spot parse_decimal mq of
        None \<Rightarrow> (record_invalid r, Inr ())
      | Some ord \<Rightarrow>
          (case enqueue_order try_send ord r of
             (r', Inl e) \<Rightarrow> (r', Inl e)
           | (r', Inr _) \<Rightarrow> (record_placed r', Inr ())))"

end
