(* ===== verification/Inbound_Props.thy ===== *)
theory Inbound_Props
  imports Inbound Core_Props
begin

text \<open>
  What the inbound paths promise the engine: only accepted orders reach a symbol's queue, and
  an order restored at start-up is not queued a second time.
\<close>

section \<open>Converted orders\<close>

lemma type_convert_ok:
  assumes "type_convert ps mq = Some t"
  shows "order_ok t" and "0 < trust_price t" and "mq_order_type mq = Some (order_type t)" and "mq_order_form mq = Some (order_form t)"
    and "gear t = mq_gear mq" and "mq_order_status mq = Some (order_status t)" and "mq_trust_order_no mq = Some (trust_order_no t)"
    and "map_option normal_key (mq_symbol_key mq) = Some (symbol_key t)" and "consumer_all_number t = 0"
  using assms by (auto simp: type_convert_def order_ok_def remaining_def Option.bind_eq_Some_conv not_le split: if_splits)

lemma type_convert_spot_ok:
  assumes "type_convert_spot ps mq = Some t"
  shows "order_ok t" and "mq_order_type mq = Some (order_type t)" and "mq_order_form mq = Some (order_form t)"
    and "order_form t \<noteq> SPOT_ORDER_FORM_MARKET_PRICE \<Longrightarrow> 0 < trust_price t"
  using assms by (auto simp: type_convert_spot_def order_ok_def remaining_def Option.bind_eq_Some_conv not_le split: if_splits)

lemma order_types_side: "contains_value ORDER_TYPES v \<Longrightarrow> from_order_type v \<noteq> None"
  by (auto simp: contains_value_def ORDER_TYPES_def from_order_type_def)

text \<open>What a worker may find in its queue.\<close>

definition queued_ok :: "string \<Rightarrow> 'd::linordered_idom bb_order \<Rightarrow> bool" where
  "queued_ok sy t \<longleftrightarrow> symbol_key t = sy \<and> order_ok t \<and> from_order_type (order_type t) \<noteq> None"

definition router_ok :: "('ch \<Rightarrow> 'd::linordered_idom bb_order list) \<Rightarrow> 'ch inbound_router \<Rightarrow> bool" where
  "router_ok contents r \<longleftrightarrow> (\<forall>sy tx. queues r sy = Some tx \<longrightarrow> list_all (queued_ok sy) (contents tx))"

text \<open>A successful \<open>try_send\<close> appends to what the receiver will get.\<close>

definition send_appends :: "('d bb_order \<Rightarrow> 'ch \<Rightarrow> send_error + 'ch) \<Rightarrow> ('ch \<Rightarrow> 'd bb_order list) \<Rightarrow> bool" where
  "send_appends try_send contents \<longleftrightarrow> (\<forall>t ch ch'. try_send t ch = Inr ch' \<longrightarrow> contents ch' = contents ch @ [t])"

lemma enqueue_ok:
  assumes "send_appends try_send contents" and "router_ok contents r" and "queued_ok (symbol_key t) t"
  shows "router_ok contents (fst (enqueue_order try_send t r))"
  using assms
  by (auto simp: enqueue_order_def router_ok_def send_appends_def split: option.split sum.split send_error.split)

lemma router_ok_fields [simp]:
  "router_ok contents (record_invalid r) = router_ok contents r" "router_ok contents (record_placed r) = router_ok contents r"
  "router_ok contents (r\<lparr>start_queue := st\<rparr>) = router_ok contents r"
  by (simp_all add: router_ok_def record_invalid_def record_placed_def)

lemma checked_queued:
  assumes "type_convert ps mq = Some t" and "check_mq_order mq"
  shows "queued_ok (symbol_key t) t"
  using type_convert_ok [OF assms(1)] assms(2) order_types_side by (auto simp: queued_ok_def check_mq_order_def holds_some_def)

lemma checked_queued_spot:
  assumes "type_convert_spot ps mq = Some t" and "check_mq_order_spot mq"
  shows "queued_ok (symbol_key t) t"
  using type_convert_spot_ok [OF assms(1)] assms(2) order_types_side by (auto simp: queued_ok_def check_mq_order_spot_def holds_some_def)

lemma handle_keeps_ok:
  assumes "send_appends try_send contents" and "router_ok contents r"
  shows "router_ok contents (fst (handle_mq_order ps try_send mq r))"
    and "router_ok contents (fst (handle_restore_order ps try_send mq r))"
    and "router_ok contents (fst (handle_mq_order_spot ps try_send mq r))"
proof -
  have e: "router_ok contents r'" if "enqueue_order try_send t r = (r', res)" "queued_ok (symbol_key t) t" for t r' res
    using enqueue_ok [OF assms that(2)] that(1) by simp
  show "router_ok contents (fst (handle_mq_order ps try_send mq r))"
    using assms(2) e checked_queued [of ps mq] by (auto simp: handle_mq_order_def split: option.split prod.split sum.split)
  show "router_ok contents (fst (handle_restore_order ps try_send mq r))"
    using assms(2) e checked_queued [of ps mq] by (auto simp: handle_restore_order_def split: option.split prod.split sum.split)
  show "router_ok contents (fst (handle_mq_order_spot ps try_send mq r))"
    using assms(2) e checked_queued_spot [of ps mq] by (auto simp: handle_mq_order_spot_def split: option.split prod.split sum.split)
qed

lemma handle_batch_ok:
  "send_appends try_send contents \<Longrightarrow> router_ok contents r \<Longrightarrow> router_ok contents (handle_batch ps try_send mqs r)"
  by (induction mqs arbitrary: r) (simp_all add: handle_keeps_ok(1))

section \<open>A concrete channel and message\<close>

definition demo_send :: "int bb_order \<Rightarrow> int bb_order list \<Rightarrow> send_error + int bb_order list" where
  "demo_send t ch = (if length ch < 2 then Inr (ch @ [t]) else Inl SendFull)"

definition demo_mq :: "string \<Rightarrow> int mq_order" where
  "demo_mq no =
     \<lparr>mq_user_id = Some 1, mq_uid = Some 100, mq_c_type = 1, mq_deal_type = None, mq_type = Some 1, mq_order_type = Some 1,
      mq_market_id = Some 1, mq_coin_id = Some 2, mq_symbol_key = Some ''BTC/USDT'', mq_coin_market = Some ''BTC/USDT'',
      mq_trust_order_no = Some no, mq_close_position = Some 1, mq_start_deposit = Some ''100'', mq_position_type = Some 1,
      mq_taker_rate = Some ''1'', mq_order_status = Some 0, mq_order_form = Some 1, mq_gear = None, mq_lever_times = Some 10,
      mq_trust_number = Some ''4'', mq_trust_price = Some ''50000'', mq_create_time = Some 7, mq_face_value = Some 1,
      mq_handicap_type = None\<rparr>"

lemma demo_send_appends: "send_appends demo_send id"
  by (auto simp: send_appends_def demo_send_def split: if_splits)

definition demo_router :: "int bb_order list inbound_router" where
  "demo_router = register_queue ''btcusdt'' [] (router_new start_queue_new)"

lemma demo_router_ok: "router_ok id demo_router"
  by (simp add: router_ok_def demo_router_def register_queue_def router_new_def)

section \<open>The properties\<close>

text \<open>
  Composition with the engine: whatever messages arrive, the orders a worker drains from
  the queue of its symbol run through the engine, every one of them to the end, and leave the
  book of the symbol sorted and uncrossed.
\<close>
theorem inbound_to_engine:
  assumes "send_appends try_send contents" and "router_ok contents r" and "core_reach bd e"
    and "queues (handle_batch ps try_send mqs r) sy = Some tx"
  shows "\<exists>e'. core_run bd (contents tx) e = Some e' \<and> core_reach bd e' \<and> ob_inv (book_of e' sy) \<and> ob_uncrossed (book_of e' sy)"
proof -
  have "list_all (queued_ok sy) (contents tx)"
    using handle_batch_ok [OF assms(1,2), of ps mqs] assms(4) by (simp add: router_ok_def)
  then have "list_all accepted (contents tx)" by (auto simp: list_all_iff queued_ok_def)
  from core_run_reach [OF assms(3) this] obtain e' where "core_run bd (contents tx) e = Some e'" "core_reach bd e'" by blast
  then show ?thesis using core_reach_book [of bd e' sy] by blast
qed

theorem inbound_to_engine_witness:
  "\<exists>tx e'. queues (handle_batch parse_i64 demo_send [demo_mq ''8''] demo_router) ''btcusdt'' = Some tx \<and>
    nos tx = [''8''] \<and> core_run demo_dec tx core_engine_new = Some e' \<and> ob_uncrossed (book_of e' ''btcusdt'')"
proof -
  let ?q = "queues (handle_batch parse_i64 demo_send [demo_mq ''8''] demo_router) ''btcusdt''"
  have "map_option nos ?q = Some [''8'']" by code_simp
  then obtain tx where q: "?q = Some tx" "nos tx = [''8'']" unfolding map_option_eq_Some by (elim exE conjE)
  show ?thesis using inbound_to_engine [OF demo_send_appends demo_router_ok core_reach_new q(1), of demo_dec] q by auto
qed

text \<open>The filter remembers.\<close>

definition restored_in :: "string \<Rightarrow> string \<Rightarrow> start_queue_state \<Rightarrow> bool" where
  "restored_in sy no st \<longleftrightarrow> active st \<and> (\<exists>ns. map_of (restored st) sy = Some ns \<and> no \<in> set ns)"

lemma record_restored_in:
  "active st \<Longrightarrow> restored_in sy no (record_restored sy no st)"
  "restored_in sy no st \<Longrightarrow> restored_in sy no (record_restored sy' no' st)"
  by (auto simp: restored_in_def record_restored_def Let_def AList.update_conv' in_set_insert split: option.splits)

lemma restored_in_dedupe:
  "restored_in (symbol_key t) (trust_order_no t) st \<Longrightarrow> order_status t \<noteq> ORDER_STATUS_REVOKE \<Longrightarrow> should_dedupe st t"
  by (auto simp: restored_in_def should_dedupe_def)

lemma start_queue_handle [simp]:
  "start_queue (fst (handle_mq_order ps try_send mq r)) = start_queue r"
  by (auto simp: handle_mq_order_def enqueue_order_def record_invalid_def record_placed_def
      split: option.split sum.split send_error.split prod.split)

lemma start_queue_batch [simp]: "start_queue (handle_batch ps try_send mqs r) = start_queue r"
  by (induction mqs arbitrary: r) simp_all

lemma handle_restore_records:
  assumes "handle_restore_order ps try_send mq r = (r', Inr ())" and "check_mq_order mq" and "type_convert ps mq = Some t"
    and "active (start_queue r)"
  shows "restored_in (symbol_key t) (trust_order_no t) (start_queue r')"
  using assms record_restored_in(1) [OF assms(4), of "symbol_key t" "trust_order_no t"]
  by (auto simp: handle_restore_order_def enqueue_order_def split: option.splits sum.splits send_error.splits)



lemma to_lower_slash:
  assumes "to_lower c = CHR ''/''"
  shows "c = CHR ''/''"
proof (rule ccontr)
  assume "c \<noteq> CHR ''/''"
  then have n: "65 \<le> (of_char c :: int) \<and> of_char c \<le> (222 :: int)" and "char_of ((of_char c :: int) + 32) = CHR ''/''"
    using assms by (auto simp: to_lower_def Let_def split: if_splits)
  then have "of_char (char_of ((of_char c :: int) + 32)) = (of_char CHR ''/'' :: int)" by simp
  then have "((of_char c :: int) + 32) mod 256 = 47" by simp
  then show False using n by simp
qed

lemma normal_key_slash: "CHR ''/'' \<notin> set (normal_key s)"
  using to_lower_slash by (force simp: normal_key_def)

text \<open>
  C39. A converted contract order is well formed: positive price and quantity, all of it open,
  a known side, and for a market order a positive gear; its symbol key holds no slash.
\<close>
theorem type_convert_wellformed:
  assumes "check_mq_order mq" and "type_convert ps mq = Some t"
  shows "0 < trust_number t \<and> 0 < trust_price t \<and> remaining t = trust_number t \<and> remaining_number t = trust_number t \<and>
    from_order_type (order_type t) \<noteq> None \<and> (order_form t = ORDER_FORM_MARKET_PRICE \<longrightarrow> (\<exists>g \<ge> 1. gear t = Some g)) \<and>
    CHR ''/'' \<notin> set (symbol_key t)"
proof -
  note t = type_convert_ok [OF assms(2)]
  obtain z where "symbol_key t = normal_key z" using t(8) by (metis map_option_eq_Some)
  then have "CHR ''/'' \<notin> set (symbol_key t)" by (simp add: normal_key_slash)
  then show ?thesis
    using t checked_queued [OF assms(2,1)] assms(1)
    by (auto simp: order_ok_def queued_ok_def check_mq_order_def holds_some_def remaining_def split: option.splits)
qed

theorem type_convert_wellformed_witness:
  "\<exists>t. type_convert parse_i64 (demo_mq ''8'') = Some t \<and> 0 < trust_number t \<and> remaining t = trust_number t"
proof -
  have "check_mq_order (demo_mq ''8'')" by code_simp
  moreover have "map_option trust_order_no (type_convert parse_i64 (demo_mq ''8'')) = Some ''8''" by code_simp
  then obtain t where "type_convert parse_i64 (demo_mq ''8'') = Some t" unfolding map_option_eq_Some by (elim exE conjE)
  ultimately show ?thesis using type_convert_wellformed [of "demo_mq ''8''" parse_i64 t] by blast
qed

end
