(* ===== verification/Raft_Fsm.thy ===== *)
theory Raft_Fsm
  imports Hp_Engine
begin

text \<open>
  The replicated state machine of \<open>crates/match-raft-fsm/src/lib.rs\<close>: the byte format of the
  log entries and of the reported events, the idempotent application of an entry, and
  snapshots by replay.  Consensus (\<open>multiraft\<close>) decides which entries are applied and is not
  part of this crate; \<open>bincode\<close> is a parameter.  A slice or index out of range panics, which is
  the value \<^const>\<open>None\<close>.
\<close>

section \<open>Log entries\<close>

definition side_byte :: "side \<Rightarrow> u8" where
  "side_byte s = (if s = Buy then 0 else 1)"

definition byte_side :: "u8 \<Rightarrow> side" where
  "byte_side b = (if b = 0 then Buy else Sell)"

fun encode_command :: "hp_command \<Rightarrow> nat \<Rightarrow> bytes" where
  "encode_command (Limit s price_tick qty_lot ts client_id) idem =
     [0, side_byte s] @ le_bytes 8 (i64_pat price_tick) @ le_bytes 8 (i64_pat qty_lot) @ le_bytes 8 ts @
     le_bytes 8 client_id @ le_bytes 8 idem"
| "encode_command (Cancel oid) idem = [1] @ le_bytes 8 oid @ le_bytes 8 idem"
| "encode_command (Market s qty_lot ts max_fills client_id) idem =
     [2, side_byte s] @ le_bytes 8 (i64_pat qty_lot) @ le_bytes 8 ts @
     le_bytes 4 (case max_fills of None \<Rightarrow> 0 | Some n \<Rightarrow> n) @ le_bytes 8 client_id @ le_bytes 8 idem"

definition slice :: "bytes \<Rightarrow> nat \<Rightarrow> nat \<Rightarrow> bytes option" where
  "slice p a b = (if b \<le> length p then Some (take (b - a) (drop a p)) else None)"

definition index_at :: "bytes \<Rightarrow> nat \<Rightarrow> u8 option" where
  "index_at p i = (if i < length p then Some (p ! i) else None)"

definition u_at :: "bytes \<Rightarrow> nat \<Rightarrow> nat \<Rightarrow> nat option" where
  "u_at p a b = map_option le_val (slice p a b)"

definition i64_at :: "bytes \<Rightarrow> nat \<Rightarrow> nat \<Rightarrow> int option" where
  "i64_at p a b = map_option i64_of_pat (u_at p a b)"

definition decode_command :: "bytes \<Rightarrow> (nat \<times> hp_command) option" where
  "decode_command p =
     do {
       tag \<leftarrow> index_at p 0;
       if tag = 0 then do {
         sb \<leftarrow> index_at p 1;
         price \<leftarrow> i64_at p 2 10;
         qty \<leftarrow> i64_at p 10 18;
         ts \<leftarrow> u_at p 18 26;
         client \<leftarrow> u_at p 26 34;
         idem \<leftarrow> u_at p 34 42;
         Some (idem, Limit (byte_side sb) price qty ts client)
       } else if tag = 1 then do {
         oid \<leftarrow> u_at p 1 9;
         idem \<leftarrow> u_at p 9 17;
         Some (idem, Cancel oid)
       } else do {
         sb \<leftarrow> index_at p 1;
         qty \<leftarrow> i64_at p 2 10;
         ts \<leftarrow> u_at p 10 18;
         mf \<leftarrow> u_at p 18 22;
         client \<leftarrow> u_at p 22 30;
         idem \<leftarrow> u_at p 30 38;
         Some (idem, Market (byte_side sb) qty ts (if mf = 0 then None else Some mf) client)
       }
     }"

section \<open>Events\<close>

fun encode_event :: "hp_event \<Rightarrow> bytes" where
  "encode_event (Fill mid tid mc tc price qty mo topen) =
     [0] @ le_bytes 8 mid @ le_bytes 8 tid @ le_bytes 8 mc @ le_bytes 8 tc @ le_bytes 8 (i64_pat price) @
     le_bytes 8 (i64_pat qty) @ le_bytes 8 (i64_pat mo) @ le_bytes 8 (i64_pat topen)"
| "encode_event (Rest oid client s price qty) =
     [1] @ le_bytes 8 oid @ le_bytes 8 client @ [side_byte s] @ le_bytes 8 (i64_pat price) @ le_bytes 8 (i64_pat qty)"
| "encode_event (Revoke oid client reason) = [2] @ le_bytes 8 oid @ le_bytes 8 client @ le_bytes 1 reason"

definition encode_events :: "hp_event list \<Rightarrow> bytes" where
  "encode_events evs = concat (map encode_event evs)"

section \<open>State\<close>

record match_state =
  ms_engine :: hp_engine
  ms_cmds :: bytes
  ms_idem :: "nat set"
  ms_fills :: "64 word"
  ms_revokes :: "64 word"

definition state_default :: match_state where
  "state_default = \<lparr>ms_engine = engine_new, ms_cmds = [], ms_idem = {}, ms_fills = 0, ms_revokes = 0\<rparr>"

text \<open>The engine step with the counters, shared by \<open>apply\<close> and \<open>replay_all\<close>.\<close>

definition run_cmd :: "hp_command \<Rightarrow> match_state \<Rightarrow> match_state option" where
  "run_cmd cmd st =
     map_option (\<lambda>e. st\<lparr>ms_engine := e,
         ms_fills := ms_fills st + of_nat (length (filter is_Fill (events e))),
         ms_revokes := ms_revokes st + of_nat (length (filter is_Revoke (events e)))\<rparr>)
       (on_order cmd (ms_engine st))"

text \<open>\<open>replay_all\<close> over the bytes not yet read; \<open>ms_cmds\<close> is put back by the caller.\<close>

function replay_from :: "bytes \<Rightarrow> match_state \<Rightarrow> match_state option" where
  "replay_from bs st =
     (if length bs < 4 then Some st
      else let len = le_val (take 4 bs)
           in if length bs < 4 + len then Some st
              else do {
                (idem, cmd) \<leftarrow> decode_command (take len (drop 4 bs));
                st' \<leftarrow> run_cmd cmd (st\<lparr>ms_idem := insert idem (ms_idem st)\<rparr>);
                replay_from (drop (4 + len) bs) st'
              })"
  by pat_completeness auto
termination by (relation "measure (\<lambda>(bs, st). length bs)") auto

declare replay_from.simps [simp del]

definition replay_all :: "match_state \<Rightarrow> match_state option" where
  "replay_all st = map_option (\<lambda>st'. st'\<lparr>ms_cmds := ms_cmds st\<rparr>) (replay_from (ms_cmds st) (st\<lparr>ms_cmds := []\<rparr>))"

type_synonym match_fsm = "nat \<Rightarrow> match_state option"

definition fsm_new :: match_fsm where
  "fsm_new = (\<lambda>_. None)"

definition group_state :: "match_fsm \<Rightarrow> nat \<Rightarrow> match_state" where
  "group_state fsm g = (case fsm g of None \<Rightarrow> state_default | Some st \<Rightarrow> st)"

definition apply_state :: "bytes \<Rightarrow> match_state \<Rightarrow> (match_state \<times> bytes) option" where
  "apply_state data st =
     do {
       (idem, cmd) \<leftarrow> decode_command data;
       if idem \<in> ms_idem st then Some (st, [])
       else do {
         let st1 = st\<lparr>ms_idem := insert idem (ms_idem st),
                      ms_cmds := ms_cmds st @ le_bytes 4 (length data) @ data\<rparr>;
         st2 \<leftarrow> run_cmd cmd st1;
         Some (st2, encode_events (events (ms_engine st2)))
       }
     }"

definition apply_entry :: "nat \<Rightarrow> bytes \<Rightarrow> match_fsm \<Rightarrow> (match_fsm \<times> bytes) option" where
  "apply_entry g data fsm =
     map_option (\<lambda>(st, out). (fsm(g \<mapsto> st), out)) (apply_state data (group_state fsm g))"

record match_summary =
  applied_orders :: nat
  sum_fills :: "64 word"
  sum_revokes :: "64 word"
  sum_best_bid :: "int option"
  sum_best_ask :: "int option"
  live_orders :: nat

definition summary :: "match_fsm \<Rightarrow> nat \<Rightarrow> match_summary option" where
  "summary fsm g =
     map_option (\<lambda>s. \<lparr>applied_orders = card (ms_idem s), sum_fills = ms_fills s, sum_revokes = ms_revokes s,
         sum_best_bid = best_bid (book (ms_engine s)), sum_best_ask = best_ask (book (ms_engine s)),
         live_orders = live_len (store (book (ms_engine s)))\<rparr>) (fsm g)"

datatype fsm_error = DecodeErr nat | BincodeErr string

definition snapshot :: "(bytes \<times> nat set \<Rightarrow> string + bytes) \<Rightarrow> match_fsm \<Rightarrow> nat \<Rightarrow> fsm_error + bytes" where
  "snapshot ser fsm g =
     (case fsm g of
        None \<Rightarrow> Inl (DecodeErr g)
      | Some st \<Rightarrow> (case ser (ms_cmds st, ms_idem st) of Inl e \<Rightarrow> Inl (BincodeErr e) | Inr b \<Rightarrow> Inr b))"

text \<open>The outer \<^const>\<open>None\<close> is a panic of the replay.\<close>

definition restore_group :: "(bytes \<Rightarrow> string + bytes \<times> nat set) \<Rightarrow> nat \<Rightarrow> bytes \<Rightarrow> match_fsm \<Rightarrow> (fsm_error + match_fsm) option" where
  "restore_group de g snap fsm =
     (case de snap of
        Inl e \<Rightarrow> Some (Inl (BincodeErr e))
      | Inr (cmds, idem) \<Rightarrow>
          map_option (\<lambda>st. Inr (fsm(g \<mapsto> st)))
            (replay_all \<lparr>ms_engine = engine_new, ms_cmds = cmds, ms_idem = idem, ms_fills = 0, ms_revokes = 0\<rparr>))"

end
