(* ===== verification/Raft_Props.thy ===== *)
theory Raft_Props
  imports Raft_Fsm Hp_Props
begin

text \<open>
  Properties of the replicated state machine: the command format round-trips, an entry is
  applied once, no entry that decodes makes the machine panic, and a snapshot restores the
  state it was taken from.
\<close>

section \<open>Formats\<close>

fun cmd_wire :: "hp_command \<Rightarrow> bool" where
  "cmd_wire (Limit s price qty ts client) = (i64_ok price \<and> i64_ok qty \<and> ts < 2 ^ 64 \<and> client < 2 ^ 64)"
| "cmd_wire (Cancel oid) = (oid < 2 ^ 64)"
| "cmd_wire (Market s qty ts mx client) = (i64_ok qty \<and> ts < 2 ^ 64 \<and> u32_opt mx \<and> client < 2 ^ 64)"

text \<open>What the format can say: a limit of zero fills reads back as no limit.\<close>

fun canon :: "hp_command \<Rightarrow> hp_command" where
  "canon (Market s qty ts mx client) = Market s qty ts (if mx = Some 0 then None else mx) client"
| "canon cmd = cmd"

lemma side_byte [simp]: "byte_side (side_byte s) = s"
  by (cases s) (simp_all add: byte_side_def side_byte_def)

lemmas at_defs = index_at_def u_at_def i64_at_def slice_def

lemma decode_encode:
  assumes "cmd_wire cmd" and "idem < 2 ^ 64"
  shows "decode_command (encode_command cmd idem) = Some (idem, canon cmd)"
proof (cases cmd)
  case (Limit s price qty ts client)
  then show ?thesis using assms by (simp add: decode_command_def at_defs)
next
  case (Cancel oid)
  then show ?thesis using assms by (simp add: decode_command_def at_defs)
next
  case (Market s qty ts mx client)
  then show ?thesis using assms by (auto simp: decode_command_def at_defs u32_opt_def split: option.splits)
qed

lemma decode_typed:
  assumes "decode_command p = Some (idem, cmd)"
  shows "cmd_typed cmd"
proof -
  have u: "n < 2 ^ 32" if "u_at p 18 22 = Some n" for n
  proof -
    have n: "n = le_val (take 4 (drop 18 p))" "22 \<le> length p"
      using that by (auto simp: u_at_def slice_def split: if_splits)
    then have "length (take 4 (drop 18 p)) = 4" by simp
    then show ?thesis using le_val_bound [of "take 4 (drop 18 p)"] n(1) by simp
  qed
  have "i64_ok q" if "i64_at p a b = Some q" for a b q using that by (auto simp: i64_at_def i64_of_pat_def)
  then show ?thesis
    using assms u by (auto simp: decode_command_def Option.bind_eq_Some_conv u32_opt_def split: if_splits)
qed

section \<open>Replay\<close>

definition frame :: "bytes \<Rightarrow> bytes" where
  "frame d = le_bytes 4 (length d) @ d"

definition step_entry :: "bytes \<Rightarrow> match_state \<Rightarrow> match_state option" where
  "step_entry d st = do { (idem, cmd) \<leftarrow> decode_command d; run_cmd cmd (st\<lparr>ms_idem := insert idem (ms_idem st)\<rparr>) }"

fun replay_seq :: "bytes list \<Rightarrow> match_state \<Rightarrow> match_state option" where
  "replay_seq [] st = Some st"
| "replay_seq (d # ds) st = Option.bind (step_entry d st) (replay_seq ds)"

lemma replay_seq_append: "replay_seq (ds @ es) st = Option.bind (replay_seq ds st) (replay_seq es)"
  by (induction ds arbitrary: st) (auto split: Option.bind_splits)

lemma replay_from_frame:
  assumes "length d < 2 ^ 32"
  shows "replay_from (frame d @ bs) st = Option.bind (step_entry d st) (replay_from bs)"
proof -
  have l: "le_val (le_bytes 4 (length d)) = length d" using assms by simp
  show ?thesis
    by (subst replay_from.simps) (auto simp: frame_def l step_entry_def Let_def split: Option.bind_splits prod.splits)
qed

lemma replay_from_frames:
  "list_all (\<lambda>d. length d < 2 ^ 32) ds \<Longrightarrow> replay_from (concat (map frame ds)) st = replay_seq ds st"
proof (induction ds arbitrary: st)
  case Nil
  then show ?case by (simp add: replay_from.simps)
next
  case (Cons d ds)
  then show ?case by (simp add: replay_from_frame cong: option.case_cong split: Option.bind_split)
qed

lemma run_cmd_simps:
  assumes "run_cmd cmd st = Some st'"
  shows "ms_idem st' = ms_idem st" and "ms_cmds st' = ms_cmds st"
  using assms by (auto simp: run_cmd_def)

lemma run_cmd_log:
  "run_cmd cmd (st\<lparr>ms_cmds := c, ms_idem := I\<rparr>) = map_option (\<lambda>s. s\<lparr>ms_cmds := c, ms_idem := I\<rparr>) (run_cmd cmd st)"
  by (cases "on_order cmd (ms_engine st)") (simp_all add: run_cmd_def)

lemma step_entry_log:
  "step_entry d (st\<lparr>ms_cmds := c, ms_idem := I \<union> ms_idem st\<rparr>) =
   map_option (\<lambda>s. s\<lparr>ms_cmds := c, ms_idem := I \<union> ms_idem s\<rparr>) (step_entry d st)"
proof (cases "decode_command d")
  case (Some x)
  obtain idem cmd where x: "x = (idem, cmd)" by (cases x)
  let ?st = "st\<lparr>ms_idem := insert idem (ms_idem st)\<rparr>"
  have "run_cmd cmd (?st\<lparr>ms_cmds := c, ms_idem := insert idem (I \<union> ms_idem st)\<rparr>) =
      map_option (\<lambda>s. s\<lparr>ms_cmds := c, ms_idem := I \<union> ms_idem s\<rparr>) (run_cmd cmd ?st)"
    unfolding run_cmd_log using run_cmd_simps(1) [of cmd ?st] by (cases "run_cmd cmd ?st") simp_all
  then show ?thesis using Some x by (simp add: step_entry_def)
qed (simp add: step_entry_def)

lemma replay_seq_log:
  "replay_seq ds (st\<lparr>ms_cmds := c, ms_idem := I \<union> ms_idem st\<rparr>) =
   map_option (\<lambda>s. s\<lparr>ms_cmds := c, ms_idem := I \<union> ms_idem s\<rparr>) (replay_seq ds st)"
proof (induction ds arbitrary: st)
  case (Cons d ds)
  show ?case using Cons by (cases "step_entry d st") (simp_all add: step_entry_log)
qed simp

section \<open>Reachable machines\<close>

definition st_ok :: "match_state \<Rightarrow> bool" where
  "st_ok st \<longleftrightarrow> reach False (ms_engine st) \<and>
     (\<exists>ds. ms_cmds st = concat (map frame ds) \<and> list_all (\<lambda>d. length d < 2 ^ 32) ds \<and>
       replay_seq ds state_default = Some (st\<lparr>ms_cmds := []\<rparr>))"

lemma st_ok_default: "st_ok state_default"
  unfolding st_ok_def by (intro conjI exI [of _ "[]"]) (simp_all add: state_default_def reach_new)

lemma run_cmd_total:
  assumes "reach False (ms_engine st)" and "cmd_typed cmd"
  shows "\<exists>st'. run_cmd cmd st = Some st' \<and> reach False (ms_engine st')"
proof -
  obtain e where "on_order cmd (ms_engine st) = Some e"
    using on_order_keeps [OF reach_inv [OF assms(1)], of cmd] assms(2) by auto
  then show ?thesis using reach_step [OF assms, of e] by (simp add: run_cmd_def)
qed

lemma apply_state_ok:
  assumes "st_ok st" and "length d < 2 ^ 32" and "apply_state d st = Some (st', out)"
  shows "st_ok st'"
proof -
  obtain idem cmd where dc: "decode_command d = Some (idem, cmd)" using assms(3) by (auto simp: apply_state_def Option.bind_eq_Some_conv)
  obtain ds where ds: "ms_cmds st = concat (map frame ds)" "list_all (\<lambda>d. length d < 2 ^ 32) ds"
    "replay_seq ds state_default = Some (st\<lparr>ms_cmds := []\<rparr>)" and r: "reach False (ms_engine st)"
    using assms(1) by (auto simp: st_ok_def)
  show ?thesis
  proof (cases "idem \<in> ms_idem st")
    case True
    then show ?thesis using assms(1,3) dc by (simp add: apply_state_def)
  next
    case False
    let ?I = "insert idem (ms_idem st)"
    let ?st1 = "st\<lparr>ms_idem := ?I, ms_cmds := ms_cmds st @ frame d\<rparr>"
    have st': "run_cmd cmd ?st1 = Some st'" using assms(3) dc False by (auto simp: apply_state_def frame_def Option.bind_eq_Some_conv)
    have "run_cmd cmd (?st1\<lparr>ms_cmds := [], ms_idem := ?I\<rparr>) = Some (st'\<lparr>ms_cmds := []\<rparr>)"
      unfolding run_cmd_log using st' run_cmd_simps(1) [OF st'] by simp
    then have "step_entry d (st\<lparr>ms_cmds := []\<rparr>) = Some (st'\<lparr>ms_cmds := []\<rparr>)" using dc by (simp add: step_entry_def)
    then have "replay_seq (ds @ [d]) state_default = Some (st'\<lparr>ms_cmds := []\<rparr>)" using ds(3) by (simp add: replay_seq_append)
    moreover have "ms_cmds st' = concat (map frame (ds @ [d]))" using run_cmd_simps(2) [OF st'] ds(1) by simp
    moreover have "reach False (ms_engine st')"
      using run_cmd_total [of ?st1 cmd] r decode_typed [OF dc] st' by simp
    ultimately show ?thesis using ds(2) assms(2) unfolding st_ok_def by (intro conjI exI [of _ "ds @ [d]"]) simp_all
  qed
qed

lemma restore_same:
  assumes "st_ok st"
  shows "replay_all \<lparr>ms_engine = engine_new, ms_cmds = ms_cmds st, ms_idem = ms_idem st, ms_fills = 0, ms_revokes = 0\<rparr> = Some st"
proof -
  obtain ds where ds: "ms_cmds st = concat (map frame ds)" "list_all (\<lambda>d. length d < 2 ^ 32) ds"
    "replay_seq ds state_default = Some (st\<lparr>ms_cmds := []\<rparr>)"
    using assms by (auto simp: st_ok_def)
  have "replay_seq ds (state_default\<lparr>ms_cmds := [], ms_idem := ms_idem st \<union> ms_idem state_default\<rparr>) =
      Some (st\<lparr>ms_cmds := []\<rparr>)"
    unfolding replay_seq_log using ds(3) by simp
  then show ?thesis
    using replay_from_frames [OF ds(2)] ds(1) by (simp add: replay_all_def state_default_def)
qed

definition bincode_ok :: "(bytes \<times> nat set \<Rightarrow> string + bytes) \<Rightarrow> (bytes \<Rightarrow> string + bytes \<times> nat set) \<Rightarrow> bool" where
  "bincode_ok ser de \<longleftrightarrow> (\<forall>x b. ser x = Inr b \<longrightarrow> de b = Inr x)"

inductive fsm_reach :: "(bytes \<times> nat set \<Rightarrow> string + bytes) \<Rightarrow> (bytes \<Rightarrow> string + bytes \<times> nat set) \<Rightarrow> match_fsm \<Rightarrow> bool"
  for ser de where
  fsm_reach_new: "fsm_reach ser de fsm_new"
| fsm_reach_apply: "fsm_reach ser de fsm \<Longrightarrow> length d < 2 ^ 32 \<Longrightarrow> apply_entry g d fsm = Some (fsm', out) \<Longrightarrow> fsm_reach ser de fsm'"
| fsm_reach_restore: "fsm_reach ser de fsm \<Longrightarrow> fsm_reach ser de src \<Longrightarrow> snapshot ser src g = Inr b \<Longrightarrow>
    restore_group de g b fsm = Some (Inr fsm') \<Longrightarrow> fsm_reach ser de fsm'"

lemma snapshot_restore:
  assumes "bincode_ok ser de" and "\<And>st. src g = Some st \<Longrightarrow> st_ok st" and "snapshot ser src g = Inr b"
  shows "\<exists>st. src g = Some st \<and> restore_group de g b fsm = Some (Inr (fsm(g \<mapsto> st)))"
proof -
  obtain st where st: "src g = Some st" "ser (ms_cmds st, ms_idem st) = Inr b"
    using assms(3) by (auto simp: snapshot_def split: option.splits sum.splits)
  have "de b = Inr (ms_cmds st, ms_idem st)" using assms(1) st(2) by (simp add: bincode_ok_def)
  then show ?thesis using st(1) restore_same [OF assms(2) [OF st(1)]] by (simp add: restore_group_def)
qed

lemma fsm_reach_ok:
  assumes "bincode_ok ser de" and "fsm_reach ser de fsm"
  shows "fsm g = Some st \<Longrightarrow> st_ok st"
  using assms(2)
proof (induction arbitrary: g st rule: fsm_reach.induct)
  case (fsm_reach_apply fsm d g' fsm' out)
  have "st_ok (group_state fsm g')" using fsm_reach_apply.IH st_ok_default by (simp add: group_state_def split: option.split)
  then show ?case
    using fsm_reach_apply apply_state_ok [of "group_state fsm g'" d]
    by (auto simp: apply_entry_def split: if_splits)
next
  case (fsm_reach_restore fsm src g' b fsm')
  have ok: "src g' = Some x \<Longrightarrow> st_ok x" for x using fsm_reach_restore.IH(2) by blast
  obtain x where "src g' = Some x" "fsm' = fsm(g' \<mapsto> x)"
    using snapshot_restore [OF assms(1) ok fsm_reach_restore.hyps(3), where fsm = fsm] fsm_reach_restore.hyps(4) by auto
  then show ?case using fsm_reach_restore.IH(1) fsm_reach_restore.prems ok by (auto split: if_splits)
qed (simp add: fsm_new_def)

section \<open>Event format\<close>

text \<open>The reader of the documented event layout.\<close>

definition split_at :: "nat \<Rightarrow> bytes \<Rightarrow> (nat \<times> bytes) option" where
  "split_at n bs = (if n \<le> length bs then Some (le_val (take n bs), drop n bs) else None)"

definition parse_event :: "bytes \<Rightarrow> (hp_event \<times> bytes) option" where
  "parse_event bs =
     do {
       (tag, bs) \<leftarrow> split_at 1 bs;
       (a, bs) \<leftarrow> split_at 8 bs;
       (b, bs) \<leftarrow> split_at 8 bs;
       if tag = 0 then do {
         (c, bs) \<leftarrow> split_at 8 bs; (d, bs) \<leftarrow> split_at 8 bs;
         (p, bs) \<leftarrow> split_at 8 bs; (q, bs) \<leftarrow> split_at 8 bs; (mo, bs) \<leftarrow> split_at 8 bs; (to, bs) \<leftarrow> split_at 8 bs;
         Some (Fill a b c d (i64_of_pat p) (i64_of_pat q) (i64_of_pat mo) (i64_of_pat to), bs)
       } else if tag = 1 then do {
         (sb, bs) \<leftarrow> split_at 1 bs; (p, bs) \<leftarrow> split_at 8 bs; (q, bs) \<leftarrow> split_at 8 bs;
         Some (Rest a b (if sb = 0 then Buy else Sell) (i64_of_pat p) (i64_of_pat q), bs)
       } else do {
         (r, bs) \<leftarrow> split_at 1 bs;
         Some (Revoke a b r, bs)
       }
     }"

fun event_wire :: "hp_event \<Rightarrow> bool" where
  "event_wire (Fill a b c d p q mo topen) =
     (a < 2 ^ 64 \<and> b < 2 ^ 64 \<and> c < 2 ^ 64 \<and> d < 2 ^ 64 \<and> i64_ok p \<and> i64_ok q \<and> i64_ok mo \<and> i64_ok topen)"
| "event_wire (Rest a b s p q) = (a < 2 ^ 64 \<and> b < 2 ^ 64 \<and> i64_ok p \<and> i64_ok q)"
| "event_wire (Revoke a b r) = (a < 2 ^ 64 \<and> b < 2 ^ 64 \<and> r < 256)"

lemma split_at_le [simp]: "x < 256 ^ n \<Longrightarrow> split_at n (le_bytes n x @ bs) = Some (x, bs)"
  by (simp add: split_at_def)

lemma split_at_8 [simp]:
  "x < 18446744073709551616 \<Longrightarrow> split_at 8 (le_bytes 8 x @ bs) = Some (x, bs)"
  "split_at 8 (le_bytes 8 (i64_pat y) @ bs) = Some (i64_pat y, bs)"
  using split_at_le [of x 8 bs] split_at_le [OF i64_pat_bound, of y bs] by simp_all

lemma split_at_1 [simp]: "split_at 1 (b # bs) = Some (unat b, bs)" "split_at (Suc 0) (b # bs) = Some (unat b, bs)"
  by (simp_all add: split_at_def)

lemma parse_encode_event:
  assumes "event_wire ev"
  shows "parse_event (encode_event ev @ bs) = Some (ev, bs)"
proof (cases ev)
  case (Rest a b s p q)
  then show ?thesis using assms by (cases s) (simp_all add: parse_event_def side_byte_def)
next
  case (Revoke a b r)
  then show ?thesis using assms by (simp add: parse_event_def unat_of_nat)
qed (use assms in \<open>simp add: parse_event_def\<close>)

lemma encode_event_ne: "encode_event ev \<noteq> []"
  by (cases ev) simp_all

lemma encode_events_simps [simp]:
  "encode_events [] = []" "encode_events (ev # evs) = encode_event ev @ encode_events evs"
  "encode_event ev @ bs \<noteq> []" "[] \<noteq> encode_event ev @ bs"
  using encode_event_ne [of ev] by (auto simp: encode_events_def)

section \<open>The properties\<close>

text \<open>
  The command format round-trips: every command of the wire types with its idempotency
  key is read back as it was written, except that a limit of zero fills becomes no limit.
\<close>
theorem raft_command_roundtrip:
  assumes "cmd_wire cmd" and "idem < 2 ^ 64"
  shows "decode_command (encode_command cmd idem) = Some (idem, canon cmd) \<and> (c_max_fills cmd \<noteq> Some 0 \<or> \<not> is_Market cmd \<longrightarrow> canon cmd = cmd)"
  using decode_encode [OF assms] by (cases cmd) auto

theorem raft_command_roundtrip_witness:
  "decode_command (encode_command (Limit Sell (- 5) 7 3 9) 11) = Some (11, Limit Sell (- 5) 7 3 9)"
  using raft_command_roundtrip [of "Limit Sell (- 5) 7 3 9" 11] by (simp add: i64_ok_def)

text \<open>
  Consequence of the format: a market order that may fill nothing (\<open>max_fills = Some 0\<close>)
  passes through the log as a market order without a limit.
\<close>
theorem raft_zero_fills_lost:
  assumes "i64_ok qty" and "ts < 2 ^ 64" and "client < 2 ^ 64" and "idem < 2 ^ 64"
  shows "decode_command (encode_command (Market s qty ts (Some 0) client) idem) = Some (idem, Market s qty ts None client)"
  using decode_encode [of "Market s qty ts (Some 0) client" idem] assms by (simp add: u32_opt_def)

theorem raft_zero_fills_lost_witness:
  "decode_command (encode_command (Market Buy 4 3 (Some 0) 9) 11) = Some (11, Market Buy 4 3 None 9)"
  using raft_zero_fills_lost [of 4 3 9 11 Buy] by (simp add: i64_ok_def)

text \<open>
  Effects are unambiguous: two event lists of the wire types with the same encoding are
  the same, so the caller of \<open>propose\<close> can read the events back.
\<close>
theorem raft_events_unique:
  assumes "list_all event_wire evs" and "list_all event_wire evs'" and "encode_events evs = encode_events evs'"
  shows "evs = evs'"
  using assms
proof (induction evs arbitrary: evs')
  case Nil
  show ?case
  proof (cases evs')
    case (Cons ev es)
    then show ?thesis using Nil.prems(3) by (simp del: append_is_Nil_conv Nil_is_append_conv)
  qed simp
next
  case (Cons ev evs)
  obtain ev' es where e: "evs' = ev' # es"
    using Cons.prems(3) by (cases evs') (simp_all del: append_is_Nil_conv Nil_is_append_conv)
  have eq: "encode_event ev @ encode_events evs = encode_event ev' @ encode_events es"
    using Cons.prems(3) unfolding e encode_events_simps .
  have p: "parse_event (encode_event ev @ encode_events evs) = Some (ev, encode_events evs)"
    "parse_event (encode_event ev' @ encode_events es) = Some (ev', encode_events es)"
    using Cons.prems(1,2) e by (simp_all add: parse_encode_event)
  have "Some (ev, encode_events evs) = Some (ev', encode_events es)" by (rule trans [OF p(1) [symmetric, unfolded eq] p(2)])
  then have "ev = ev'" "encode_events evs = encode_events es" by simp_all
  then show ?case using Cons.IH [of es] Cons.prems(1,2) e by simp
qed

theorem raft_events_unique_witness:
  "encode_events [Revoke 1 2 1] \<noteq> encode_events [Revoke 1 2 0]"
  using raft_events_unique [of "[Revoke 1 2 1]" "[Revoke 1 2 0]"] by auto

lemma apply_total:
  assumes "bincode_ok ser de" and "fsm_reach ser de fsm"
  shows "apply_entry g d fsm = None \<longleftrightarrow> decode_command d = None"
proof (cases "decode_command d")
  case (Some x)
  obtain idem cmd where x: "x = (idem, cmd)" by (cases x)
  have "st_ok (group_state fsm g)" using fsm_reach_ok [OF assms] st_ok_default by (simp add: group_state_def split: option.split)
  then have r: "reach False (ms_engine (group_state fsm g))" by (simp add: st_ok_def)
  have "apply_state d (group_state fsm g) \<noteq> None"
    using run_cmd_total [of "(group_state fsm g)\<lparr>ms_idem := insert idem (ms_idem (group_state fsm g)),
        ms_cmds := ms_cmds (group_state fsm g) @ le_bytes 4 (length d) @ d\<rparr>" cmd] r decode_typed [of d idem cmd] Some x
    by (auto simp: apply_state_def)
  then show ?thesis using Some by (simp add: apply_entry_def)
qed (simp add: apply_entry_def apply_state_def)

text \<open>A concrete serializer: a length, the bytes, and the keys in increasing order.\<close>

definition demo_ser :: "bytes \<times> nat set \<Rightarrow> string + bytes" where
  "demo_ser x =
     (if finite (snd x) \<and> (\<forall>n \<in> snd x. n < 256 ^ 8) \<and> length (fst x) < 256 ^ 8
      then Inr (le_bytes 8 (length (fst x)) @ fst x @ concat (map (le_bytes 8) (sorted_list_of_set (snd x))))
      else Inl ''size'')"

fun demo_keys :: "nat \<Rightarrow> bytes \<Rightarrow> nat list" where
  "demo_keys 0 bs = []"
| "demo_keys (Suc n) bs = (if bs = [] then [] else le_val (take 8 bs) # demo_keys n (drop 8 bs))"

definition demo_de :: "bytes \<Rightarrow> string + bytes \<times> nat set" where
  "demo_de b = (let n = le_val (take 8 b); r = drop 8 b in Inr (take n r, set (demo_keys (length r) (drop n r))))"

lemma demo_keys_concat:
  "\<forall>n \<in> set ns. n < 256 ^ 8 \<Longrightarrow> length ns \<le> k \<Longrightarrow> demo_keys k (concat (map (le_bytes 8) ns)) = ns"
proof (induction ns arbitrary: k)
  case Nil
  then show ?case by (cases k) simp_all
next
  case (Cons n ns)
  have "le_bytes 8 n \<noteq> []" using length_le_bytes [of 8 n] by (metis list.size(3) zero_neq_numeral)
  moreover have "le_val (le_bytes 8 n) = n" using Cons.prems(1) by (intro le_val_le_bytes) simp
  ultimately show ?case using Cons by (cases k) simp_all
qed

lemma demo_bincode: "bincode_ok demo_ser demo_de"
proof -
  have "demo_de b = Inr x" if "demo_ser x = Inr b" for x b
  proof -
    let ?ns = "sorted_list_of_set (snd x)"
    have ok: "finite (snd x)" "\<forall>n \<in> snd x. n < 256 ^ 8" "length (fst x) < 256 ^ 8"
      and b: "b = le_bytes 8 (length (fst x)) @ fst x @ concat (map (le_bytes 8) ?ns)"
      using that unfolding demo_ser_def by (auto split: if_splits)
    have v: "le_val (le_bytes 8 (length (fst x))) = length (fst x)" by (rule le_val_le_bytes [OF ok(3)])
    have "length ?ns \<le> length (concat (map (le_bytes 8) ?ns))" by (induction ?ns) (simp_all add: length_concat comp_def sum_list_triv)
    then have "demo_keys (length (fst x @ concat (map (le_bytes 8) ?ns))) (concat (map (le_bytes 8) ?ns)) = ?ns"
      using ok by (intro demo_keys_concat) auto
    then show ?thesis using ok(1) v by (cases x) (simp add: demo_de_def b Let_def)
  qed
  then show ?thesis by (simp add: bincode_ok_def)
qed

fun apply_all :: "(nat \<times> bytes) list \<Rightarrow> match_fsm \<Rightarrow> match_fsm option" where
  "apply_all [] fsm = Some fsm"
| "apply_all ((g, d) # ds) fsm = Option.bind (apply_entry g d fsm) (\<lambda>(fsm', _). apply_all ds fsm')"

lemma apply_state_key:
  assumes "apply_state d st = Some (st', out)"
  shows "\<exists>idem cmd. decode_command d = Some (idem, cmd) \<and> ms_idem st' = insert idem (ms_idem st)"
proof -
  obtain idem cmd where d: "decode_command d = Some (idem, cmd)"
    using assms unfolding apply_state_def by (cases "decode_command d") auto
  let ?st1 = "st\<lparr>ms_idem := insert idem (ms_idem st), ms_cmds := ms_cmds st @ le_bytes 4 (length d) @ d\<rparr>"
  have "ms_idem st' = insert idem (ms_idem st)"
  proof (cases "idem \<in> ms_idem st")
    case True
    then show ?thesis using assms d by (simp add: apply_state_def insert_absorb)
  next
    case False
    then have "run_cmd cmd ?st1 = Some st'" using assms d by (cases "run_cmd cmd ?st1") (simp_all add: apply_state_def)
    then show ?thesis by (simp add: run_cmd_simps(1))
  qed
  then show ?thesis using d by blast
qed

lemma apply_entry_key:
  assumes "apply_entry g d fsm = Some (fsm', out)"
  shows "\<exists>idem cmd. decode_command d = Some (idem, cmd) \<and>
    (\<forall>h. ms_idem (group_state fsm' h) = (if h = g then insert idem (ms_idem (group_state fsm h)) else ms_idem (group_state fsm h)))"
proof -
  obtain st where "apply_state d (group_state fsm g) = Some (st, out)" "fsm' = fsm(g \<mapsto> st)"
    using assms by (auto simp: apply_entry_def)
  then show ?thesis using apply_state_key [of d "group_state fsm g" st out] by (auto simp: group_state_def [of "fsm(g \<mapsto> st)"] group_state_def)
qed

lemma apply_all_keys: "apply_all ds fsm = Some fsm' \<Longrightarrow> ms_idem (group_state fsm h) \<subseteq> ms_idem (group_state fsm' h)"
proof (induction ds arbitrary: fsm)
  case (Cons x ds)
  obtain g d where x: "x = (g, d)" by (cases x)
  then obtain fsm1 out where f: "apply_entry g d fsm = Some (fsm1, out)" "apply_all ds fsm1 = Some fsm'"
    using Cons.prems by (cases "apply_entry g d fsm") auto
  have "ms_idem (group_state fsm h) \<subseteq> ms_idem (group_state fsm1 h)" using apply_entry_key [OF f(1)] by auto
  then show ?case using Cons.IH [OF f(2)] by blast
qed simp

lemma apply_entry_again:
  assumes "decode_command d = Some (idem, cmd)" and "idem \<in> ms_idem (group_state fsm g)" and "fsm g = Some st"
  shows "apply_entry g d fsm = Some (fsm, [])"
  using assms by (auto simp: apply_entry_def apply_state_def group_state_def)

text \<open>
  C23. An entry of the log is applied once: applied again after any further entries of any
  groups, it changes no group's engine, keys or log and reports no effects.
\<close>
theorem raft_apply_once:
  assumes "apply_entry g d fsm = Some (fsm1, out)" and "apply_all ds fsm1 = Some fsm2"
  shows "apply_entry g d fsm2 = Some (fsm2, [])"
proof -
  obtain idem cmd where d: "decode_command d = Some (idem, cmd)" "idem \<in> ms_idem (group_state fsm1 g)"
    using apply_entry_key [OF assms(1)] by auto
  then have k: "idem \<in> ms_idem (group_state fsm2 g)" using apply_all_keys [OF assms(2), of g] by blast
  then obtain st where "fsm2 g = Some st" by (cases "fsm2 g") (auto simp: group_state_def state_default_def)
  then show ?thesis by (rule apply_entry_again [OF d(1) k])
qed

theorem raft_apply_once_witness:
  "\<exists>fsm1 out fsm2. apply_entry 0 (encode_command (Cancel 5) 1) fsm_new = Some (fsm1, out) \<and>
    apply_all [(0, encode_command (Cancel 6) 2)] fsm1 = Some fsm2 \<and>
    apply_entry 0 (encode_command (Cancel 5) 1) fsm2 = Some (fsm2, [])"
proof -
  have d: "decode_command (encode_command (Cancel 5) 1) = Some (1, Cancel 5)" "decode_command (encode_command (Cancel 6) 2) = Some (2, Cancel 6)"
    using decode_encode [of "Cancel 5" 1] decode_encode [of "Cancel 6" 2] by simp_all
  then obtain fsm1 out where f1: "apply_entry 0 (encode_command (Cancel 5) 1) fsm_new = Some (fsm1, out)"
    by (auto simp: apply_entry_def apply_state_def group_state_def fsm_new_def state_default_def run_cmd_def simp del: encode_command.simps)
  have r: "fsm_reach demo_ser demo_de fsm1" using fsm_reach_apply [OF fsm_reach_new _ f1] by simp
  have "apply_entry 0 (encode_command (Cancel 6) 2) fsm1 \<noteq> None" using apply_total [OF demo_bincode r] d(2) by (simp del: encode_command.simps)
  then obtain fsm2 where f2: "apply_all [(0, encode_command (Cancel 6) 2)] fsm1 = Some fsm2" by (auto simp del: encode_command.simps)
  show ?thesis using f1 f2 raft_apply_once [OF f1 f2] by blast
qed

text \<open>
  C24. The state machine panics on an entry only if the entry is too short for its tag: in every
  reachable machine, an entry that decodes is applied.
\<close>
theorem raft_apply_total:
  assumes "bincode_ok ser de" and "fsm_reach ser de fsm"
  shows "apply_entry g d fsm = None \<longleftrightarrow> decode_command d = None"
  by (rule apply_total [OF assms])

theorem raft_apply_total_witness:
  "apply_entry 0 (encode_command (Limit Buy 10 3 1 7) 1) fsm_new \<noteq> None \<and> apply_entry 0 [0] fsm_new = None"
  using raft_apply_total [OF demo_bincode fsm_reach_new, of 0 "encode_command (Limit Buy 10 3 1 7) 1"]
    raft_apply_total [OF demo_bincode fsm_reach_new, of 0 "[0]"] decode_encode [of "Limit Buy 10 3 1 7" 1]
  by (simp add: i64_ok_def decode_command_def at_defs)

text \<open>
  C12. A snapshot restores the state it was taken from: the replayed log gives the same engine,
  keys, counters and log, so a replica that restores a group agrees with its source.
\<close>
theorem raft_snapshot_restores:
  assumes "bincode_ok ser de" and "fsm_reach ser de src" and "snapshot ser src g = Inr b"
  shows "\<exists>st. src g = Some st \<and> restore_group de g b fsm = Some (Inr (fsm(g \<mapsto> st)))"
  using snapshot_restore [OF assms(1) fsm_reach_ok [OF assms(1,2)] assms(3)] .

definition demo_fsm :: match_fsm where
  "demo_fsm = (case apply_entry 0 (encode_command (Limit Buy 10 3 1 7) 1) fsm_new of Some (f, out) \<Rightarrow> f | None \<Rightarrow> fsm_new)"

theorem raft_snapshot_restores_witness:
  "\<exists>b st. snapshot demo_ser demo_fsm 0 = Inr b \<and> demo_fsm 0 = Some st \<and>
    restore_group demo_de 0 b fsm_new = Some (Inr (fsm_new(0 \<mapsto> st)))"
proof -
  let ?d = "encode_command (Limit Buy 10 3 1 7) 1"
  have dec: "decode_command ?d = Some (1, Limit Buy 10 3 1 7)" using decode_encode [of "Limit Buy 10 3 1 7" 1] by (simp add: i64_ok_def)
  obtain st' where st': "run_cmd (Limit Buy 10 3 1 7) (state_default\<lparr>ms_idem := {1}, ms_cmds := le_bytes 4 (length ?d) @ ?d\<rparr>) = Some st'"
    using run_cmd_total [of "state_default\<lparr>ms_idem := {1}, ms_cmds := le_bytes 4 (length ?d) @ ?d\<rparr>" "Limit Buy 10 3 1 7"]
    by (auto simp: state_default_def reach_new i64_ok_def simp del: encode_command.simps)
  have ap: "apply_entry 0 ?d fsm_new = Some (fsm_new(0 \<mapsto> st'), encode_events (events (ms_engine st')))"
    using dec st' by (simp add: apply_entry_def apply_state_def group_state_def fsm_new_def state_default_def del: encode_command.simps)
  have f: "demo_fsm = fsm_new(0 \<mapsto> st')" unfolding demo_fsm_def ap by simp
  have "length ?d < 2 ^ 32" by simp
  then have r: "fsm_reach demo_ser demo_de demo_fsm" using fsm_reach_apply [OF fsm_reach_new _ ap] f by simp
  obtain b where b: "snapshot demo_ser demo_fsm 0 = Inr b"
    using run_cmd_simps [OF st'] by (simp add: f snapshot_def demo_ser_def)
  show ?thesis using raft_snapshot_restores [OF demo_bincode r b, of fsm_new] b by blast
qed

end
