(* ===== verification/Art_Index.thy ===== *)
theory Art_Index
  imports Level_Index
begin

text \<open>
  The byte-wise radix tree of \<open>crates/match-core-hp/src/art_index.rs\<close>, the alternative to the
  \<open>BTreeMap\<close> indexes behind the feature \<open>art\<close>.  A tick is stored under the eight big-endian
  bytes of its sign-flipped bit pattern.  An index out of the eight bytes would panic: such an
  access is the value \<^const>\<open>None\<close> of the outer option of insertion and removal.
\<close>

unbundle bit_operations_syntax

section \<open>The tree\<close>

definition key_bytes :: "int \<Rightarrow> bytes" where
  "key_bytes tick = be_bytes 8 (unat ((word_of_int tick :: 64 word) XOR push_bit 63 1))"

datatype art_node = Inner "(u8, art_node) btreemap" | Leaf int level

type_synonym art_map = "art_node option"

lemma child_size [termination_simp]:
  "map_of cs b = Some c \<Longrightarrow> size c < Suc (size_list (\<lambda>x. Suc (size (snd x))) cs)"
  by (induction cs) (auto split: if_splits)

lemma member_size [termination_simp]:
  "(b, c) \<in> set cs \<Longrightarrow> size c < Suc (size_list (\<lambda>x. Suc (size (snd x))) cs)"
  by (induction cs) auto

definition leaf_get :: "int \<Rightarrow> level \<Rightarrow> int \<Rightarrow> level option" where
  "leaf_get key v tick = (if key = tick then Some v else None)"

definition terminal_get :: "art_node \<Rightarrow> int \<Rightarrow> level option" where
  "terminal_get cur tick = (case cur of Leaf key v \<Rightarrow> if key = tick then Some v else None | Inner _ \<Rightarrow> None)"

fun art_get_from :: "art_node \<Rightarrow> bytes \<Rightarrow> nat \<Rightarrow> int \<Rightarrow> level option" where
  "art_get_from (Leaf key v) bs depth tick = leaf_get key v tick"
| "art_get_from (Inner children) bs depth tick =
     (case btm_get children (bs ! depth) of
        None \<Rightarrow> None
      | Some c \<Rightarrow> if depth = 7 then terminal_get c tick else art_get_from c bs (depth + 1) tick)"

definition art_get :: "art_map \<Rightarrow> int \<Rightarrow> level option" where
  "art_get m tick = (case m of None \<Rightarrow> None | Some root \<Rightarrow> art_get_from root (key_bytes tick) 0 tick)"

text \<open>\<open>get_mut\<close>: the tree after a write through the reference, if there is one.\<close>

definition leaf_write :: "int \<Rightarrow> level \<Rightarrow> int \<Rightarrow> (level \<Rightarrow> level) \<Rightarrow> art_node" where
  "leaf_write key v tick f = Leaf key (if key = tick then f v else v)"

definition terminal_write :: "art_node \<Rightarrow> int \<Rightarrow> (level \<Rightarrow> level) \<Rightarrow> art_node" where
  "terminal_write cur tick f = (case cur of Leaf key v \<Rightarrow> leaf_write key v tick f | Inner cs \<Rightarrow> Inner cs)"

fun art_modify_from :: "art_node \<Rightarrow> bytes \<Rightarrow> nat \<Rightarrow> int \<Rightarrow> (level \<Rightarrow> level) \<Rightarrow> art_node" where
  "art_modify_from (Leaf key v) bs depth tick f = leaf_write key v tick f"
| "art_modify_from (Inner children) bs depth tick f =
     (case btm_get children (bs ! depth) of
        None \<Rightarrow> Inner children
      | Some c \<Rightarrow>
          Inner (btm_modify (bs ! depth)
            (\<lambda>_. if depth = 7 then terminal_write c tick f else art_modify_from c bs (depth + 1) tick f) children))"

definition art_modify :: "int \<Rightarrow> (level \<Rightarrow> level) \<Rightarrow> art_map \<Rightarrow> art_map" where
  "art_modify tick f m = map_option (\<lambda>root. art_modify_from root (key_bytes tick) 0 tick f) m"

definition art_contains :: "art_map \<Rightarrow> int \<Rightarrow> bool" where
  "art_contains m tick \<longleftrightarrow> art_get m tick \<noteq> None"

text \<open>
  The descent into a child, with the insertion into the children of an inner node as argument:
  a leaf child of another tick is first pushed down into an inner node of its own.
\<close>

definition insert_at_inner_child :: "((u8, art_node) btreemap \<Rightarrow> bytes \<Rightarrow> nat \<Rightarrow> int \<Rightarrow> level \<Rightarrow> (u8, art_node) btreemap option) \<Rightarrow>
    art_node \<Rightarrow> bytes \<Rightarrow> nat \<Rightarrow> int \<Rightarrow> level \<Rightarrow> art_node option" where
  "insert_at_inner_child ins child bs depth tick lvl =
     (case child of
        Leaf ek ev \<Rightarrow>
          if ek \<noteq> tick then
            map_option Inner (Option.bind (ins [] (key_bytes ek) (depth + 1) ek ev) (\<lambda>cs. ins cs bs (depth + 1) tick lvl))
          else Some (Leaf ek lvl)
      | Inner cs \<Rightarrow> map_option Inner (ins cs bs (depth + 1) tick lvl))"

lemma insert_at_inner_child_cong [fundef_cong]:
  assumes "child = child'" "bs = bs'" "depth = depth'" "tick = tick'" "lvl = lvl'"
    and "\<And>cs b t l. ins cs b (depth' + 1) t l = ins' cs b (depth' + 1) t l"
  shows "insert_at_inner_child ins child bs depth tick lvl = insert_at_inner_child ins' child' bs' depth' tick' lvl'"
  using assms by (auto simp: insert_at_inner_child_def split: art_node.split)

function insert_at_inner :: "(u8, art_node) btreemap \<Rightarrow> bytes \<Rightarrow> nat \<Rightarrow> int \<Rightarrow> level \<Rightarrow> (u8, art_node) btreemap option" where
  "insert_at_inner children bs depth tick lvl =
     (if depth \<ge> 8 then None
      else let b = bs ! depth
           in if depth = 7 then Some (btm_insert b (Leaf tick lvl) children)
              else let child = (case btm_get children b of None \<Rightarrow> Inner [] | Some c \<Rightarrow> c)
                   in map_option (\<lambda>c. btm_insert b c children)
                        (insert_at_inner_child insert_at_inner child bs depth tick lvl))"
  by pat_completeness auto
termination by (relation "measure (\<lambda>(_, _, depth, _, _). 8 - depth)") auto

declare insert_at_inner.simps [simp del]

definition insert_at_leaf :: "int \<Rightarrow> level \<Rightarrow> bytes \<Rightarrow> nat \<Rightarrow> int \<Rightarrow> level \<Rightarrow> art_node option" where
  "insert_at_leaf key v bs depth tick lvl =
     (if key = tick then Some (Leaf key lvl)
      else map_option Inner
             (Option.bind (insert_at_inner [] (key_bytes key) depth key v)
                (\<lambda>cs. insert_at_inner cs bs depth tick lvl)))"

definition insert_at :: "art_node \<Rightarrow> bytes \<Rightarrow> nat \<Rightarrow> int \<Rightarrow> level \<Rightarrow> art_node option" where
  "insert_at node bs depth tick lvl =
     (case node of
        Leaf key v \<Rightarrow> insert_at_leaf key v bs depth tick lvl
      | Inner children \<Rightarrow> map_option Inner (insert_at_inner children bs depth tick lvl))"

definition art_insert :: "int \<Rightarrow> level \<Rightarrow> art_map \<Rightarrow> art_map option" where
  "art_insert tick lvl m =
     (case m of
        None \<Rightarrow> Some (Some (Leaf tick lvl))
      | Some root \<Rightarrow> map_option Some (insert_at root (key_bytes tick) 0 tick lvl))"

text \<open>The node after the call, and the value taken out with whether the node is now empty.\<close>

fun remove_at :: "art_node \<Rightarrow> bytes \<Rightarrow> nat \<Rightarrow> int \<Rightarrow> (art_node \<times> (level \<times> bool) option) option" where
  "remove_at (Leaf key v) bs depth tick =
     (if key \<noteq> tick then Some (Leaf key v, None) else Some (Leaf key level_default, Some (v, True)))"
| "remove_at (Inner children) bs depth tick =
     (if depth \<ge> 8 then None
      else case btm_get children (bs ! depth) of
        None \<Rightarrow> Some (Inner children, None)
      | Some c \<Rightarrow>
          map_option (\<lambda>(c', res).
            case res of
              None \<Rightarrow> (Inner (btm_modify (bs ! depth) (\<lambda>_. c') children), None)
            | Some (v, child_empty) \<Rightarrow>
                let cs = (if child_empty then btm_remove (bs ! depth) children
                          else btm_modify (bs ! depth) (\<lambda>_. c') children)
                in (Inner cs, Some (v, cs = [])))
            (remove_at c bs (depth + 1) tick))"

definition art_remove :: "int \<Rightarrow> art_map \<Rightarrow> (art_map \<times> level option) option" where
  "art_remove tick m =
     (case m of
        None \<Rightarrow> Some (None, None)
      | Some root \<Rightarrow>
          map_option (\<lambda>(root', res).
            case res of
              None \<Rightarrow> (Some root', None)
            | Some (v, now_empty) \<Rightarrow> (if now_empty then None else Some root', Some v))
            (remove_at root (key_bytes tick) 0 tick))"

lemma end_size [termination_simp]:
  "(if mn then btm_first cs else btm_last cs) = Some (b, c) \<Longrightarrow> size c < Suc (size_list (\<lambda>x. Suc (size (snd x))) cs)"
  by (rule member_size [of b]) (metis btm_first_def btm_last_def last_in_set list.case(2) list.exhaust list.set_intros(1) list.simps(4) option.distinct(1) option.inject)

fun extreme :: "art_node \<Rightarrow> bool \<Rightarrow> int option" where
  "extreme (Leaf key v) mn = Some key"
| "extreme (Inner children) mn =
     (case (if mn then btm_first children else btm_last children) of
        None \<Rightarrow> None
      | Some (b, c) \<Rightarrow> extreme c mn)"

definition art_best_tick :: "bool \<Rightarrow> art_map \<Rightarrow> int option" where
  "art_best_tick mn m = (case m of None \<Rightarrow> None | Some root \<Rightarrow> extreme root mn)"

text \<open>The loop over the children breaks as soon as \<open>n\<close> levels are out.\<close>

fun walk :: "art_node \<Rightarrow> bool \<Rightarrow> nat \<Rightarrow> (int \<times> int) list \<Rightarrow> (int \<times> int) list" where
  "walk (Leaf key v) ascending n out = (if length out \<ge> n then out else out @ [(key, total_lot v)])"
| "walk (Inner children) ascending n out =
     (if length out \<ge> n then out
      else if ascending then
        fold (\<lambda>e out. if length out \<ge> n then out else walk (snd e) ascending n out) children out
      else fold (\<lambda>e out. if length out \<ge> n then out else walk (snd e) ascending n out) (rev children) out)"

definition art_depth :: "bool \<Rightarrow> art_map \<Rightarrow> nat \<Rightarrow> (int \<times> int) list" where
  "art_depth ascending m n = (case m of None \<Rightarrow> [] | Some root \<Rightarrow> walk root ascending n [])"

text \<open>\<open>get_or_insert_with\<close> inserts without a look at what is there.\<close>

definition art_entry :: "int \<Rightarrow> level \<Rightarrow> art_map \<Rightarrow> art_map option" where
  "art_entry tick lvl m =
     Option.bind (art_insert tick lvl m) (\<lambda>m'. if art_get m' tick = None then None else Some m')"

definition art_new :: art_map where
  "art_new = None"

end
