(* ===== verification/Art_Props.thy ===== *)
theory Art_Props
  imports Art_Index
begin

text \<open>
  The radix tree is an ordered map: its invariant (every key lies under the bytes that lead to
  it, children are sorted and no inner node is empty), what each operation does to the list of
  its levels, the trait for ticks of the machine type as the locale \<open>tick_index\<close>, which both
  implementations meet, and the equivalence with the \<open>BTreeMap\<close> indexes under every sequence
  of operations.
\<close>

unbundle bit_operations_syntax

section \<open>Keys\<close>

lemma xor_top: "(x :: 64 word) XOR push_bit 63 1 = x + 2 ^ 63"
proof -
  define m :: "64 word" where "m = push_bit 63 1"
  have m: "bit m n \<longleftrightarrow> n = 63" for n
    unfolding m_def push_bit_of_1 by (simp only: bit_exp_iff possible_bit_word, simp, linarith)
  have v: "m = 2 ^ 63" "m + m = 0" by (simp_all add: m_def)
  show ?thesis
  proof (cases "bit x 63")
    case False
    then have "x AND m = 0" by (intro bit_word_eqI) (auto simp: bit_and_iff m)
    then show ?thesis using disjunctive_add_eq_xor [of x m] v by (simp add: m_def)
  next
    case True
    have "(x XOR m) AND m = 0" using True by (intro bit_word_eqI) (auto simp: bit_and_iff bit_xor_iff m)
    then have "(x XOR m) + m = (x XOR m) XOR m" by (rule disjunctive_add_eq_xor)
    also have "\<dots> = x" by (simp add: xor.assoc)
    finally have "(x XOR m) + m + m = x + m" by (rule arg_cong [of _ _ "\<lambda>z. z + m"])
    then have "x XOR m = x + m" using v(2) by (simp only: add.assoc add_0_right)
    then show ?thesis using v(1) by (simp only: m_def)
  qed
qed

lemma key_val: "i64_ok t \<Longrightarrow> be_val (key_bytes t) = nat (t + 2 ^ 63)"
proof -
  assume ok: "i64_ok t"
  have "uint (word_of_int (t + 2 ^ 63) :: 64 word) = t + 2 ^ 63"
    using ok unfolding i64_ok_def uint_word_of_int_eq by (intro take_bit_int_eq_self) simp_all
  moreover have "word_of_int t + 2 ^ 63 = (word_of_int (t + 2 ^ 63) :: 64 word)" by simp
  ultimately have "unat ((word_of_int t :: 64 word) XOR push_bit 63 1) = nat (t + 2 ^ 63)"
    by (simp only: xor_top unat_eq_nat_uint)
  moreover have "nat (t + 2 ^ 63) < 256 ^ 8" using ok by (simp add: i64_ok_def nat_less_iff)
  ultimately show ?thesis unfolding key_bytes_def by (simp only: be_val_be_bytes)
qed

lemma length_key [simp]: "length (key_bytes t) = 8"
  by (simp add: key_bytes_def)

lemma key_inj: "i64_ok a \<Longrightarrow> i64_ok b \<Longrightarrow> key_bytes a = key_bytes b \<Longrightarrow> a = b"
proof -
  assume ok: "i64_ok a" "i64_ok b" and "key_bytes a = key_bytes b"
  then have "nat (a + 2 ^ 63) = nat (b + 2 ^ 63)" by (metis key_val)
  moreover have "0 \<le> a + 2 ^ 63" "0 \<le> b + 2 ^ 63" using ok by (simp_all add: i64_ok_def)
  ultimately have "a + 2 ^ 63 = b + 2 ^ 63" by (simp only: eq_nat_nat_iff)
  then show "a = b" by (simp only: add_right_cancel)
qed

lemma be_val_less:
  assumes "a < b" and "length xs = length ys"
  shows "be_val (p @ a # xs) < be_val (p @ b # ys)"
proof -
  have "unat a * 256 ^ length xs + be_val xs < (unat a + 1) * 256 ^ length xs"
    using be_val_bound [of xs] by simp
  also have "\<dots> \<le> unat b * 256 ^ length xs"
    using assms(1) by (intro mult_right_mono) (simp_all add: word_less_nat_alt)
  finally have "be_val (a # xs) < be_val (b # ys)"
    using assms(2) be_val_append [of "[a]" xs] be_val_append [of "[b]" ys] by (simp add: be_val_def)
  then show ?thesis using assms(2) by (simp add: be_val_append [of p])
qed

lemma key_less:
  assumes "i64_ok a" "i64_ok b" "n < 8" "take n (key_bytes a) = take n (key_bytes b)" "key_bytes a ! n < key_bytes b ! n"
  shows "a < b"
proof -
  have split: "take n (key_bytes t) @ key_bytes t ! n # drop (Suc n) (key_bytes t) = key_bytes t" for t
    by (rule id_take_nth_drop [symmetric]) (simp add: assms(3))
  have "be_val (take n (key_bytes a) @ key_bytes a ! n # drop (Suc n) (key_bytes a)) <
    be_val (take n (key_bytes b) @ key_bytes b ! n # drop (Suc n) (key_bytes b))"
    unfolding assms(4) by (rule be_val_less [OF assms(5)]) simp
  then have "be_val (key_bytes a) < be_val (key_bytes b)" unfolding split .
  then have "nat (a + 2 ^ 63) < nat (b + 2 ^ 63)" by (simp only: key_val assms(1,2))
  then show ?thesis by (simp add: zless_nat_eq_int_zless split: if_splits)
qed

section \<open>The invariant and the levels\<close>

definition beneath :: "bytes \<Rightarrow> int \<Rightarrow> bool" where
  "beneath p k \<longleftrightarrow> i64_ok k \<and> take (length p) (key_bytes k) = p"

fun node_ok :: "bytes \<Rightarrow> art_node \<Rightarrow> bool" where
  "node_ok p (Leaf k v) \<longleftrightarrow> beneath p k"
| "node_ok p (Inner cs) \<longleftrightarrow>
     cs \<noteq> [] \<and> length p < 8 \<and> keys_sorted (<) cs \<and> (\<forall>e \<in> set cs. node_ok (p @ [fst e]) (snd e))"

definition children_ok :: "bytes \<Rightarrow> (u8, art_node) btreemap \<Rightarrow> bool" where
  "children_ok p cs \<longleftrightarrow> length p < 8 \<and> keys_sorted (<) cs \<and> (\<forall>e \<in> set cs. node_ok (p @ [fst e]) (snd e))"

lemma node_ok_Inner: "node_ok p (Inner cs) \<longleftrightarrow> cs \<noteq> [] \<and> children_ok p cs"
  by (auto simp: children_ok_def)

fun entries :: "art_node \<Rightarrow> (int \<times> level) list" where
  "entries (Leaf k v) = [(k, v)]"
| "entries (Inner cs) = concat (map (\<lambda>e. entries (snd e)) cs)"

lemma under_snoc: "length p < 8 \<Longrightarrow> beneath (p @ [b]) k \<longleftrightarrow> beneath p k \<and> key_bytes k ! length p = b"
  by (auto simp: beneath_def take_Suc_conv_app_nth)

lemma under_full: "length p = 8 \<Longrightarrow> beneath p a \<Longrightarrow> beneath p b \<Longrightarrow> a = b"
  using key_inj by (auto simp: beneath_def)

lemma under_order: "length p < 8 \<Longrightarrow> beneath (p @ [b]) k \<Longrightarrow> beneath (p @ [b']) k' \<Longrightarrow> b < b' \<Longrightarrow> k < k'"
  using key_less [of k k' "length p"] by (auto simp: under_snoc) (auto simp: beneath_def)

lemma entries_under: "node_ok p n \<Longrightarrow> e \<in> set (entries n) \<Longrightarrow> beneath p (fst e)"
proof (induction n arbitrary: p rule: entries.induct)
  case (2 cs)
  then obtain x where x: "x \<in> set cs" "e \<in> set (entries (snd x))" by auto
  then have "beneath (p @ [fst x]) (fst e)" using 2 by simp
  then show ?case using under_snoc 2(2) by simp
qed simp

lemma entries_ne: "node_ok p n \<Longrightarrow> entries n \<noteq> []"
proof (induction n arbitrary: p rule: entries.induct)
  case (2 cs)
  then obtain e where "e \<in> set cs" by (cases cs) auto
  then show ?case using 2 by fastforce
qed simp

lemma children_sorted:
  assumes "children_ok p cs" and "\<And>e. e \<in> set cs \<Longrightarrow> keys_sorted (<) (entries (snd e))"
  shows "keys_sorted (<) (entries (Inner cs))"
  using assms
proof (induction cs)
  case (Cons e cs)
  have ok: "length p < 8" "node_ok (p @ [fst e]) (snd e)" "children_ok p cs" "\<forall>e' \<in> set cs. fst e < fst e'"
    using Cons.prems(1) by (auto simp: children_ok_def)
  have "fst x < fst y" if "x \<in> set (entries (snd e))" "e' \<in> set cs" "y \<in> set (entries (snd e'))" for x y e'
    using under_order [OF ok(1) entries_under [OF ok(2) that(1)] entries_under [OF _ that(3), of "p @ [fst e']"]]
      ok(3,4) that(2) by (auto simp: children_ok_def)
  then show ?case using Cons.IH ok(3) Cons.prems(2) by (auto simp: sorted_wrt_append)
qed simp

lemma entries_sorted: "node_ok p n \<Longrightarrow> keys_sorted (<) (entries n)"
proof (induction n arbitrary: p rule: entries.induct)
  case (2 cs)
  then have c: "children_ok p cs" unfolding node_ok_Inner by simp
  show ?case by (rule children_sorted [OF c]) (use 2 in \<open>fastforce\<close>)
qed simp

lemma lookup_outside: "node_ok p n \<Longrightarrow> \<not> beneath p t \<Longrightarrow> map_of (entries n) t = None"
  using entries_under [of p n] by (fastforce simp: map_of_eq_None_iff)

lemma lookup_children:
  assumes "children_ok p cs" and "beneath p t"
  shows "map_of (entries (Inner cs)) t =
    (case map_of cs (key_bytes t ! length p) of None \<Rightarrow> None | Some c \<Rightarrow> map_of (entries c) t)"
  using assms(1)
proof (induction cs)
  case (Cons e cs)
  have ok: "length p < 8" "node_ok (p @ [fst e]) (snd e)" "children_ok p cs" "\<forall>e' \<in> set cs. fst e < fst e'"
    using Cons.prems(1) by (auto simp: children_ok_def)
  show ?case
  proof (cases "fst e = key_bytes t ! length p")
    case True
    then have "fst e \<notin> fst ` set cs" using ok(4) by auto
    then have "map_of cs (key_bytes t ! length p) = None" using True by (simp add: map_of_eq_None_iff)
    then have "map_of (entries (Inner cs)) t = None" using Cons.IH [OF ok(3)] by simp
    then show ?thesis using True by (cases e) (simp add: map_add_def split: option.split)
  next
    case False
    then have "map_of (entries (snd e)) t = None"
      using lookup_outside [OF ok(2), of t] under_snoc [OF ok(1)] by auto
    then show ?thesis using Cons.IH [OF ok(3)] False by (cases e) (simp add: map_add_def split: option.split)
  qed
qed simp

lemma lookup_children_outside: "children_ok p cs \<Longrightarrow> \<not> beneath p t \<Longrightarrow> map_of (entries (Inner cs)) t = None"
  using lookup_outside [of p "Inner cs" t] by (cases "cs = []") (auto simp: children_ok_def)

section \<open>Lookup, write and extremes\<close>

lemma child_ok: "children_ok p cs \<Longrightarrow> map_of cs b = Some c \<Longrightarrow> node_ok (p @ [b]) c"
  using map_of_SomeD [of cs b c] by (fastforce simp: children_ok_def)

lemma last_child: "children_ok p cs \<Longrightarrow> length p = 7 \<Longrightarrow> map_of cs b = Some c \<Longrightarrow> \<exists>k v. c = Leaf k v"
  using child_ok [of p cs b c] by (cases c) auto

lemma get_from_entries:
  "node_ok p n \<Longrightarrow> beneath p t \<Longrightarrow> art_get_from n (key_bytes t) (length p) t = map_of (entries n) t"
proof (induction n "key_bytes t" "length p" t arbitrary: p rule: art_get_from.induct)
  case (2 cs tick)
  have ok: "children_ok p cs" using 2(2) unfolding node_ok_Inner by simp
  show ?case
  proof (cases "map_of cs (key_bytes tick ! length p)")
    case (Some c)
    note c = child_ok [OF ok Some]
    have "beneath (p @ [key_bytes tick ! length p]) tick" using under_snoc 2(3) ok by (simp add: children_ok_def)
    then have "length p \<noteq> 7 \<Longrightarrow> art_get_from c (key_bytes tick) (length p + 1) tick = map_of (entries c) tick"
      using 2(1) [OF Some _ _ c] by simp
    moreover have "length p = 7 \<Longrightarrow> terminal_get c tick = map_of (entries c) tick"
      using last_child [OF ok _ Some] by (auto simp: terminal_get_def)
    ultimately show ?thesis using Some lookup_children [OF ok 2(3)] by (simp del: entries.simps)
  next
    case None
    then show ?thesis using lookup_children [OF ok 2(3)] by (simp del: entries.simps)
  qed
qed (auto simp: leaf_get_def)

lemma put_child:
  assumes "children_ok p cs" and "beneath p tick" and "node_ok (p @ [key_bytes tick ! length p]) c"
    and "\<And>t. map_of (entries c) t =
      (if t = tick then new else case map_of cs (key_bytes tick ! length p) of None \<Rightarrow> None | Some c' \<Rightarrow> map_of (entries c') t)"
  shows "node_ok p (Inner (btm_insert (key_bytes tick ! length p) c cs))"
    and "map_of (entries (Inner (btm_insert (key_bytes tick ! length p) c cs))) = (map_of (entries (Inner cs)))(tick := new)"
proof -
  let ?b = "key_bytes tick ! length p" and ?cs = "btm_insert (key_bytes tick ! length p) c cs"
  have s: "keys_sorted (<) cs" "length p < 8" using assms(1) by (simp_all add: children_ok_def)
  have m: "map_of ?cs = (map_of cs)(?b \<mapsto> c)" unfolding btm_insert_def by (rule map_of_ins_by [OF strict_total_less s(1)])
  have so: "keys_sorted (<) ?cs" unfolding btm_insert_def by (rule sorted_ins_by [OF strict_total_less s(1)])
  have "node_ok (p @ [fst e]) (snd e)" if "e \<in> set ?cs" for e
  proof -
    have "map_of ?cs (fst e) = Some (snd e)"
      using that keys_sorted_distinct [OF strict_total_less so] by (simp add: map_of_is_SomeI)
    then show ?thesis using m assms(3) child_ok [OF assms(1), of "fst e" "snd e"] by (auto split: if_splits)
  qed
  then have ok: "children_ok p ?cs" using so s(2) by (simp add: children_ok_def)
  have "?cs \<noteq> []" using m by (metis fun_upd_same map_of.simps(1) option.distinct(1))
  then show "node_ok p (Inner ?cs)" using ok unfolding node_ok_Inner by simp
  show "map_of (entries (Inner ?cs)) = (map_of (entries (Inner cs)))(tick := new)"
  proof
    fix t
    show "map_of (entries (Inner ?cs)) t = ((map_of (entries (Inner cs)))(tick := new)) t"
    proof (cases "beneath p t")
      case True
      show ?thesis
        unfolding lookup_children [OF ok True] fun_upd_apply lookup_children [OF assms(1) True] m using assms(4) by auto
    next
      case False
      then show ?thesis
        using lookup_children_outside [OF ok] lookup_children_outside [OF assms(1)] assms(2) by (auto simp del: entries.simps)
    qed
  qed
qed

section \<open>Insertion\<close>

lemma insert_last_byte:
  assumes "children_ok p cs" and "beneath p tick" and "length p = 7"
  shows "map_of (entries (Leaf tick lvl)) t = (if t = tick then Some lvl else
    case map_of cs (key_bytes tick ! length p) of None \<Rightarrow> None | Some c' \<Rightarrow> map_of (entries c') t)"
proof (cases "map_of cs (key_bytes tick ! length p)")
  case (Some c)
  obtain k v where c: "c = Leaf k v" using last_child [OF assms(1,3) Some] by blast
  then have "beneath (p @ [key_bytes tick ! length p]) k" using child_ok [OF assms(1) Some] by simp
  moreover have "beneath (p @ [key_bytes tick ! length p]) tick" using under_snoc assms by simp
  ultimately have "k = tick" using under_full [of "p @ [key_bytes tick ! length p]"] assms(3) by simp
  then show ?thesis using Some c by simp
qed simp

definition inserts :: "bytes \<Rightarrow> (u8, art_node) btreemap \<Rightarrow> int \<Rightarrow> level \<Rightarrow> bool" where
  "inserts p cs tick lvl \<longleftrightarrow>
     (\<exists>cs'. insert_at_inner cs (key_bytes tick) (length p) tick lvl = Some cs' \<and> node_ok p (Inner cs') \<and>
       map_of (entries (Inner cs')) = (map_of (entries (Inner cs)))(tick \<mapsto> lvl))"

lemma node_children: "node_ok p (Inner cs) \<Longrightarrow> children_ok p cs"
  unfolding node_ok_Inner by simp

lemma insert_child_ok:
  assumes IH: "\<And>cs tick lvl. children_ok q cs \<Longrightarrow> beneath q tick \<Longrightarrow> inserts q cs tick lvl"
    and "length q = depth + 1" and "length q < 8" and "beneath q tick" and "c = Inner [] \<or> node_ok q c"
  shows "\<exists>c'. insert_at_inner_child insert_at_inner c (key_bytes tick) depth tick lvl = Some c' \<and> node_ok q c' \<and>
    map_of (entries c') = (map_of (entries c))(tick \<mapsto> lvl)"
proof (cases c)
  case (Inner cs)
  have "children_ok q cs" using assms(3,5) Inner node_children [of q cs] by (auto simp: children_ok_def)
  then obtain cs' where "insert_at_inner cs (key_bytes tick) (length q) tick lvl = Some cs'" "node_ok q (Inner cs')"
      "map_of (entries (Inner cs')) = (map_of (entries (Inner cs)))(tick \<mapsto> lvl)"
    using IH [of cs tick lvl] assms(4) unfolding inserts_def by blast
  then show ?thesis using Inner assms(2) by (simp add: insert_at_inner_child_def del: node_ok.simps entries.simps)
next
  case (Leaf k v)
  then have k: "beneath q k" using assms(5) by simp
  show ?thesis
  proof (cases "k = tick")
    case True
    then show ?thesis using Leaf assms(4) by (simp add: insert_at_inner_child_def)
  next
    case False
    have "children_ok q []" using assms(3) by (simp add: children_ok_def)
    then obtain cs0 where cs0: "insert_at_inner [] (key_bytes k) (length q) k v = Some cs0" "node_ok q (Inner cs0)"
        "map_of (entries (Inner cs0)) = [k \<mapsto> v]"
      using IH [of "[]" k v] k unfolding inserts_def by auto
    then obtain cs' where "insert_at_inner cs0 (key_bytes tick) (length q) tick lvl = Some cs'" "node_ok q (Inner cs')"
        "map_of (entries (Inner cs')) = (map_of (entries (Inner cs0)))(tick \<mapsto> lvl)"
      using IH [OF node_children [OF cs0(2)], of tick lvl] assms(4) unfolding inserts_def by blast
    then show ?thesis using Leaf False cs0 assms(2) by (simp add: insert_at_inner_child_def del: node_ok.simps entries.simps(2))
  qed
qed

lemma insert_inner_ok: "children_ok p cs \<Longrightarrow> beneath p tick \<Longrightarrow> inserts p cs tick lvl"
proof (induction "8 - length p" arbitrary: p cs tick lvl rule: less_induct)
  case (less p cs tick lvl)
  let ?b = "key_bytes tick ! length p"
  have l: "length p < 8" using less.prems(1) by (simp add: children_ok_def)
  have u: "beneath (p @ [?b]) tick" using under_snoc [OF l] less.prems(2) by simp
  show ?case
  proof (cases "length p = 7")
    case True
    then show ?thesis unfolding inserts_def
      using put_child [OF less.prems, of "Leaf tick lvl" "Some lvl"] insert_last_byte [OF less.prems True] u
      by (auto simp: insert_at_inner.simps [of cs] simp del: entries.simps(2))
  next
    case False
    let ?c = "case map_of cs ?b of None \<Rightarrow> Inner [] | Some c \<Rightarrow> c"
    have d: "8 - length (p @ [?b]) < 8 - length p" "length (p @ [?b]) < 8" using l False by simp_all
    have "?c = Inner [] \<or> node_ok (p @ [?b]) ?c" using child_ok [OF less.prems(1)] by (auto split: option.split)
    with insert_child_ok [OF less.hyps [OF d(1)] _ d(2) u, of "length p" ?c lvl] obtain c' where
      c: "insert_at_inner_child insert_at_inner ?c (key_bytes tick) (length p) tick lvl = Some c'" "node_ok (p @ [?b]) c'"
        "map_of (entries c') = (map_of (entries ?c))(tick \<mapsto> lvl)" by auto
    have "map_of (entries c') t = (if t = tick then Some lvl else case map_of cs ?b of None \<Rightarrow> None | Some c \<Rightarrow> map_of (entries c) t)" for t
      unfolding c(3) by (simp split: option.split)
    from put_child [OF less.prems c(2) this] show ?thesis
      unfolding inserts_def using c(1) l False by (auto simp: insert_at_inner.simps [of cs] Let_def simp del: node_ok.simps entries.simps)
  qed
qed

lemma beneath_Nil [simp]: "beneath [] t \<longleftrightarrow> i64_ok t"
  by (simp add: beneath_def)

lemma insert_root_ok:
  assumes "node_ok [] root" and "i64_ok tick"
  shows "\<exists>r. insert_at root (key_bytes tick) 0 tick lvl = Some r \<and> node_ok [] r \<and>
    map_of (entries r) = (map_of (entries root))(tick \<mapsto> lvl)"
proof (cases root)
  case (Inner cs)
  then show ?thesis
    using insert_inner_ok [of "[]" cs tick lvl] node_children [of "[]" cs] assms
    by (auto simp: insert_at_def inserts_def simp del: node_ok.simps entries.simps)
next
  case (Leaf k v)
  show ?thesis
  proof (cases "k = tick")
    case True
    then show ?thesis using Leaf assms by (simp add: insert_at_def insert_at_leaf_def)
  next
    case False
    have "children_ok [] []" "i64_ok k" using assms(1) Leaf by (simp_all add: children_ok_def)
    then obtain cs0 where cs0: "insert_at_inner [] (key_bytes k) 0 k v = Some cs0" "node_ok [] (Inner cs0)"
        "map_of (entries (Inner cs0)) = [k \<mapsto> v]"
      using insert_inner_ok [of "[]" "[]" k v] by (auto simp: inserts_def simp del: node_ok.simps)
    then show ?thesis
      using Leaf False insert_inner_ok [OF node_children [OF cs0(2)], of tick lvl] assms(2)
      by (auto simp: insert_at_def insert_at_leaf_def inserts_def simp del: node_ok.simps entries.simps(2))
  qed
qed

section \<open>Writing through a reference\<close>

lemma modify_insert:
  assumes "keys_sorted (<) cs" and "map_of cs b = Some c"
  shows "btm_modify b (\<lambda>_. c') cs = btm_insert b c' cs"
proof (rule sorted_ext [OF strict_total_less])
  show "keys_sorted (<) (btm_modify b (\<lambda>_. c') cs)" using assms(1) by simp
  show "keys_sorted (<) (btm_insert b c' cs)" unfolding btm_insert_def by (rule sorted_ins_by [OF strict_total_less assms(1)])
  show "map_of (btm_modify b (\<lambda>_. c') cs) = map_of (btm_insert b c' cs)"
    using assms by (auto simp: map_of_modify btm_insert_def map_of_ins_by fun_eq_iff)
qed

lemma swap_child:
  assumes "children_ok p cs" and "beneath p tick" and "map_of cs (key_bytes tick ! length p) = Some c"
    and "node_ok (p @ [key_bytes tick ! length p]) c'" and "map_of (entries c') = (map_of (entries c))(tick := new)"
  shows "node_ok p (Inner (btm_modify (key_bytes tick ! length p) (\<lambda>_. c') cs))"
    and "map_of (entries (Inner (btm_modify (key_bytes tick ! length p) (\<lambda>_. c') cs))) = (map_of (entries (Inner cs)))(tick := new)"
proof -
  have "btm_modify (key_bytes tick ! length p) (\<lambda>_. c') cs = btm_insert (key_bytes tick ! length p) c' cs"
    by (rule modify_insert [OF _ assms(3)]) (use assms(1) in \<open>simp add: children_ok_def\<close>)
  moreover have "map_of (entries c') t = (if t = tick then new else
      case map_of cs (key_bytes tick ! length p) of None \<Rightarrow> None | Some c' \<Rightarrow> map_of (entries c') t)" for t
    using assms(3,5) by simp
  ultimately show "node_ok p (Inner (btm_modify (key_bytes tick ! length p) (\<lambda>_. c') cs))"
    "map_of (entries (Inner (btm_modify (key_bytes tick ! length p) (\<lambda>_. c') cs))) = (map_of (entries (Inner cs)))(tick := new)"
    using put_child [OF assms(1,2,4)] by metis+
qed

lemma modify_from_ok:
  "node_ok p n \<Longrightarrow> beneath p t \<Longrightarrow> node_ok p (art_modify_from n (key_bytes t) (length p) t f) \<and>
   map_of (entries (art_modify_from n (key_bytes t) (length p) t f)) = (map_of (entries n))(t := map_option f (map_of (entries n) t))"
proof (induction n "key_bytes t" "length p" t f arbitrary: p rule: art_modify_from.induct)
  case (1 k v t f)
  then show ?case by (auto simp: leaf_write_def)
next
  case (2 cs t f)
  have ok: "children_ok p cs" by (rule node_children [OF 2(2)])
  note look = lookup_children [OF ok 2(3)]
  show ?case
  proof (cases "map_of cs (key_bytes t ! length p)")
    case (Some c)
    let ?c' = "if length p = 7 then terminal_write c t f else art_modify_from c (key_bytes t) (length p + 1) t f"
    have u: "beneath (p @ [key_bytes t ! length p]) t" using under_snoc 2(3) ok by (simp add: children_ok_def)
    note c = child_ok [OF ok Some]
    have "node_ok (p @ [key_bytes t ! length p]) ?c' \<and> map_of (entries ?c') = (map_of (entries c))(t := map_option f (map_of (entries c) t))"
      using 2(1) [OF Some _ _ c u] last_child [OF ok _ Some] c
      by (auto simp: terminal_write_def leaf_write_def)
    then show ?thesis
      using swap_child [OF ok 2(3) Some, of ?c'] look Some by (simp del: node_ok.simps entries.simps)
  next
    case None
    then show ?thesis using 2(2) look by (simp add: fun_upd_idem del: node_ok.simps entries.simps)
  qed
qed

section \<open>Removal\<close>

definition removed_ok :: "bytes \<Rightarrow> art_node \<Rightarrow> int \<Rightarrow> art_node \<times> (level \<times> bool) option \<Rightarrow> bool" where
  "removed_ok p n tick r =
     (case r of
        (n', None) \<Rightarrow> n' = n \<and> map_of (entries n) tick = None
      | (n', Some (v, now_empty)) \<Rightarrow>
          map_of (entries n) tick = Some v \<and>
          (if now_empty then (map_of (entries n))(tick := None) = Map.empty
           else node_ok p n' \<and> map_of (entries n') = (map_of (entries n))(tick := None)))"

lemma modify_same: "distinct (map fst cs) \<Longrightarrow> map_of cs b = Some c \<Longrightarrow> btm_modify b (\<lambda>_. c) cs = cs"
  unfolding btm_modify_def by (rule map_idI) (auto dest: eq_key_imp_eq_value)

lemma drop_child:
  assumes "children_ok p cs" and "beneath p tick" and "map_of cs (key_bytes tick ! length p) = Some c"
    and "(map_of (entries c))(tick := None) = Map.empty"
  shows "children_ok p (btm_remove (key_bytes tick ! length p) cs)"
    and "map_of (entries (Inner (btm_remove (key_bytes tick ! length p) cs))) = (map_of (entries (Inner cs)))(tick := None)"
proof -
  let ?cs = "btm_remove (key_bytes tick ! length p) cs"
  show ok: "children_ok p ?cs"
    using assms(1) sorted_remove [of "(<)" cs] by (auto simp: children_ok_def) (auto simp: btm_remove_def)
  show "map_of (entries (Inner ?cs)) = (map_of (entries (Inner cs)))(tick := None)"
  proof
    fix t
    show "map_of (entries (Inner ?cs)) t = ((map_of (entries (Inner cs)))(tick := None)) t"
    proof (cases "beneath p t")
      case True
      show ?thesis
        unfolding lookup_children [OF ok True] fun_upd_apply lookup_children [OF assms(1) True] map_of_remove
        using assms(3) fun_cong [OF assms(4), of t] by auto
    next
      case False
      then show ?thesis
        using lookup_children_outside [OF ok] lookup_children_outside [OF assms(1)] by (auto simp del: entries.simps)
    qed
  qed
qed

lemma remove_at_ok:
  "node_ok p n \<Longrightarrow> beneath p tick \<Longrightarrow> \<exists>r. remove_at n (key_bytes tick) (length p) tick = Some r \<and> removed_ok p n tick r"
proof (induction n "key_bytes tick" "length p" tick arbitrary: p rule: remove_at.induct)
  case (1 k v tick)
  then show ?case by (auto simp: removed_ok_def)
next
  case (2 cs tick)
  let ?b = "key_bytes tick ! length p"
  have ok: "children_ok p cs" by (rule node_children [OF 2(2)])
  then have l: "length p < 8" by (simp add: children_ok_def)
  note look = lookup_children [OF ok 2(3)]
  show ?case
  proof (cases "map_of cs ?b")
    case None
    then show ?thesis using look l by (simp add: removed_ok_def del: entries.simps)
  next
    case (Some c)
    have u: "beneath (p @ [?b]) tick" using under_snoc 2(3) l by simp
    have "\<exists>r. remove_at c (key_bytes tick) (length p + 1) tick = Some r \<and> removed_ok (p @ [?b]) c tick r"
      using 2(1) [OF _ Some _ child_ok [OF ok Some] u] l by simp
    then obtain c' res where r: "remove_at c (key_bytes tick) (length p + 1) tick = Some (c', res)" "removed_ok (p @ [?b]) c tick (c', res)"
      by auto
    have same: "btm_modify ?b (\<lambda>_. c) cs = cs"
      by (rule modify_same [OF keys_sorted_distinct [OF strict_total_less] Some]) (use ok in \<open>simp add: children_ok_def\<close>)
    consider "res = None" | v where "res = Some (v, True)" | v where "res = Some (v, False)" by (metis (full_types) option.exhaust prod.exhaust)
    then show ?thesis
    proof cases
      case 1
      then show ?thesis using r l Some same look by (simp add: removed_ok_def del: entries.simps)
    next
      case v: 2
      then have "(map_of (entries c))(tick := None) = Map.empty" using r(2) by (simp add: removed_ok_def)
      note drop = drop_child [OF ok 2(3) Some this]
      show ?thesis
        using v r l Some look drop node_ok_Inner [of p "btm_remove ?b cs"]
        by (auto simp: removed_ok_def Let_def simp del: node_ok.simps entries.simps) (auto simp: fun_eq_iff)
    next
      case v: 3
      then have "node_ok (p @ [?b]) c'" "map_of (entries c') = (map_of (entries c))(tick := None)"
        using r(2) by (simp_all add: removed_ok_def)
      note swap = swap_child [OF ok 2(3) Some this]
      then have "btm_modify ?b (\<lambda>_. c') cs \<noteq> []" by auto
      then show ?thesis using v r l Some look swap by (simp add: removed_ok_def Let_def del: node_ok.simps entries.simps)
    qed
  qed
qed

section \<open>Extremes and depth\<close>

lemma extreme_ends:
  "node_ok p n \<Longrightarrow> extreme n mn = Some (fst (if mn then hd (entries n) else last (entries n)))"
proof (induction n mn arbitrary: p rule: extreme.induct)
  case (2 cs mn)
  have ne: "entries (snd e) \<noteq> []" if "e \<in> set cs" for e using that 2(2) entries_ne by auto
  show ?case
  proof (cases mn)
    case True
    obtain e cs' where cs: "cs = e # cs'" using 2(2) by (cases cs) auto
    then show ?thesis using 2(1) [of e "fst e" "snd e" "p @ [fst e]"] 2(2) True ne [of e] by (cases e) (auto simp: btm_first_def hd_append)
  next
    case False
    obtain cs' e where cs: "cs = cs' @ [e]" using 2(2) by (cases cs rule: rev_cases) auto
    then show ?thesis using 2(1) [of e "fst e" "snd e" "p @ [fst e]"] 2(2) False ne [of e] by (cases e) (auto simp: btm_last_def)
  qed
qed simp

definition tick_lot :: "int \<times> level \<Rightarrow> int \<times> int" where
  "tick_lot e = (fst e, total_lot (snd e))"

lemma walk_fold:
  assumes "\<And>e out. e \<in> set es \<Longrightarrow> length out < n \<Longrightarrow> w e out = out @ take (n - length out) (g e)"
  shows "fold (\<lambda>e out. if length out \<ge> n then out else w e out) es out = out @ take (n - length out) (concat (map g es))"
  using assms
proof (induction es arbitrary: out)
  case (Cons e es)
  then show ?case by (cases "length out \<ge> n") (auto simp: min_def)
qed simp

lemma walk_entries:
  "walk nd asc n out = out @ take (n - length out) (map tick_lot (if asc then entries nd else rev (entries nd)))"
proof (induction nd asc n out rule: walk.induct)
  case (1 k v asc n out)
  then show ?case by (auto simp: tick_lot_def)
next
  case (2 cs asc n out)
  show ?case
  proof (cases "length out \<ge> n")
    case False
    show ?thesis
    proof (cases asc)
      case True
      then show ?thesis using False 2(1) [OF _ True]
          walk_fold [of cs n "\<lambda>e out. walk (snd e) True n out" "\<lambda>e. map tick_lot (entries (snd e))" out]
        by (simp add: map_concat comp_def not_le)
    next
      case dsc: False
      then show ?thesis using False 2(2) [OF _ dsc]
          walk_fold [of "rev cs" n "\<lambda>e out. walk (snd e) False n out" "\<lambda>e. map tick_lot (rev (entries (snd e)))" out]
        by (simp add: map_concat rev_concat rev_map comp_def not_le)
    qed
  qed simp
qed

section \<open>The trait on machine ticks\<close>

datatype ix_op = IxInsert int level | IxRemove int | IxWrite int "level \<Rightarrow> level"

fun op_tick :: "ix_op \<Rightarrow> int" where
  "op_tick (IxInsert t l) = t"
| "op_tick (IxRemove t) = t"
| "op_tick (IxWrite t f) = t"

text \<open>A sequence of operations on an implementation, with what the removals return.\<close>

fun ix_run :: "(int \<Rightarrow> level \<Rightarrow> 'i \<Rightarrow> 'i option) \<Rightarrow> (int \<Rightarrow> 'i \<Rightarrow> ('i \<times> level option) option) \<Rightarrow>
    (int \<Rightarrow> (level \<Rightarrow> level) \<Rightarrow> 'i \<Rightarrow> 'i) \<Rightarrow> ix_op list \<Rightarrow> 'i \<Rightarrow> ('i \<times> level option list) option" where
  "ix_run ins rem upd [] m = Some (m, [])"
| "ix_run ins rem upd (IxInsert t l # ops) m = Option.bind (ins t l m) (ix_run ins rem upd ops)"
| "ix_run ins rem upd (IxRemove t # ops) m =
     Option.bind (rem t m) (\<lambda>(m', v). map_option (apsnd ((#) v)) (ix_run ins rem upd ops m'))"
| "ix_run ins rem upd (IxWrite t f # ops) m = ix_run ins rem upd ops (upd t f m)"

fun list_run :: "(int \<Rightarrow> int \<Rightarrow> bool) \<Rightarrow> ix_op list \<Rightarrow> (int \<times> level) list \<Rightarrow> (int \<times> level) list \<times> level option list" where
  "list_run lt [] lv = (lv, [])"
| "list_run lt (IxInsert t l # ops) lv = list_run lt ops (ins_by lt t l lv)"
| "list_run lt (IxRemove t # ops) lv = apsnd ((#) (map_of lv t)) (list_run lt ops (btm_remove t lv))"
| "list_run lt (IxWrite t f # ops) lv = list_run lt ops (btm_modify t f lv)"

locale tick_index =
  fixes tick_ok :: "int \<Rightarrow> bool" and lt :: "int \<Rightarrow> int \<Rightarrow> bool" and ix_ok :: "'i \<Rightarrow> bool" and lv :: "'i \<Rightarrow> (int \<times> level) list"
    and new :: 'i and look :: "'i \<Rightarrow> int \<Rightarrow> level option" and upd :: "int \<Rightarrow> (level \<Rightarrow> level) \<Rightarrow> 'i \<Rightarrow> 'i"
    and has :: "'i \<Rightarrow> int \<Rightarrow> bool" and ins :: "int \<Rightarrow> level \<Rightarrow> 'i \<Rightarrow> 'i option"
    and rem :: "int \<Rightarrow> 'i \<Rightarrow> ('i \<times> level option) option" and best :: "'i \<Rightarrow> int option" and dep :: "'i \<Rightarrow> nat \<Rightarrow> (int \<times> int) list"
  assumes new_ok: "ix_ok new \<and> lv new = []"
    and look_lv: "ix_ok m \<Longrightarrow> tick_ok t \<Longrightarrow> look m t = map_of (lv m) t"
    and has_lv: "ix_ok m \<Longrightarrow> tick_ok t \<Longrightarrow> has m t \<longleftrightarrow> map_of (lv m) t \<noteq> None"
    and write_ok: "ix_ok m \<Longrightarrow> tick_ok t \<Longrightarrow> ix_ok (upd t f m) \<and> lv (upd t f m) = btm_modify t f (lv m)"
    and ins_ok: "ix_ok m \<Longrightarrow> tick_ok t \<Longrightarrow> \<exists>m'. ins t l m = Some m' \<and> ix_ok m' \<and> lv m' = ins_by lt t l (lv m)"
    and rem_ok: "ix_ok m \<Longrightarrow> tick_ok t \<Longrightarrow> \<exists>m'. rem t m = Some (m', map_of (lv m) t) \<and> ix_ok m' \<and> lv m' = btm_remove t (lv m)"
    and best_lv: "ix_ok m \<Longrightarrow> best m = best_of (lv m)"
    and dep_lv: "ix_ok m \<Longrightarrow> dep m n = depth_of (lv m) n"
begin

lemma run_from:
  "ix_ok m \<Longrightarrow> list_all (\<lambda>p. tick_ok (op_tick p)) ops \<Longrightarrow>
   \<exists>m'. ix_run ins rem upd ops m = Some (m', snd (list_run lt ops (lv m))) \<and> ix_ok m' \<and> lv m' = fst (list_run lt ops (lv m))"
proof (induction ops arbitrary: m)
  case (Cons p ops)
  show ?case
  proof (cases p)
    case (IxInsert t l)
    then obtain m1 where "ins t l m = Some m1" "ix_ok m1" "lv m1 = ins_by lt t l (lv m)" using ins_ok [of m t l] Cons.prems by auto
    then show ?thesis using Cons.IH [of m1] Cons.prems IxInsert by simp
  next
    case (IxRemove t)
    then obtain m1 where m1: "rem t m = Some (m1, map_of (lv m) t)" "ix_ok m1" "lv m1 = btm_remove t (lv m)" using rem_ok [of m t] Cons.prems by auto
    then show ?thesis using Cons.IH [of m1] Cons.prems IxRemove by (cases "list_run lt ops (btm_remove t (lv m))") auto
  next
    case (IxWrite t f)
    then show ?thesis using Cons.IH [of "upd t f m"] write_ok [of m t f] Cons.prems by auto
  qed
qed simp

text \<open>Every observation is a function of the operations alone.\<close>

lemma run_observed:
  assumes "list_all (\<lambda>p. tick_ok (op_tick p)) ops"
  shows "\<exists>m. ix_run ins rem upd ops new = Some (m, snd (list_run lt ops [])) \<and>
    (\<forall>t. tick_ok t \<longrightarrow> look m t = map_of (fst (list_run lt ops [])) t \<and> has m t = (map_of (fst (list_run lt ops [])) t \<noteq> None)) \<and>
    best m = best_of (fst (list_run lt ops [])) \<and> dep m = depth_of (fst (list_run lt ops []))"
proof -
  obtain m where "ix_run ins rem upd ops new = Some (m, snd (list_run lt ops []))" "ix_ok m" "lv m = fst (list_run lt ops [])"
    using run_from [of new ops] new_ok assms by auto
  then show ?thesis using look_lv has_lv best_lv dep_lv by (intro exI [of _ m]) auto
qed

end

sublocale level_index \<subseteq> on_ticks: tick_index "\<lambda>_. True" lt ix_inv levels ix_empty ix_get ix_modify ix_contains
  "\<lambda>t l m. Some (ix_insert t l m)" "\<lambda>t m. Some (ix_remove t m)" ix_best ix_depth
proof unfold_locales
  show "\<exists>m'. Some (ix_remove t m) = Some (m', map_of (levels m) t) \<and> ix_inv m' \<and> levels m' = btm_remove t (levels m)"
    if "ix_inv m" for m t
    using that inv_remove [OF that, of t] levels_remove [OF that, of t] removed_levels [OF that, of t] by (cases "ix_remove t m") auto
qed (auto simp: inv_empty levels_empty get_levels contains_levels inv_modify levels_modify inv_insert levels_insert best_levels depth_levels)

section \<open>The tree meets the trait\<close>

definition art_ok :: "art_map \<Rightarrow> bool" where
  "art_ok m = (case m of None \<Rightarrow> True | Some root \<Rightarrow> node_ok [] root)"

definition art_entries :: "art_map \<Rightarrow> (int \<times> level) list" where
  "art_entries m = (case m of None \<Rightarrow> [] | Some root \<Rightarrow> entries root)"

definition art_levels :: "side \<Rightarrow> art_map \<Rightarrow> (int \<times> level) list" where
  "art_levels s m = (if s = Sell then art_entries m else rev (art_entries m))"

lemma art_entries_sorted: "art_ok m \<Longrightarrow> keys_sorted (<) (art_entries m)"
  using entries_sorted by (auto simp: art_ok_def art_entries_def split: option.splits)

lemma better_less: "better Sell = (<)" "better Buy = (\<lambda>a b. b < a)"
  by (intro ext; simp)+

lemma art_levels_sorted: "art_ok m \<Longrightarrow> keys_sorted (better s) (art_levels s m)"
  using art_entries_sorted [of m] better_less by (cases s) (auto simp: art_levels_def sorted_wrt_rev rev_map [symmetric])

lemma art_levels_map: "art_ok m \<Longrightarrow> map_of (art_levels s m) = map_of (art_entries m)"
  using keys_sorted_distinct [OF strict_total_less art_entries_sorted [of m]]
    map_of_inject_set [of "rev (art_entries m)" "art_entries m"]
  by (simp add: art_levels_def rev_map [symmetric])

text \<open>The levels after an operation are known from the map they stand for.\<close>

lemma art_levelsI:
  assumes "art_ok m" and "keys_sorted (better s) xs" and "map_of (art_entries m) = map_of xs"
  shows "art_levels s m = xs"
  by (rule sorted_ext [OF better_strict_total art_levels_sorted [OF assms(1)] assms(2)])
    (simp add: art_levels_map assms(1,3))

lemma art_get_map: "art_ok m \<Longrightarrow> i64_ok t \<Longrightarrow> art_get m t = map_of (art_entries m) t"
  using get_from_entries [of "[]" _ t] by (auto simp: art_get_def art_ok_def art_entries_def split: option.splits)

lemma art_insert_map:
  assumes "art_ok m" and "i64_ok t"
  shows "\<exists>m'. art_insert t l m = Some m' \<and> art_ok m' \<and> map_of (art_entries m') = (map_of (art_entries m))(t \<mapsto> l)"
proof (cases m)
  case (Some root)
  then show ?thesis using assms insert_root_ok [of root t l] by (auto simp: art_insert_def art_ok_def art_entries_def)
qed (use assms in \<open>auto simp: art_insert_def art_ok_def art_entries_def\<close>)

lemma art_modify_map:
  assumes "art_ok m" and "i64_ok t"
  shows "art_ok (art_modify t f m) \<and> map_of (art_entries (art_modify t f m)) =
    (map_of (art_entries m))(t := map_option f (map_of (art_entries m) t))"
  using assms modify_from_ok [of "[]" _ t f] by (cases m) (auto simp: art_modify_def art_ok_def art_entries_def)

lemma art_remove_map:
  assumes "art_ok m" and "i64_ok t"
  shows "\<exists>m'. art_remove t m = Some (m', map_of (art_entries m) t) \<and> art_ok m' \<and> map_of (art_entries m') = (map_of (art_entries m))(t := None)"
proof (cases m)
  case (Some root)
  then obtain r where r: "remove_at root (key_bytes t) 0 t = Some r" "removed_ok [] root t r"
    using remove_at_ok [of "[]" root t] assms by (auto simp: art_ok_def)
  then show ?thesis using Some assms(1)
    by (cases r) (auto simp: art_remove_def removed_ok_def art_ok_def art_entries_def fun_upd_idem split: option.splits if_splits)
qed (simp add: art_remove_def art_ok_def art_entries_def)

lemma best_of_hd: "best_of xs = (if xs = [] then None else Some (fst (hd xs)))"
  by (simp add: best_of_def split: list.split)

interpretation art_ix: tick_index i64_ok "better s" art_ok "art_levels s" art_new art_get art_modify art_contains art_insert art_remove
  "art_best_tick (s = Sell)" "art_depth (s = Sell)" for s
proof unfold_locales
  show "art_ok art_new \<and> art_levels s art_new = []" by (simp add: art_ok_def art_new_def art_levels_def art_entries_def)
  fix m :: art_map and t :: int
  assume ok: "art_ok m"
  show "art_best_tick (s = Sell) m = best_of (art_levels s m)"
    using ok extreme_ends [of "[]" _ "s = Sell"] entries_ne [of "[]"]
    by (auto simp: art_best_tick_def art_levels_def art_entries_def art_ok_def best_of_hd hd_rev split: option.splits)
  show "art_depth (s = Sell) m n = depth_of (art_levels s m) n" for n
    by (simp add: art_depth_def art_levels_def art_entries_def depth_of_def walk_entries tick_lot_def [abs_def] take_map split: option.split)
  assume t: "i64_ok t"
  note lv = art_levels_sorted [OF ok, of s] art_levels_map [OF ok, of s]
  show "art_get m t = map_of (art_levels s m) t" "art_contains m t \<longleftrightarrow> map_of (art_levels s m) t \<noteq> None"
    using art_get_map [OF ok t] lv(2) by (simp_all add: art_contains_def)
  show "art_ok (art_modify t f m) \<and> art_levels s (art_modify t f m) = btm_modify t f (art_levels s m)" for f
    using art_modify_map [OF ok t, of f] lv by (auto intro!: art_levelsI simp: map_of_modify)
  show "\<exists>m'. art_insert t l m = Some m' \<and> art_ok m' \<and> art_levels s m' = ins_by (better s) t l (art_levels s m)" for l
    using art_insert_map [OF ok t, of l] lv by (auto intro!: art_levelsI simp: map_of_ins_by sorted_ins_by)
  show "\<exists>m'. art_remove t m = Some (m', map_of (art_levels s m) t) \<and> art_ok m' \<and> art_levels s m' = btm_remove t (art_levels s m)"
    using art_remove_map [OF ok t] lv by (auto intro!: art_levelsI simp: map_of_remove sorted_remove)
qed

section \<open>The two implementations\<close>

definition same_index :: "('i \<Rightarrow> int \<Rightarrow> level option) \<Rightarrow> ('i \<Rightarrow> int \<Rightarrow> bool) \<Rightarrow> ('i \<Rightarrow> int option) \<Rightarrow> ('i \<Rightarrow> nat \<Rightarrow> (int \<times> int) list) \<Rightarrow> 'i \<Rightarrow>
    ('j \<Rightarrow> int \<Rightarrow> level option) \<Rightarrow> ('j \<Rightarrow> int \<Rightarrow> bool) \<Rightarrow> ('j \<Rightarrow> int option) \<Rightarrow> ('j \<Rightarrow> nat \<Rightarrow> (int \<times> int) list) \<Rightarrow> 'j \<Rightarrow> bool" where
  "same_index look1 has1 best1 dep1 m1 look2 has2 best2 dep2 m2 \<longleftrightarrow>
     (\<forall>t. i64_ok t \<longrightarrow> look1 m1 t = look2 m2 t \<and> has1 m1 t = has2 m2 t) \<and> best1 m1 = best2 m2 \<and> dep1 m1 = dep2 m2"

text \<open>
  C11. The radix tree and the ordered map are interchangeable: after the same insertions,
  removals and writes at machine ticks neither has panicked, the removals returned the same
  levels, and every lookup, the best tick and the depth agree, on the ask and on the bid side.
\<close>
theorem art_equals_btree:
  assumes "list_all (\<lambda>p. i64_ok (op_tick p)) ops"
  shows "\<exists>a asks bids outs. ix_run art_insert art_remove art_modify ops art_new = Some (a, outs) \<and>
    ix_run (\<lambda>t l m. Some (ask_insert t l m)) (\<lambda>t m. Some (ask_remove t m)) ask_modify ops [] = Some (asks, outs) \<and>
    same_index art_get art_contains (art_best_tick True) (art_depth True) a ask_get ask_contains ask_best_tick ask_depth asks \<and>
    ix_run (\<lambda>t l m. Some (bid_insert t l m)) (\<lambda>t m. Some (bid_remove t m)) bid_modify ops [] = Some (bids, outs) \<and>
    same_index art_get art_contains (art_best_tick False) (art_depth False) a bid_get bid_contains bid_best_tick bid_depth bids"
proof -
  have any: "list_all (\<lambda>p. True) ops" by (simp add: list_all_iff)
  show ?thesis
    using art_ix.run_observed [OF assms, of Sell] asks_ix.on_ticks.run_observed [OF any]
      art_ix.run_observed [OF assms, of Buy] bids_ix.on_ticks.run_observed [OF any]
    by (auto simp: same_index_def)
qed

definition demo_ops :: "ix_op list" where
  "demo_ops = [IxInsert 100 \<lparr>total_lot = 5, ids = [1]\<rparr>, IxInsert (- 3) \<lparr>total_lot = 2, ids = [2]\<rparr>,
     IxInsert 356 \<lparr>total_lot = 7, ids = [3]\<rparr>, IxRemove 100, IxRemove 9]"

theorem art_equals_btree_witness:
  "\<exists>a. ix_run art_insert art_remove art_modify demo_ops art_new = Some (a, [Some \<lparr>total_lot = 5, ids = [1]\<rparr>, None]) \<and>
    art_best_tick True a = Some (- 3) \<and> art_depth False a 5 = [(356, 7), (- 3, 2)]"
proof -
  have ok: "list_all (\<lambda>p. i64_ok (op_tick p)) demo_ops" by code_simp
  have b: "ix_run (\<lambda>t l m. Some (ask_insert t l m)) (\<lambda>t m. Some (ask_remove t m)) ask_modify demo_ops [] =
      Some ([(- 3, \<lparr>total_lot = 2, ids = [2]\<rparr>), (356, \<lparr>total_lot = 7, ids = [3]\<rparr>)], [Some \<lparr>total_lot = 5, ids = [1]\<rparr>, None])"
    "map_option (\<lambda>(m, _). bid_depth m 5) (ix_run (\<lambda>t l m. Some (bid_insert t l m)) (\<lambda>t m. Some (bid_remove t m)) bid_modify demo_ops []) =
      Some [(356, 7), (- 3, 2)]"
    by code_simp+
  show ?thesis
    using art_equals_btree [OF ok] b by (auto simp: same_index_def ask_best_tick_def btm_first_def)
qed

end
