(* ===== verification/Journal.thy ===== *)
theory Journal
  imports Prelude
begin

text \<open>
  The memory-mapped journal of \<open>crates/match-core-hp/src/journal.rs\<close>.  A journal is the mapped
  file as the process sees it and the bytes that are on disk; the operating system may write
  any dirty pages back at any time, and a successful \<open>msync\<close> has written the pages of its
  range.  A crash keeps the disk bytes only.  First the operations, then the micro-steps of
  one writer interleaved with the write-back, and the proof that recovery from the disk is
  exact at every moment.
\<close>

section \<open>Operations\<close>

definition HEADER_LEN :: nat where "HEADER_LEN = 8"

record mmap_journal =
  jmem :: bytes
  jdisk :: bytes
  jcap :: nat
  jcursor :: nat

definition journal_create :: "nat \<Rightarrow> mmap_journal" where
  "journal_create capacity =
     \<lparr>jmem = replicate capacity 0, jdisk = replicate capacity 0, jcap = capacity, jcursor = HEADER_LEN\<rparr>"

definition journal_open_existing :: "bytes \<Rightarrow> nat \<Rightarrow> mmap_journal" where
  "journal_open_existing file capacity = \<lparr>jmem = file, jdisk = file, jcap = capacity, jcursor = capacity\<rparr>"

definition copy_to :: "nat \<Rightarrow> bytes \<Rightarrow> bytes \<Rightarrow> bytes" where
  "copy_to off bs m = take off m @ bs @ drop (off + length bs) m"

definition journal_append :: "bytes \<Rightarrow> mmap_journal \<Rightarrow> mmap_journal \<times> nat option" where
  "journal_append payload j =
     (let total = length payload + 4
      in if jcursor j + total > jcap j then (j, None)
         else (j\<lparr>jmem := copy_to (jcursor j + 4) payload (copy_to (jcursor j) (le_bytes 4 (length payload)) (jmem j)),
                 jcursor := jcursor j + total\<rparr>, Some (jcursor j)))"

fun journal_append_batch :: "bytes list \<Rightarrow> mmap_journal \<Rightarrow> mmap_journal \<times> nat" where
  "journal_append_batch [] j = (j, 0)"
| "journal_append_batch (payload # records) j =
     (case journal_append payload j of
        (j', None) \<Rightarrow> (j', 0)
      | (j', Some _) \<Rightarrow> (case journal_append_batch records j' of (j'', n) \<Rightarrow> (j'', length payload + 4 + n)))"

text \<open>The pages of the set \<open>S\<close> reach the disk.\<close>

definition writeback :: "nat \<Rightarrow> (nat \<Rightarrow> bool) \<Rightarrow> mmap_journal \<Rightarrow> mmap_journal" where
  "writeback page S j = j\<lparr>jdisk := map (\<lambda>i. if S (i div page) then jmem j ! i else jdisk j ! i) [0..<length (jdisk j)]\<rparr>"

text \<open>A successful \<open>msync\<close> of the first \<open>len\<close> bytes with \<open>MS_SYNC\<close>.\<close>

definition sync_range :: "nat \<Rightarrow> nat \<Rightarrow> mmap_journal \<Rightarrow> mmap_journal" where
  "sync_range page len j = writeback page (\<lambda>p. p * page < len) j"

text \<open>\<open>ok\<close> is whether the system call succeeds; an asynchronous request promises nothing.\<close>

definition journal_msync :: "nat \<Rightarrow> bool \<Rightarrow> bool \<Rightarrow> mmap_journal \<Rightarrow> mmap_journal \<times> bool" where
  "journal_msync page sync ok j = (if ok then (if sync then sync_range page (jcursor j) j else j, True) else (j, False))"

definition sync_data :: "nat \<Rightarrow> mmap_journal \<Rightarrow> mmap_journal" where
  "sync_data page j = (if jcursor j > HEADER_LEN then sync_range page (jcursor j) j else j)"

definition write_header :: "mmap_journal \<Rightarrow> mmap_journal" where
  "write_header j = j\<lparr>jmem := copy_to 0 (le_bytes 8 (jcursor j)) (jmem j)\<rparr>"

definition journal_commit :: "nat \<Rightarrow> bool \<Rightarrow> bool \<Rightarrow> mmap_journal \<Rightarrow> mmap_journal \<times> nat option" where
  "journal_commit page ok1 ok2 j =
     (if jcursor j > HEADER_LEN \<and> \<not> ok1 then (j, None)
      else let j1 = sync_data page j;
               j2 = write_header j1
           in if \<not> ok2 then (j2, None) else (sync_range page page j2, Some (jcursor j)))"

definition committed_cursor :: "bytes \<Rightarrow> nat" where
  "committed_cursor m = max (le_val (take 8 m)) HEADER_LEN"

function iter_from :: "bytes \<Rightarrow> nat \<Rightarrow> nat \<Rightarrow> (nat \<times> bytes) list" where
  "iter_from m end_off off =
     (if off + 4 > end_off then []
      else let len = le_val (take 4 (drop off m))
           in if off + 4 + len > end_off then []
              else (off, take len (drop (off + 4) m)) # iter_from m end_off (off + 4 + len))"
  by pat_completeness auto
termination by (relation "measure (\<lambda>(_, end_off, off). end_off - off)") auto

declare iter_from.simps [simp del]

definition iter_records :: "bytes \<Rightarrow> nat \<Rightarrow> (nat \<times> bytes) list" where
  "iter_records m end_off = iter_from m end_off HEADER_LEN"

text \<open>What a restart reads: the records up to the committed cursor of the file.\<close>

definition recovered :: "bytes \<Rightarrow> bytes list" where
  "recovered file =
     (let j = journal_open_existing file (length file)
      in map snd (iter_records (jmem j) (committed_cursor (jmem j))))"

section \<open>A writer, the kernel and crashes\<close>

datatype commit_phase = JIdle | JSynced | JHeader

record journal_sys =
  jr :: mmap_journal
  phase :: commit_phase
  jlog :: "bytes list"
  acked :: nat

definition journal_init :: "nat \<Rightarrow> journal_sys" where
  "journal_init cap = \<lparr>jr = journal_create cap, phase = JIdle, jlog = [], acked = 0\<rparr>"

text \<open>
  The writer appends when no commit runs; a commit is its three steps; the last one may fail
  and leave the header in the cache; pages may be written back between any two steps.
\<close>

inductive jstep :: "nat \<Rightarrow> journal_sys \<Rightarrow> journal_sys \<Rightarrow> bool" for page where
  j_append: "phase st = JIdle \<Longrightarrow> length payload < 2 ^ 32 \<Longrightarrow> journal_append payload (jr st) = (j', Some off) \<Longrightarrow>
    jstep page st (st\<lparr>jr := j', jlog := jlog st @ [payload]\<rparr>)"
| j_data: "phase st = JIdle \<Longrightarrow> jstep page st (st\<lparr>jr := sync_data page (jr st), phase := JSynced\<rparr>)"
| j_header: "phase st = JSynced \<Longrightarrow> jstep page st (st\<lparr>jr := write_header (jr st), phase := JHeader\<rparr>)"
| j_done: "phase st = JHeader \<Longrightarrow>
    jstep page st (st\<lparr>jr := sync_range page page (jr st), phase := JIdle, acked := length (jlog st)\<rparr>)"
| j_fail: "phase st = JHeader \<Longrightarrow> jstep page st (st\<lparr>phase := JIdle\<rparr>)"
| j_writeback: "jstep page st (st\<lparr>jr := writeback page S (jr st)\<rparr>)"

inductive jreach :: "nat \<Rightarrow> nat \<Rightarrow> journal_sys \<Rightarrow> bool" for page cap where
  jreach_init: "jreach page cap (journal_init cap)"
| jreach_step: "jreach page cap st \<Longrightarrow> jstep page st st' \<Longrightarrow> jreach page cap st'"

section \<open>Bytes at an offset\<close>

definition holds_at :: "nat \<Rightarrow> bytes \<Rightarrow> bytes \<Rightarrow> bool" where
  "holds_at off bs m \<longleftrightarrow> off + length bs \<le> length m \<and> (\<forall>i < length bs. m ! (off + i) = bs ! i)"

lemma holds_iff_take: "holds_at off bs m \<longleftrightarrow> off + length bs \<le> length m \<and> take (length bs) (drop off m) = bs"
  by (auto simp: holds_at_def list_eq_iff_nth_eq [of "take (length bs) (drop off m)"])

lemma holds_append: "holds_at off (xs @ ys) m \<longleftrightarrow> holds_at off xs m \<and> holds_at (off + length xs) ys m"
  unfolding holds_iff_take by (auto simp: take_add add.commute)

lemma length_copy_to [simp]: "off + length bs \<le> length m \<Longrightarrow> length (copy_to off bs m) = length m"
  by (simp add: copy_to_def)

lemma nth_copy_to:
  "off + length bs \<le> length m \<Longrightarrow> i < length m \<Longrightarrow>
   copy_to off bs m ! i = (if i < off \<or> off + length bs \<le> i then m ! i else bs ! (i - off))"
  by (auto simp: copy_to_def nth_append)

lemma holds_copy_to: "off + length bs \<le> length m \<Longrightarrow> holds_at off bs (copy_to off bs m)"
  by (auto simp: holds_at_def nth_copy_to)

lemma holds_copy_other:
  "holds_at o' xs m \<Longrightarrow> off + length bs \<le> length m \<Longrightarrow> o' + length xs \<le> off \<or> off + length bs \<le> o' \<Longrightarrow>
   holds_at o' xs (copy_to off bs m)"
  by (auto simp: holds_at_def nth_copy_to)

lemma writeback_fields [simp]:
  "jmem (writeback page S j) = jmem j" "jcap (writeback page S j) = jcap j" "jcursor (writeback page S j) = jcursor j"
  "length (jdisk (writeback page S j)) = length (jdisk j)"
  by (simp_all add: writeback_def)

lemma writeback_keeps:
  "holds_at off bs (jmem j) \<Longrightarrow> holds_at off bs (jdisk j) \<Longrightarrow> holds_at off bs (jdisk (writeback page S j))"
  by (auto simp: holds_at_def writeback_def)

lemma writeback_brings:
  "holds_at off bs (jmem j) \<Longrightarrow> length (jdisk j) = length (jmem j) \<Longrightarrow> (\<And>i. i < length bs \<Longrightarrow> S ((off + i) div page)) \<Longrightarrow>
   holds_at off bs (jdisk (writeback page S j))"
  by (auto simp: holds_at_def writeback_def)

lemma writeback_header:
  assumes "8 \<le> page" "length a = 8" "length b = 8" "holds_at 0 a (jmem j)" "holds_at 0 b (jdisk j)"
  shows "holds_at 0 (if S 0 then a else b) (jdisk (writeback page S j))"
  using assms by (auto simp: holds_at_def writeback_def)

section \<open>Frames\<close>

definition frame :: "bytes \<Rightarrow> bytes" where
  "frame r = le_bytes 4 (length r) @ r"

definition frames :: "bytes list \<Rightarrow> bytes" where
  "frames rs = concat (map frame rs)"

lemma frames_simps [simp]: "frames [] = []" "frames (r # rs) = frame r @ frames rs" "frames (xs @ ys) = frames xs @ frames ys"
  by (simp_all add: frames_def)

lemma length_frame [simp]: "length (frame r) = length r + 4"
  by (simp add: frame_def)

lemma iter_frames:
  "holds_at off (frames rs) m \<Longrightarrow> list_all (\<lambda>r. length r < 2 ^ 32) rs \<Longrightarrow> map snd (iter_from m (off + length (frames rs)) off) = rs"
proof (induction rs arbitrary: off)
  case (Cons r rs)
  have h: "holds_at off (le_bytes 4 (length r)) m" "holds_at (off + 4) r m" "holds_at (off + 4 + length r) (frames rs) m"
    using Cons.prems(1) by (simp_all add: holds_append frame_def add_ac)
  then have t: "take 4 (drop off m) = le_bytes 4 (length r)" "take (length r) (drop (off + 4) m) = r"
    unfolding holds_iff_take by simp_all
  have "le_val (le_bytes 4 (length r)) = length r" using Cons.prems(2) by (intro le_val_le_bytes) simp
  then have "map snd (iter_from m (off + length (frames (r # rs))) off) =
      r # map snd (iter_from m (off + length (frames (r # rs))) (off + 4 + length r))"
    by (subst iter_from.simps) (simp add: t Let_def)
  then show ?case using Cons.IH [OF h(3)] Cons.prems(2) by (simp add: add_ac)
qed (simp add: iter_from.simps)

section \<open>Invariant\<close>

definition mark :: "bytes list \<Rightarrow> nat \<Rightarrow> bytes \<Rightarrow> bool" where
  "mark rs k m \<longleftrightarrow> (\<exists>h. holds_at 0 (le_bytes 8 h) m \<and> h < 2 ^ 64 \<and> max h 8 = 8 + length (frames (take k rs)))"

definition durable :: "bytes list \<Rightarrow> nat \<Rightarrow> bytes \<Rightarrow> bool" where
  "durable rs k m \<longleftrightarrow> holds_at 8 (frames (take k rs)) m"

definition jshape :: "nat \<Rightarrow> journal_sys \<Rightarrow> bool" where
  "jshape cap st \<longleftrightarrow>
     length (jmem (jr st)) = cap \<and> length (jdisk (jr st)) = cap \<and> jcap (jr st) = cap \<and> cap < 2 ^ 64 \<and>
     jcursor (jr st) = 8 + length (frames (jlog st)) \<and> list_all (\<lambda>r. length r < 2 ^ 32) (jlog st) \<and>
     durable (jlog st) (length (jlog st)) (jmem (jr st)) \<and>
     (phase st = JSynced \<longrightarrow> durable (jlog st) (length (jlog st)) (jdisk (jr st)))"

definition jmarks :: "nat \<Rightarrow> nat \<Rightarrow> journal_sys \<Rightarrow> bool" where
  "jmarks km kd st \<longleftrightarrow>
     mark (jlog st) km (jmem (jr st)) \<and> mark (jlog st) kd (jdisk (jr st)) \<and> durable (jlog st) km (jdisk (jr st)) \<and>
     acked st \<le> kd \<and> kd \<le> km \<and> km \<le> length (jlog st) \<and> (phase st = JHeader \<longrightarrow> km = length (jlog st))"

definition jinv :: "nat \<Rightarrow> journal_sys \<Rightarrow> bool" where
  "jinv cap st \<longleftrightarrow> jshape cap st \<and> (\<exists>km kd. jmarks km kd st)"

lemma frames_take_le: "k \<le> k' \<Longrightarrow> frames (take k' rs) = frames (take k rs) @ frames (drop k (take k' rs))"
  by (metis append_take_drop_id frames_simps(3) min.absorb1 take_take)

lemma durable_mono: "k \<le> k' \<Longrightarrow> durable rs k' m \<Longrightarrow> durable rs k m"
  by (simp add: durable_def frames_take_le holds_append)

lemma durable_header: "durable rs k m \<Longrightarrow> 8 \<le> length m \<Longrightarrow> durable rs k (copy_to 0 (le_bytes 8 c) m)"
  unfolding durable_def by (rule holds_copy_other) simp_all

lemma durable_writeback:
  assumes "jshape cap st" "durable (jlog st) k (jdisk (jr st))"
  shows "durable (jlog st) k (jdisk (writeback page S (jr st)))"
proof -
  have "durable (jlog st) (min k (length (jlog st))) (jmem (jr st))"
    using assms(1) durable_mono [of "min k (length (jlog st))" "length (jlog st)"] by (auto simp: jshape_def)
  then have "durable (jlog st) k (jmem (jr st))" by (simp add: durable_def take_all_iff min_def split: if_splits)
  then show ?thesis using assms(2) writeback_keeps by (auto simp: durable_def)
qed

lemma mark_writeback:
  assumes "8 \<le> page" "mark rs km (jmem j)" "mark rs kd (jdisk j)"
  shows "mark rs (if S 0 then km else kd) (jdisk (writeback page S j))"
proof -
  obtain hm hd where "holds_at 0 (le_bytes 8 hm) (jmem j)" "holds_at 0 (le_bytes 8 hd) (jdisk j)"
    "hm < 2 ^ 64" "hd < 2 ^ 64" "max hm 8 = 8 + length (frames (take km rs))" "max hd 8 = 8 + length (frames (take kd rs))"
    using assms(2,3) unfolding mark_def by blast
  then show ?thesis
    using writeback_header [OF assms(1), of "le_bytes 8 hm" "le_bytes 8 hd" j S] unfolding mark_def
    by (cases "S 0") auto
qed

lemma marks_writeback:
  assumes "8 \<le> page" "jshape cap st" "jmarks km kd st"
  shows "jmarks km (if S 0 then km else kd) (st\<lparr>jr := writeback page S (jr st)\<rparr>)"
    and "jshape cap (st\<lparr>jr := writeback page S (jr st)\<rparr>)"
  using assms(2,3) durable_writeback [OF assms(2)] mark_writeback [OF assms(1), of "jlog st" km "jr st" kd S]
  by (auto simp: jmarks_def jshape_def)

lemma jinv_append:
  assumes "jinv cap st" "phase st = JIdle" "length payload < 2 ^ 32" "journal_append payload (jr st) = (j', Some off)"
  shows "jinv cap (st\<lparr>jr := j', jlog := jlog st @ [payload]\<rparr>)"
proof -
  let ?rs = "jlog st" and ?c = "jcursor (jr st)"
  let ?m1 = "copy_to ?c (le_bytes 4 (length payload)) (jmem (jr st))"
  have i: "length (jmem (jr st)) = cap" "?c = 8 + length (frames ?rs)" "holds_at 8 (frames ?rs) (jmem (jr st))" "jcap (jr st) = cap"
    using assms(1) by (simp_all add: jinv_def jshape_def durable_def)
  have fit: "?c + length payload + 4 \<le> cap" and j': "jmem j' = copy_to (?c + 4) payload ?m1" "jcursor j' = ?c + (length payload + 4)"
      "jdisk j' = jdisk (jr st)" "jcap j' = cap"
    using assms(4) i(4) by (auto simp: journal_append_def Let_def split: if_splits)
  have "holds_at 8 (frames ?rs) (jmem j')" "length (jmem j') = cap"
    unfolding j'(1) using i fit by (auto intro!: holds_copy_other)
  moreover have "holds_at ?c (le_bytes 4 (length payload)) (jmem j')" "holds_at (?c + 4) payload (jmem j')"
    unfolding j'(1) using i fit by (auto intro!: holds_copy_other holds_copy_to)
  ultimately have new: "holds_at 8 (frames (?rs @ [payload])) (jmem j')" "length (jmem j') = cap"
    using i(2) by (simp_all add: holds_append frame_def)
  obtain km kd where k: "jmarks km kd st" using assms(1) by (auto simp: jinv_def)
  then have "mark ?rs km (jmem j')" using i fit unfolding jmarks_def mark_def j'(1) by (auto intro!: holds_copy_other)
  moreover have "mark (?rs @ [payload]) x m = mark ?rs x m" "durable (?rs @ [payload]) x m = durable ?rs x m" if "x \<le> length ?rs" for x m
    using that by (simp_all add: mark_def durable_def)
  ultimately have "jmarks km kd (st\<lparr>jr := j', jlog := ?rs @ [payload]\<rparr>)"
    using k j'(3) assms(2) by (simp add: jmarks_def)
  moreover have "jshape cap (st\<lparr>jr := j', jlog := ?rs @ [payload]\<rparr>)"
    using assms new j' i(2) by (simp add: jinv_def jshape_def durable_def)
  ultimately show ?thesis unfolding jinv_def by blast
qed

lemma sync_data_durable:
  assumes "8 \<le> page" "jshape cap st"
  shows "durable (jlog st) (length (jlog st)) (jdisk (sync_data page (jr st)))"
proof -
  have d: "holds_at 8 (frames (jlog st)) (jmem (jr st))" "length (jmem (jr st)) = length (jdisk (jr st))"
      "jcursor (jr st) = 8 + length (frames (jlog st))"
    using assms(2) by (simp_all add: jshape_def durable_def)
  have "(8 + i) div page * page < jcursor (jr st)" if "i < length (frames (jlog st))" for i
    using that d(3) div_times_less_eq_dividend [of "8 + i" page] by linarith
  then show ?thesis
    using d writeback_brings [OF d(1), of "\<lambda>p. p * page < jcursor (jr st)" page]
    by (auto simp: durable_def sync_data_def sync_range_def HEADER_LEN_def holds_at_def)
qed

lemma jinv_data:
  assumes "8 \<le> page" "jinv cap st" "phase st = JIdle"
  shows "jinv cap (st\<lparr>jr := sync_data page (jr st), phase := JSynced\<rparr>)"
proof -
  obtain km kd where k: "jmarks km kd st" and sh: "jshape cap st" using assms(2) by (auto simp: jinv_def)
  obtain kd' where st': "jmarks km kd' (st\<lparr>jr := sync_data page (jr st)\<rparr>)" "jshape cap (st\<lparr>jr := sync_data page (jr st)\<rparr>)"
    using k sh marks_writeback [OF assms(1) sh k] by (cases "jcursor (jr st) > HEADER_LEN") (auto simp: sync_data_def sync_range_def)
  then have "jmarks km kd' (st\<lparr>jr := sync_data page (jr st), phase := JSynced\<rparr>)" using assms(3) by (simp add: jmarks_def)
  moreover have "jshape cap (st\<lparr>jr := sync_data page (jr st), phase := JSynced\<rparr>)"
    using st'(2) sync_data_durable [OF assms(1) sh] by (simp add: jshape_def)
  ultimately show ?thesis unfolding jinv_def by blast
qed

lemma jinv_header:
  assumes "jinv cap st" "phase st = JSynced"
  shows "jinv cap (st\<lparr>jr := write_header (jr st), phase := JHeader\<rparr>)"
proof -
  obtain km kd where k: "jmarks km kd st" and sh: "jshape cap st" using assms(1) by (auto simp: jinv_def)
  have b: "8 + length (frames (jlog st)) \<le> cap" "cap < 2 ^ 64" "length (jmem (jr st)) = cap"
    using sh by (auto simp: jshape_def durable_def holds_at_def)
  then have "holds_at 0 (le_bytes 8 (jcursor (jr st))) (jmem (write_header (jr st)))"
    by (simp add: write_header_def holds_copy_to)
  moreover have "jcursor (jr st) = 8 + length (frames (jlog st))" using sh by (simp add: jshape_def)
  ultimately have "mark (jlog st) (length (jlog st)) (jmem (write_header (jr st)))"
    unfolding mark_def using b by (intro exI [of _ "jcursor (jr st)"]) simp
  then have "jmarks (length (jlog st)) kd (st\<lparr>jr := write_header (jr st), phase := JHeader\<rparr>)"
    using k sh assms(2) by (simp add: jmarks_def jshape_def write_header_def)
  moreover have "jshape cap (st\<lparr>jr := write_header (jr st), phase := JHeader\<rparr>)"
    using sh b durable_header by (simp add: jshape_def write_header_def)
  ultimately show ?thesis unfolding jinv_def by blast
qed

lemma jinv_done:
  assumes "8 \<le> page" "jinv cap st" "phase st = JHeader"
  shows "jinv cap (st\<lparr>jr := sync_range page page (jr st), phase := JIdle, acked := length (jlog st)\<rparr>)"
proof -
  obtain km kd where k: "jmarks km kd st" and sh: "jshape cap st" using assms(2) by (auto simp: jinv_def)
  have "jmarks km km (st\<lparr>jr := sync_range page page (jr st)\<rparr>)" "jshape cap (st\<lparr>jr := sync_range page page (jr st)\<rparr>)"
    using marks_writeback [OF assms(1) sh k, of "\<lambda>p. p * page < page"] assms(1) by (simp_all add: sync_range_def)
  then have "jmarks km km (st\<lparr>jr := sync_range page page (jr st), phase := JIdle, acked := length (jlog st)\<rparr>)"
    "jshape cap (st\<lparr>jr := sync_range page page (jr st), phase := JIdle, acked := length (jlog st)\<rparr>)"
    using assms(3) k by (auto simp: jmarks_def jshape_def)
  then show ?thesis unfolding jinv_def by blast
qed

lemma le_bytes_zero: "le_bytes n 0 = replicate n 0"
  by (induction n) auto

lemma jinv_init:
  assumes "8 \<le> cap" "cap < 2 ^ 64"
  shows "jinv cap (journal_init cap)"
proof -
  have "mark [] 0 (replicate cap 0)"
    unfolding mark_def using assms by (intro exI [of _ 0]) (simp_all add: holds_at_def le_bytes_zero)
  then have "jmarks 0 0 (journal_init cap)" using assms
    by (simp add: jmarks_def journal_init_def journal_create_def durable_def holds_at_def)
  moreover have "jshape cap (journal_init cap)" using assms
    by (simp add: jshape_def journal_init_def journal_create_def durable_def holds_at_def HEADER_LEN_def)
  ultimately show ?thesis unfolding jinv_def by blast
qed

lemma jinv_step: "jstep page st st' \<Longrightarrow> 8 \<le> page \<Longrightarrow> jinv cap st \<Longrightarrow> jinv cap st'"
proof (induction rule: jstep.induct)
  case (j_fail st)
  then show ?case by (auto simp: jinv_def jshape_def jmarks_def)
next
  case (j_writeback st S)
  then show ?case using marks_writeback [of page cap st _ _ S] unfolding jinv_def by blast
qed (simp_all add: jinv_append jinv_data jinv_header jinv_done)

lemma jreach_inv: "jreach page cap st \<Longrightarrow> 8 \<le> page \<Longrightarrow> 8 \<le> cap \<Longrightarrow> cap < 2 ^ 64 \<Longrightarrow> jinv cap st"
  by (induction rule: jreach.induct) (auto simp: jinv_init intro: jinv_step)

lemma recovered_take:
  assumes "jshape cap st" "jmarks km kd st"
  shows "recovered (jdisk (jr st)) = take kd (jlog st)"
proof -
  let ?d = "jdisk (jr st)" and ?rs = "take kd (jlog st)"
  obtain h where h: "holds_at 0 (le_bytes 8 h) ?d" "h < 2 ^ 64" "max h 8 = 8 + length (frames ?rs)"
    using assms(2) unfolding jmarks_def mark_def by blast
  have "take 8 ?d = le_bytes 8 h" using h(1) unfolding holds_iff_take by simp
  moreover have "le_val (le_bytes 8 h) = h" by (rule le_val_le_bytes) (use h(2) in simp)
  ultimately have c: "committed_cursor ?d = 8 + length (frames ?rs)" using h(3) by (simp add: committed_cursor_def HEADER_LEN_def)
  have "holds_at 8 (frames ?rs) ?d" using assms(2) durable_mono [of kd km] by (auto simp: jmarks_def durable_def)
  moreover have "list_all (\<lambda>r. length r < 2 ^ 32) ?rs"
    using assms(1) by (auto simp: jshape_def list_all_iff dest: in_set_takeD)
  ultimately show ?thesis
    using iter_frames [of 8 ?rs ?d] c by (simp add: recovered_def journal_open_existing_def iter_records_def HEADER_LEN_def)
qed

text \<open>A commit is the run of its steps; when it reports success, all records are acknowledged.\<close>

lemma commit_steps:
  assumes "jreach page cap st" "phase st = JIdle" "journal_commit page ok1 ok2 (jr st) = (j', Some c)"
  shows "jreach page cap (st\<lparr>jr := j', acked := length (jlog st)\<rparr>)"
proof -
  have j': "j' = sync_range page page (write_header (sync_data page (jr st)))"
    using assms(3) by (auto simp: journal_commit_def Let_def split: if_splits)
  let ?s1 = "st\<lparr>jr := sync_data page (jr st), phase := JSynced\<rparr>"
  let ?s2 = "?s1\<lparr>jr := write_header (jr ?s1), phase := JHeader\<rparr>"
  have "jreach page cap ?s1" by (rule jreach_step [OF assms(1) j_data [OF assms(2)]])
  then have "jreach page cap ?s2" by (rule jreach_step) (rule j_header, simp)
  then have "jreach page cap (?s2\<lparr>jr := sync_range page page (jr ?s2), phase := JIdle, acked := length (jlog ?s2)\<rparr>)"
    by (rule jreach_step) (rule j_done, simp)
  moreover have "st\<lparr>jr := j', acked := length (jlog st)\<rparr> =
      ?s2\<lparr>jr := sync_range page page (jr ?s2), phase := JIdle, acked := length (jlog ?s2)\<rparr>"
    using assms(2) j' by simp
  ultimately show ?thesis by simp
qed

section \<open>Property\<close>

text \<open>
  C7. Crash safety: whenever the process or the machine stops, between any two steps of the
  writer and whatever pages the kernel has written back, recovery from the disk reads a prefix
  of the appended records that holds at least every record of the last successful commit; and
  right after a commit that reports success it reads all of them.
\<close>
theorem journal_crash_safe:
  assumes "8 \<le> page" and "8 \<le> cap" and "cap < 2 ^ 64" and "jreach page cap st"
  shows "(\<exists>k. acked st \<le> k \<and> k \<le> length (jlog st) \<and> recovered (jdisk (jr st)) = take k (jlog st)) \<and>
    (\<forall>ok1 ok2 j' c. phase st = JIdle \<longrightarrow> journal_commit page ok1 ok2 (jr st) = (j', Some c) \<longrightarrow> recovered (jdisk j') = jlog st)"
proof -
  have safe: "\<exists>k. acked s \<le> k \<and> k \<le> length (jlog s) \<and> recovered (jdisk (jr s)) = take k (jlog s)" if r: "jreach page cap s" for s
  proof -
    obtain km kd where k: "jmarks km kd s" and sh: "jshape cap s" using jreach_inv [OF r assms(1-3)] by (auto simp: jinv_def)
    then have "acked s \<le> kd" "kd \<le> length (jlog s)" by (auto simp: jmarks_def)
    then show ?thesis using recovered_take [OF sh k] by blast
  qed
  have "recovered (jdisk j') = jlog st" if "phase st = JIdle" "journal_commit page ok1 ok2 (jr st) = (j', Some c)" for ok1 ok2 j' c
    using safe [OF commit_steps [OF assms(4) that]] by auto
  then show ?thesis using safe [OF assms(4)] by blast
qed

definition demo_journal :: journal_sys where
  "demo_journal = \<lparr>jr = fst (journal_append [7, 8] (journal_create 32)), phase = JIdle, jlog = [[7, 8]], acked = 0\<rparr>"

theorem journal_crash_safe_witness:
  "jreach 8 32 demo_journal \<and> recovered (jdisk (jr demo_journal)) = [] \<and>
   recovered (jdisk (fst (journal_commit 8 True True (jr demo_journal)))) = [[7, 8]]"
proof -
  have "journal_append [7, 8] (jr (journal_init 32)) = (fst (journal_append [7, 8] (journal_create 32)), Some 8)"
    by (simp add: journal_init_def journal_append_def journal_create_def HEADER_LEN_def)
  then have "jreach 8 32 ((journal_init 32)\<lparr>jr := fst (journal_append [7, 8] (journal_create 32)), jlog := jlog (journal_init 32) @ [[7, 8]]\<rparr>)"
    by (intro jreach_step [OF jreach_init] j_append) (simp_all add: journal_init_def)
  then have r: "jreach 8 32 demo_journal" by (simp add: journal_init_def demo_journal_def)
  have "snd (journal_commit 8 True True (jr demo_journal)) = Some 14"
    by (simp add: journal_commit_def demo_journal_def journal_append_def journal_create_def HEADER_LEN_def)
  then have c: "journal_commit 8 True True (jr demo_journal) = (fst (journal_commit 8 True True (jr demo_journal)), Some 14)"
    by (metis prod.collapse)
  have i: "phase demo_journal = JIdle" by (simp add: demo_journal_def)
  have "recovered (jdisk (jr demo_journal)) = []" by code_simp
  moreover have "recovered (jdisk (fst (journal_commit 8 True True (jr demo_journal)))) = jlog demo_journal"
    by (rule conjunct2 [OF journal_crash_safe [OF _ _ _ r], rule_format, OF _ _ _ i c]) simp_all
  ultimately show ?thesis using r by (simp add: demo_journal_def)
qed

end
