(* ===== verification/Mold.thy ===== *)
theory Mold
  imports Prelude
begin

text \<open>
  The market-data transport of \<open>crates/match-moldudp64/src\<close>: packet headers (\<open>types.rs\<close>), the
  bounded history (\<open>ring_buf.rs\<close>), the publisher, the retransmit server and the subscriber.
  Sockets are not part of the state: an operation that sends returns the datagram, and a
  datagram that arrives is an argument.  Sequence numbers are \<open>u64\<close> with the wrap-around
  written out; lengths and counts are cut to 16 bits by their encoding, as \<open>as u16\<close> does.
\<close>

section \<open>Headers\<close>

definition MOLD_SESSION_LEN :: nat where "MOLD_SESSION_LEN = 10"
definition MOLD_DOWNSTREAM_HEADER_LEN :: nat where "MOLD_DOWNSTREAM_HEADER_LEN = 20"
definition MOLD_REQUEST_HEADER_LEN :: nat where "MOLD_REQUEST_HEADER_LEN = 20"
definition MOLD_BLOCK_HEADER_LEN :: nat where "MOLD_BLOCK_HEADER_LEN = 2"
definition MOLD_MAX_DATAGRAM :: nat where "MOLD_MAX_DATAGRAM = 1472"

definition pack_session :: "bytes \<Rightarrow> bytes" where
  "pack_session session =
     (let n = min (length session) MOLD_SESSION_LEN
      in take n session @ replicate (MOLD_SESSION_LEN - n) 0)"

record downstream_header =
  d_session :: bytes
  d_seq :: nat
  d_count :: nat

definition encode_downstream :: "downstream_header \<Rightarrow> bytes" where
  "encode_downstream h = d_session h @ be_bytes 8 (d_seq h) @ be_bytes 2 (d_count h)"

definition decode_downstream :: "bytes \<Rightarrow> downstream_header option" where
  "decode_downstream buf =
     (if length buf < MOLD_DOWNSTREAM_HEADER_LEN then None
      else Some \<lparr>d_session = take MOLD_SESSION_LEN buf, d_seq = be_val (take 8 (drop MOLD_SESSION_LEN buf)),
                 d_count = be_val (take 2 (drop (MOLD_SESSION_LEN + 8) buf))\<rparr>)"

record request_header =
  r_session :: bytes
  r_start :: nat
  r_count :: nat

definition encode_request :: "request_header \<Rightarrow> bytes" where
  "encode_request h = r_session h @ be_bytes 8 (r_start h) @ be_bytes 2 (r_count h)"

definition decode_request :: "bytes \<Rightarrow> request_header option" where
  "decode_request buf =
     (if length buf < MOLD_REQUEST_HEADER_LEN then None
      else Some \<lparr>r_session = take MOLD_SESSION_LEN buf, r_start = be_val (take 8 (drop MOLD_SESSION_LEN buf)),
                 r_count = be_val (take 2 (drop (MOLD_SESSION_LEN + 8) buf))\<rparr>)"

section \<open>Bounded history\<close>

type_synonym cached_message = "nat \<times> bytes"

record message_ring =
  slots :: "cached_message option list"
  ring_cap :: nat
  write_pos :: nat
  base_seq :: "nat option"
  first_seq :: "nat option"

text \<open>A capacity of zero is refused with a panic.\<close>

definition message_ring_new :: "nat \<Rightarrow> message_ring option" where
  "message_ring_new capacity =
     (if capacity = 0 then None
      else Some \<lparr>slots = replicate capacity None, ring_cap = capacity, write_pos = 0, base_seq = None, first_seq = None\<rparr>)"

definition index_of :: "message_ring \<Rightarrow> nat \<Rightarrow> nat \<Rightarrow> nat" where
  "index_of r base seq = (seq + 2 ^ 64 - base) mod 2 ^ 64 mod ring_cap r"

definition ring_push :: "nat \<Rightarrow> bytes \<Rightarrow> message_ring \<Rightarrow> message_ring" where
  "ring_push seq payload r =
     (let floor = (case slots r ! write_pos r of
                     None \<Rightarrow> first_seq r
                   | Some m \<Rightarrow>
                       Some (case first_seq r of
                               None \<Rightarrow> u64_add (fst m) 1
                             | Some f \<Rightarrow> max f (u64_add (fst m) 1)))
      in r\<lparr>first_seq := (case floor of None \<Rightarrow> Some seq | Some f \<Rightarrow> Some f),
           slots := (slots r)[write_pos r := Some (seq, payload)],
           write_pos := (write_pos r + 1) mod ring_cap r,
           base_seq := (case base_seq r of None \<Rightarrow> Some seq | Some b \<Rightarrow> Some b)\<rparr>)"

definition lookup_at :: "message_ring \<Rightarrow> nat \<Rightarrow> nat \<Rightarrow> cached_message option" where
  "lookup_at r base seq =
     (case slots r ! index_of r base seq of
        Some m \<Rightarrow> if fst m = seq then Some m else None
      | None \<Rightarrow> None)"

text \<open>\<open>get\<close> on an empty ring panics.\<close>

definition message_ring_get :: "nat \<Rightarrow> message_ring \<Rightarrow> cached_message option option" where
  "message_ring_get seq r = (case base_seq r of None \<Rightarrow> None | Some base \<Rightarrow> Some (lookup_at r base seq))"

fun collect :: "message_ring \<Rightarrow> nat \<Rightarrow> nat list \<Rightarrow> cached_message list" where
  "collect r base [] = []"
| "collect r base (seq # seqs) =
     (case lookup_at r base seq of None \<Rightarrow> [] | Some m \<Rightarrow> m # collect r base seqs)"

definition get_range :: "nat \<Rightarrow> nat \<Rightarrow> message_ring \<Rightarrow> cached_message list" where
  "get_range start count r =
     (case base_seq r of
        None \<Rightarrow> []
      | Some base \<Rightarrow> collect r base [start..<min (start + count) (2 ^ 64 - 1)])"

section \<open>Publisher\<close>

record mold_publisher =
  p_session :: bytes
  p_next :: nat
  p_cache :: message_ring

definition publisher_new :: "bytes \<Rightarrow> nat \<Rightarrow> mold_publisher option" where
  "publisher_new session cache_capacity =
     map_option (\<lambda>c. \<lparr>p_session = pack_session session, p_next = 1, p_cache = c\<rparr>) (message_ring_new cache_capacity)"

definition block :: "bytes \<Rightarrow> bytes" where
  "block payload = be_bytes 2 (length payload) @ payload"

definition build_packet :: "bytes \<Rightarrow> nat \<Rightarrow> bytes list \<Rightarrow> bytes" where
  "build_packet session seq msgs =
     encode_downstream \<lparr>d_session = session, d_seq = seq, d_count = length msgs\<rparr> @ concat (map block msgs)"

definition publish :: "bytes \<Rightarrow> mold_publisher \<Rightarrow> mold_publisher \<times> bytes" where
  "publish payload p =
     (let seq = p_next p
      in (p\<lparr>p_next := u64_add seq 1, p_cache := ring_push seq payload (p_cache p)\<rparr>,
          build_packet (p_session p) seq [payload]))"

definition publish_tagged :: "u8 \<Rightarrow> bytes \<Rightarrow> mold_publisher \<Rightarrow> mold_publisher \<times> bytes" where
  "publish_tagged tag payload p = publish (tag # payload) p"

text \<open>The messages that fit into one datagram: a prefix of the batch.\<close>

fun pack_blocks :: "nat \<Rightarrow> nat \<Rightarrow> bytes list \<Rightarrow> bytes list \<Rightarrow> bytes list" where
  "pack_blocks mx total_len blocks [] = blocks"
| "pack_blocks mx total_len blocks (payload # msgs) =
     (let block_total = MOLD_BLOCK_HEADER_LEN + length payload
      in if blocks \<noteq> [] \<and> total_len + block_total > mx then blocks
         else if blocks = [] \<and> block_total + MOLD_DOWNSTREAM_HEADER_LEN > mx then blocks
         else pack_blocks mx (total_len + block_total) (blocks @ [payload]) msgs)"

fun push_seqs :: "bytes list \<Rightarrow> mold_publisher \<Rightarrow> mold_publisher" where
  "push_seqs [] p = p"
| "push_seqs (payload # msgs) p =
     push_seqs msgs (p\<lparr>p_next := u64_add (p_next p) 1, p_cache := ring_push (p_next p) payload (p_cache p)\<rparr>)"

definition publish_batch :: "bytes list \<Rightarrow> nat \<Rightarrow> mold_publisher \<Rightarrow> mold_publisher \<times> bytes option \<times> nat" where
  "publish_batch msgs max_datagram_bytes p =
     (if msgs = [] then (p, None, 0)
      else let mx = (if max_datagram_bytes = 0 then MOLD_MAX_DATAGRAM else max_datagram_bytes);
               blocks = pack_blocks mx MOLD_DOWNSTREAM_HEADER_LEN [] msgs
           in if blocks = [] then (p, None, 0)
              else (push_seqs blocks p, Some (build_packet (p_session p) (p_next p) blocks), length blocks))"

definition send_heartbeat :: "mold_publisher \<Rightarrow> bytes" where
  "send_heartbeat p = encode_downstream \<lparr>d_session = p_session p, d_seq = p_next p, d_count = 0\<rparr>"

definition mold_last_seq :: "mold_publisher \<Rightarrow> nat" where
  "mold_last_seq p = p_next p - 1"

section \<open>Retransmit server\<close>

definition reply_range :: "bytes \<Rightarrow> message_ring \<Rightarrow> nat \<Rightarrow> nat \<Rightarrow> bytes option" where
  "reply_range session cache start_seq count =
     (let msgs = get_range start_seq count cache
      in if msgs = [] then None else Some (build_packet session start_seq (map snd msgs)))"

definition serve_once :: "bytes \<Rightarrow> message_ring \<Rightarrow> bytes \<Rightarrow> bytes option" where
  "serve_once session cache buf =
     (case decode_request buf of
        None \<Rightarrow> None
      | Some req \<Rightarrow>
          if r_session req \<noteq> session then None
          else reply_range session cache (r_start req) (r_count req))"

section \<open>Subscriber\<close>

record gap_info =
  gap_expected :: nat
  gap_first :: nat
  gap_lost :: nat

record parse_outcome =
  o_first :: nat
  o_count :: nat
  o_heartbeat :: bool
  o_gap :: "gap_info option"
  o_messages :: "(nat \<times> bytes) list"

record mold_subscriber =
  s_session :: bytes
  s_last :: "nat option"

definition subscriber_new :: "bytes \<Rightarrow> mold_subscriber" where
  "subscriber_new session = \<lparr>s_session = pack_session session, s_last = None\<rparr>"

text \<open>The message blocks, and whether the tail was cut off.\<close>

fun parse_blocks :: "nat \<Rightarrow> nat \<Rightarrow> bytes \<Rightarrow> (nat \<times> bytes) list \<times> bool" where
  "parse_blocks 0 seq ptr = ([], False)"
| "parse_blocks (Suc n) seq ptr =
     (if length ptr < MOLD_BLOCK_HEADER_LEN then ([], True)
      else let len = be_val (take 2 ptr);
               ptr1 = drop MOLD_BLOCK_HEADER_LEN ptr
           in if length ptr1 < len then ([], True)
              else (case parse_blocks n (u64_add seq 1) (drop len ptr1) of
                      (msgs, truncated) \<Rightarrow> ((seq, take len ptr1) # msgs, truncated)))"

definition heartbeat_last :: "nat option \<Rightarrow> nat \<Rightarrow> nat option" where
  "heartbeat_last last_seq first =
     (case last_seq of
        Some l \<Rightarrow> Some (max l (first - 1))
      | None \<Rightarrow> if first > 1 then Some (first - 1) else None)"

definition gap_of :: "nat option \<Rightarrow> nat \<Rightarrow> gap_info option" where
  "gap_of last_seq first =
     (let expected = (case last_seq of Some l \<Rightarrow> u64_add l 1 | None \<Rightarrow> first)
      in if first > expected then Some \<lparr>gap_expected = expected, gap_first = first, gap_lost = first - expected\<rparr> else None)"

text \<open>
  \<open>parse_packet\<close> of a release build, where the comparison of the session is compiled out; a
  datagram without a whole header panics.
\<close>

definition parse_packet :: "bytes \<Rightarrow> mold_subscriber \<Rightarrow> (mold_subscriber \<times> parse_outcome) option" where
  "parse_packet buf s =
     (case decode_downstream buf of
        None \<Rightarrow> None
      | Some h \<Rightarrow>
          let first = d_seq h; count = d_count h
          in if count = 0 then
               Some (s\<lparr>s_last := heartbeat_last (s_last s) first\<rparr>,
                     \<lparr>o_first = first, o_count = 0, o_heartbeat = True, o_gap = None, o_messages = []\<rparr>)
             else
               (case parse_blocks count first (drop MOLD_DOWNSTREAM_HEADER_LEN buf) of
                  (messages, truncated) \<Rightarrow>
                    Some (if \<not> truncated \<and> messages \<noteq> []
                          then let end_seq = u64_add first (length messages - 1)
                               in s\<lparr>s_last := Some (case s_last s of Some l \<Rightarrow> max l end_seq | None \<Rightarrow> end_seq)\<rparr>
                          else s,
                          \<lparr>o_first = first, o_count = count, o_heartbeat = False, o_gap = gap_of (s_last s) first,
                           o_messages = messages\<rparr>)))"

text \<open>\<open>recv\<close>: a short datagram is dropped before it is parsed.\<close>

definition mold_recv :: "bytes \<Rightarrow> mold_subscriber \<Rightarrow> (mold_subscriber \<times> parse_outcome option) option" where
  "mold_recv data s =
     (if length data < MOLD_DOWNSTREAM_HEADER_LEN then Some (s, None)
      else map_option (\<lambda>(s', out). (s', Some out)) (parse_packet data s))"

definition send_nak :: "nat \<Rightarrow> nat \<Rightarrow> mold_subscriber \<Rightarrow> bytes" where
  "send_nak start_seq count s = encode_request \<lparr>r_session = s_session s, r_start = start_seq, r_count = count\<rparr>"

definition auto_nak :: "parse_outcome \<Rightarrow> nat \<Rightarrow> mold_subscriber \<Rightarrow> bytes option" where
  "auto_nak out max_request s =
     map_option (\<lambda>gap. send_nak (gap_expected gap) (min (gap_lost gap) max_request) s) (o_gap out)"

end
