(* ===== verification/Mold_Props.thy ===== *)
theory Mold_Props
  imports Mold
begin

text \<open>
  The market-data stream over a network that may lose, duplicate and reorder datagrams: what
  the subscriber delivers was published, what it does not deliver it reports (with the
  exception of what a heartbeat hides), and the retransmit server replays the history.
\<close>

section \<open>Packets\<close>

lemmas mold_lens = MOLD_SESSION_LEN_def MOLD_DOWNSTREAM_HEADER_LEN_def MOLD_REQUEST_HEADER_LEN_def MOLD_BLOCK_HEADER_LEN_def

lemma decode_encode_downstream:
  assumes "length (d_session h) = 10" "d_seq h < 2 ^ 64" "d_count h < 2 ^ 16"
  shows "decode_downstream (encode_downstream h @ bs) = Some h" "length (encode_downstream h) = 20"
  using assms by (simp_all add: decode_downstream_def encode_downstream_def mold_lens be_val_2 be_val_8)

lemma decode_encode_request:
  assumes "length (r_session h) = 10" "r_start h < 2 ^ 64" "r_count h < 2 ^ 16"
  shows "decode_request (encode_request h) = Some h"
  using assms by (simp add: decode_request_def encode_request_def mold_lens be_val_2 be_val_8)

lemma length_pack_session [simp]: "length (pack_session s) = 10"
  by (simp add: pack_session_def mold_lens Let_def)

lemma parse_blocks_concat:
  "list_all (\<lambda>m. length m < 2 ^ 16) msgs \<Longrightarrow> seq + length msgs < 2 ^ 64 \<Longrightarrow>
   parse_blocks (length msgs) seq (concat (map block msgs)) = (zip [seq..<seq + length msgs] msgs, False)"
proof (induction msgs arbitrary: seq)
  case (Cons m msgs)
  have "be_val (take 2 (concat (map block (m # msgs)))) = length m" using Cons.prems(1) by (simp add: block_def be_val_2)
  moreover have "u64_add seq 1 = Suc seq" using Cons.prems(2) by (simp add: u64_add_exact)
  moreover have "[seq..<seq + length (m # msgs)] = seq # [Suc seq..<Suc seq + length msgs]" by (simp add: upt_conv_Cons del: upt_Suc)
  ultimately show ?case
    using Cons.IH [of "Suc seq"] Cons.prems by (simp add: block_def mold_lens del: upt_Suc)
qed simp

section \<open>What is on the wire\<close>

text \<open>A datagram that carries published messages under their numbers, or a heartbeat.\<close>

definition slice_packet :: "bytes \<Rightarrow> bytes list \<Rightarrow> nat \<Rightarrow> nat \<Rightarrow> bytes" where
  "slice_packet session h seq n = build_packet session seq (take n (drop (seq - 1) h))"

definition data_ok :: "bytes list \<Rightarrow> nat \<Rightarrow> nat \<Rightarrow> bool" where
  "data_ok h seq n \<longleftrightarrow> 1 \<le> seq \<and> 0 < n \<and> n < 2 ^ 16 \<and> seq + n \<le> length h + 1"

definition genuine :: "bytes \<Rightarrow> bytes list \<Rightarrow> bytes \<Rightarrow> bool" where
  "genuine session h pkt \<longleftrightarrow>
     (\<exists>seq n. data_ok h seq n \<and> pkt = slice_packet session h seq n) \<or>
     (\<exists>k \<le> length h. pkt = encode_downstream \<lparr>d_session = session, d_seq = k + 1, d_count = 0\<rparr>)"

definition hist_ok :: "bytes list \<Rightarrow> bool" where
  "hist_ok h \<longleftrightarrow> list_all (\<lambda>m. length m < 2 ^ 16) h \<and> length h + 1 < 2 ^ 64"

lemma slice_mono: "data_ok h seq n \<Longrightarrow> slice_packet session (h @ h') seq n = slice_packet session h seq n \<and> data_ok (h @ h') seq n"
  by (auto simp: slice_packet_def data_ok_def)

lemma genuine_mono: "genuine session h pkt \<Longrightarrow> genuine session (h @ h') pkt"
  unfolding genuine_def using slice_mono by (metis le_add1 length_append order_trans)

definition numbered :: "bytes list \<Rightarrow> nat \<Rightarrow> nat \<Rightarrow> (nat \<times> bytes) list" where
  "numbered h seq n = zip [seq..<seq + n] (take n (drop (seq - 1) h))"

lemma numbered_sound: "data_ok h seq n \<Longrightarrow> (q, p) \<in> set (numbered h seq n) \<Longrightarrow> 1 \<le> q \<and> q \<le> length h \<and> p = h ! (q - 1)"
  by (auto simp: numbered_def data_ok_def set_zip)

lemma numbered_keys: "data_ok h seq n \<Longrightarrow> map fst (numbered h seq n) = [seq..<seq + n]"
  unfolding numbered_def by (intro map_fst_zip) (auto simp: data_ok_def)

lemma numbered_complete: "data_ok h seq n \<Longrightarrow> fst ` set (numbered h seq n) = {seq..<seq + n}"
  using numbered_keys [of h seq n] by (metis set_map set_upt)

lemma parse_data:
  assumes "length session = 10" "hist_ok h" "data_ok h seq n"
  shows "parse_packet (slice_packet session h seq n) s =
    Some (s\<lparr>s_last := Some (case s_last s of Some l \<Rightarrow> max l (seq + n - 1) | None \<Rightarrow> seq + n - 1)\<rparr>,
      \<lparr>o_first = seq, o_count = n, o_heartbeat = False, o_gap = gap_of (s_last s) seq, o_messages = numbered h seq n\<rparr>)"
proof -
  let ?ms = "take n (drop (seq - 1) h)"
  have b: "length ?ms = n" "0 < n" "n < 2 ^ 16" "seq + n < 2 ^ 64" using assms(2,3) by (auto simp: data_ok_def hist_ok_def)
  have "list_all (\<lambda>m. length m < 2 ^ 16) ?ms" using assms(2) by (auto simp: hist_ok_def list_all_iff dest: in_set_takeD in_set_dropD)
  from parse_blocks_concat [OF this, of seq] have
    pb: "parse_blocks n seq (concat (map block ?ms)) = (numbered h seq n, False)" using b by (simp add: numbered_def)
  let ?h = "\<lparr>d_session = session, d_seq = seq, d_count = n\<rparr>"
  have d: "decode_downstream (encode_downstream ?h @ bs) = Some ?h" "length (encode_downstream ?h) = 20" for bs
    using decode_encode_downstream [of ?h] assms(1) b by simp_all
  have "length (numbered h seq n) = n" using b by (simp add: numbered_def)
  then show ?thesis
    using pb b d u64_add_exact [of seq "n - 1"]
    by (auto simp: slice_packet_def build_packet_def parse_packet_def mold_lens Let_def split: option.split)
qed

lemma parse_heartbeat:
  assumes "length session = 10" "k < 2 ^ 64"
  shows "parse_packet (encode_downstream \<lparr>d_session = session, d_seq = k, d_count = 0\<rparr>) s =
    Some (s\<lparr>s_last := heartbeat_last (s_last s) k\<rparr>,
      \<lparr>o_first = k, o_count = 0, o_heartbeat = True, o_gap = None, o_messages = []\<rparr>)"
  using decode_encode_downstream(1) [of "\<lparr>d_session = session, d_seq = k, d_count = 0\<rparr>" "[]"] assms
  by (simp add: parse_packet_def)

section \<open>The history\<close>

definition msg_ring_ok :: "nat \<Rightarrow> bytes list \<Rightarrow> message_ring \<Rightarrow> bool" where
  "msg_ring_ok cap h r \<longleftrightarrow>
     0 < cap \<and> length (slots r) = cap \<and> ring_cap r = cap \<and> write_pos r = length h mod cap \<and>
     base_seq r = (if h = [] then None else Some 1) \<and>
     (\<forall>k < length h. length h \<le> k + cap \<longrightarrow> slots r ! (k mod cap) = Some (k + 1, h ! k)) \<and>
     (\<forall>i < cap. \<forall>m. slots r ! i = Some m \<longrightarrow> (\<exists>k < length h. length h \<le> k + cap \<and> k mod cap = i \<and> m = (k + 1, h ! k)))"

lemma mod_window: "k < n \<Longrightarrow> n < k + cap \<Longrightarrow> k mod cap \<noteq> n mod (cap :: nat)"
  by (metis add_diff_cancel_left' add_less_imp_less_left le_add_diff_inverse less_imp_le_nat mod_eq_dvd_iff_nat nat_dvd_not_less zero_less_diff)

lemma ring_new_msg: "message_ring_new cap = Some r \<Longrightarrow> msg_ring_ok cap [] r"
  by (auto simp: message_ring_new_def msg_ring_ok_def split: if_splits)

lemma msg_ring_slot:
  "msg_ring_ok cap h r \<Longrightarrow> i < cap \<Longrightarrow> slots r ! i = Some m \<Longrightarrow>
   \<exists>k < length h. length h \<le> k + cap \<and> k mod cap = i \<and> m = (k + 1, h ! k)"
  unfolding msg_ring_ok_def by blast

lemma ring_push_ok:
  assumes "msg_ring_ok cap h r"
  shows "msg_ring_ok cap (h @ [p]) (ring_push (length h + 1) p r)"
proof -
  let ?n = "length h" and ?r = "ring_push (length h + 1) p r"
  have r: "0 < cap" "length (slots r) = cap" "ring_cap r = cap" "write_pos r = ?n mod cap" using assms by (simp_all add: msg_ring_ok_def)
  have s: "slots ?r = (slots r)[?n mod cap := Some (?n + 1, p)]" using r by (simp add: ring_push_def Let_def)
  have "slots ?r ! (k mod cap) = Some (k + 1, (h @ [p]) ! k)" if "k < ?n + 1" "?n + 1 \<le> k + cap" for k
  proof (cases "k = ?n")
    case False
    then have "k mod cap \<noteq> ?n mod cap" using mod_window [of k ?n cap] that by simp
    then show ?thesis using assms that False s by (simp add: msg_ring_ok_def nth_append)
  qed (use s r in simp)
  moreover have "\<exists>k < ?n + 1. ?n + 1 \<le> k + cap \<and> k mod cap = i \<and> m = (k + 1, (h @ [p]) ! k)"
    if i: "i < cap" "slots ?r ! i = Some m" for i m
  proof (cases "i = ?n mod cap")
    case True
    then show ?thesis using i s r by (intro exI [of _ ?n]) auto
  next
    case False
    then have "slots r ! i = Some m" using i s by simp
    then obtain k where k: "k < ?n" "?n \<le> k + cap" "k mod cap = i" "m = (k + 1, h ! k)"
      using msg_ring_slot [OF assms i(1)] by blast
    then have "?n \<noteq> k + cap" using False by auto
    then show ?thesis using k by (intro exI [of _ k]) (auto simp: nth_append)
  qed
  moreover have "base_seq ?r = Some 1" "length (slots ?r) = cap" "ring_cap ?r = cap" "write_pos ?r = (?n + 1) mod cap"
    using assms by (auto simp: msg_ring_ok_def ring_push_def Let_def mod_Suc_eq)
  ultimately show ?thesis using r(1) by (simp add: msg_ring_ok_def)
qed

lemma lookup_window:
  assumes "msg_ring_ok cap h r" "length h < 2 ^ 64" "seq < 2 ^ 64"
  shows "lookup_at r 1 seq = (if 1 \<le> seq \<and> seq \<le> length h \<and> length h < seq + cap then Some (seq, h ! (seq - 1)) else None)"
proof -
  have c: "0 < cap" "ring_cap r = cap" using assms(1) by (simp_all add: msg_ring_ok_def)
  have idx: "index_of r 1 seq = (seq - 1) mod cap" if "1 \<le> seq"
  proof -
    have "seq + 2 ^ 64 - 1 = (seq - 1) + 2 ^ 64" using that by simp
    then have "(seq + 2 ^ 64 - 1) mod 2 ^ 64 = seq - 1" using assms(3) by (simp only: mod_add_self2) simp
    then show ?thesis using c by (simp only: index_of_def)
  qed
  have lt: "index_of r 1 seq < cap" using c by (simp add: index_of_def)
  have hit: "k + 1 = seq \<and> k < length h \<and> length h \<le> k + cap \<and> snd m = h ! k"
    if "slots r ! index_of r 1 seq = Some m" "fst m = seq" and k: "k = seq - 1" for m k
    using msg_ring_slot [OF assms(1) lt that(1)] that(2,3) by auto
  show ?thesis
  proof (cases "1 \<le> seq \<and> seq \<le> length h \<and> length h < seq + cap")
    case True
    then have "slots r ! ((seq - 1) mod cap) = Some (seq - 1 + 1, h ! (seq - 1))" using assms(1) unfolding msg_ring_ok_def by auto
    then show ?thesis using True idx by (simp add: lookup_at_def)
  next
    case False
    then show ?thesis using hit [OF _ _ refl] by (auto simp: lookup_at_def split: option.split)
  qed
qed

lemma collect_prefix:
  "(\<And>q. q \<in> set xs \<Longrightarrow> lookup_at r base q = Some (f q)) \<Longrightarrow> (ys = [] \<or> lookup_at r base (hd ys) = None) \<Longrightarrow>
   collect r base (xs @ ys) = map f xs"
proof (induction xs)
  case Nil
  then show ?case by (cases ys) auto
qed simp

lemma get_range_window:
  assumes "msg_ring_ok cap h r" "hist_ok h" "start < 2 ^ 64"
  shows "get_range start count r =
    (if 1 \<le> start \<and> start \<le> length h \<and> length h < start + cap
     then map (\<lambda>q. (q, h ! (q - 1))) [start..<min (start + count) (length h + 1)] else [])"
proof (cases "h = []")
  case True
  then show ?thesis using assms(1) by (simp add: get_range_def msg_ring_ok_def)
next
  case False
  then have b: "base_seq r = Some 1" "length h + 1 < 2 ^ 64" using assms(1,2) by (simp_all add: msg_ring_ok_def hist_ok_def)
  let ?e = "min (start + count) (length h + 1)" and ?m = "min (start + count) (2 ^ 64 - 1)"
  have look: "lookup_at r 1 q = (if 1 \<le> q \<and> q \<le> length h \<and> length h < q + cap then Some (q, h ! (q - 1)) else None)" if "q < 2 ^ 64" for q
    using lookup_window [OF assms(1) _ that] b(2) by simp
  show ?thesis
  proof (cases "1 \<le> start \<and> start \<le> length h \<and> length h < start + cap")
    case True
    have "start \<le> ?e" "?e \<le> ?m" using b(2) True by (auto simp: min_def)
    then have "[start..<?m] = [start..<?e] @ [?e..<?m]" using upt_add_eq_append [of start ?e "?m - ?e"] by simp
    moreover have "collect r 1 ([start..<?e] @ [?e..<?m]) = map (\<lambda>q. (q, h ! (q - 1))) [start..<?e]"
    proof (rule collect_prefix)
      show "lookup_at r 1 q = Some (q, h ! (q - 1))" if "q \<in> set [start..<?e]" for q
        using that True b(2) look [of q] by simp
      have "lookup_at r 1 ?e = None" if "?e < ?m" using look [of ?e] that b(2) by auto
      then show "[?e..<?m] = [] \<or> lookup_at r 1 (hd [?e..<?m]) = None" by (metis hd_upt not_less upt_conv_Nil)
    qed
    ultimately show ?thesis using b(1) True by (simp add: get_range_def del: upt_Suc)
  next
    case out: False
    have "collect r 1 ([] @ [start..<?m]) = map (\<lambda>q. (q, h ! (q - 1))) []"
    proof (rule collect_prefix)
      show "[start..<?m] = [] \<or> lookup_at r 1 (hd [start..<?m]) = None"
        using look [OF assms(3)] out by (metis hd_upt not_less upt_conv_Nil)
    qed simp
    then show ?thesis using b(1) out by (auto simp: get_range_def)
  qed
qed

lemma map_nth_slice: "1 \<le> s \<Longrightarrow> e \<le> length h + 1 \<Longrightarrow> map (\<lambda>q. h ! (q - 1)) [s..<e] = take (e - s) (drop (s - 1) h)"
  by (rule nth_equalityI) auto

lemma reply_window:
  assumes "msg_ring_ok cap h r" "hist_ok h" "start < 2 ^ 64"
  shows "reply_range session r start count =
    (if 1 \<le> start \<and> start \<le> length h \<and> length h < start + cap \<and> 0 < count
     then Some (slice_packet session h start (min count (length h + 1 - start))) else None)"
proof -
  have "map snd (map (\<lambda>q. (q, h ! (q - 1))) [start..<min (start + count) (length h + 1)]) =
      take (min count (length h + 1 - start)) (drop (start - 1) h)" if "1 \<le> start" "start \<le> length h"
  proof -
    have "min (start + count) (length h + 1) - start = min count (length h + 1 - start)" using that by linarith
    then show ?thesis
      using map_nth_slice [OF that(1), of "min (start + count) (length h + 1)" h] by (simp only: map_map comp_def snd_conv min.cobounded2)
  qed
  then show ?thesis using get_range_window [OF assms] by (auto simp: reply_range_def slice_packet_def Let_def)
qed

section \<open>The system\<close>

record mold_sys =
  m_pub :: mold_publisher
  m_net :: "bytes set"
  m_sub :: mold_subscriber
  m_hist :: "bytes list"
  m_got :: "(nat \<times> bytes) list"
  m_gaps :: "gap_info list"
  m_beat :: bool

definition gap_list :: "gap_info option \<Rightarrow> gap_info list" where
  "gap_list g = (case g of None \<Rightarrow> [] | Some x \<Rightarrow> [x])"

text \<open>
  One publisher, one subscriber and a network that keeps every datagram ever sent: the
  subscriber may receive any of them, in any order, any number of times, or never.  Messages
  and batches are of a size that fits a UDP datagram.
\<close>

inductive mold_step :: "mold_sys \<Rightarrow> mold_sys \<Rightarrow> bool" where
  m_publish: "length payload < 2 ^ 16 \<Longrightarrow> length (m_hist st) + 2 < 2 ^ 64 \<Longrightarrow> publish payload (m_pub st) = (p', pkt) \<Longrightarrow>
    mold_step st (st\<lparr>m_pub := p', m_net := insert pkt (m_net st), m_hist := m_hist st @ [payload]\<rparr>)"
| m_batch: "mx < 2 ^ 16 \<Longrightarrow> length (m_hist st) + n + 1 < 2 ^ 64 \<Longrightarrow> publish_batch msgs mx (m_pub st) = (p', Some pkt, n) \<Longrightarrow>
    mold_step st (st\<lparr>m_pub := p', m_net := insert pkt (m_net st), m_hist := m_hist st @ take n msgs\<rparr>)"
| m_heartbeat: "mold_step st (st\<lparr>m_net := insert (send_heartbeat (m_pub st)) (m_net st)\<rparr>)"
| m_retransmit: "serve_once (p_session (m_pub st)) (p_cache (m_pub st)) buf = Some pkt \<Longrightarrow>
    mold_step st (st\<lparr>m_net := insert pkt (m_net st)\<rparr>)"
| m_receive: "pkt \<in> m_net st \<Longrightarrow> mold_recv pkt (m_sub st) = Some (s', Some out) \<Longrightarrow>
    mold_step st (st\<lparr>m_sub := s', m_got := m_got st @ o_messages out, m_gaps := m_gaps st @ gap_list (o_gap out),
      m_beat := m_beat st \<or> o_heartbeat out\<rparr>)"

inductive mold_reach :: "bytes \<Rightarrow> nat \<Rightarrow> mold_sys \<Rightarrow> bool" for session cap where
  mold_reach_init: "publisher_new session cap = Some p \<Longrightarrow>
    mold_reach session cap \<lparr>m_pub = p, m_net = {}, m_sub = subscriber_new session, m_hist = [], m_got = [], m_gaps = [], m_beat = False\<rparr>"
| mold_reach_step: "mold_reach session cap st \<Longrightarrow> mold_step st st' \<Longrightarrow> mold_reach session cap st'"

section \<open>Invariant\<close>

definition pub_ok :: "bytes \<Rightarrow> nat \<Rightarrow> bytes list \<Rightarrow> mold_publisher \<Rightarrow> bool" where
  "pub_ok session cap h p \<longleftrightarrow>
     p_session p = pack_session session \<and> hist_ok h \<and> p_next p = length h + 1 \<and> msg_ring_ok cap h (p_cache p)"

lemma publish_ok:
  assumes "pub_ok session cap h p" "length payload < 2 ^ 16" "length h + 2 < 2 ^ 64" "publish payload p = (p', pkt)"
  shows "pub_ok session cap (h @ [payload]) p'" "genuine (pack_session session) (h @ [payload]) pkt"
proof -
  have "u64_add (length h + 1) 1 = length h + 2" using assms(3) by (simp add: u64_add_exact)
  then show "pub_ok session cap (h @ [payload]) p'"
    using assms ring_push_ok [of cap h "p_cache p" payload] by (auto simp: pub_ok_def publish_def Let_def hist_ok_def)
  have "pkt = slice_packet (pack_session session) (h @ [payload]) (length h + 1) 1" "data_ok (h @ [payload]) (length h + 1) 1"
    using assms by (auto simp: pub_ok_def publish_def Let_def slice_packet_def data_ok_def)
  then show "genuine (pack_session session) (h @ [payload]) pkt" unfolding genuine_def by blast
qed

lemma push_seqs_ok:
  "pub_ok session cap h p \<Longrightarrow> list_all (\<lambda>m. length m < 2 ^ 16) bs \<Longrightarrow> length h + length bs + 1 < 2 ^ 64 \<Longrightarrow>
   pub_ok session cap (h @ bs) (push_seqs bs p)"
proof (induction bs arbitrary: h p)
  case (Cons b bs)
  have "u64_add (length h + 1) 1 = length h + 2" using Cons.prems(3) by (simp add: u64_add_exact)
  then have "pub_ok session cap (h @ [b]) (p\<lparr>p_next := u64_add (p_next p) 1, p_cache := ring_push (p_next p) b (p_cache p)\<rparr>)"
    using Cons.prems ring_push_ok [of cap h "p_cache p" b] by (auto simp: pub_ok_def hist_ok_def)
  from Cons.IH [OF this] show ?case using Cons.prems by simp
qed simp

definition wire_len :: "bytes list \<Rightarrow> nat" where
  "wire_len bs = sum_list (map (\<lambda>m. 2 + length m) bs)"

lemma wire_len_bounds: "2 * length bs \<le> wire_len bs" "m \<in> set bs \<Longrightarrow> length m < wire_len bs"
  by (induction bs) (auto simp: wire_len_def)

lemma pack_blocks_prefix:
  "tlen = 20 + wire_len bs \<Longrightarrow> (bs \<noteq> [] \<longrightarrow> tlen \<le> mx) \<Longrightarrow>
   \<exists>k. pack_blocks mx tlen bs msgs = bs @ take k msgs \<and> (bs @ take k msgs \<noteq> [] \<longrightarrow> 20 + wire_len (bs @ take k msgs) \<le> mx)"
proof (induction msgs arbitrary: tlen bs)
  case (Cons m msgs)
  show ?case
  proof (cases "20 + wire_len bs + (2 + length m) \<le> mx")
    case True
    then have "pack_blocks mx tlen bs (m # msgs) = pack_blocks mx (20 + wire_len (bs @ [m])) (bs @ [m]) msgs"
      using Cons.prems by (auto simp: mold_lens wire_len_def)
    moreover obtain k where "pack_blocks mx (20 + wire_len (bs @ [m])) (bs @ [m]) msgs = (bs @ [m]) @ take k msgs"
        "20 + wire_len ((bs @ [m]) @ take k msgs) \<le> mx"
      using Cons.IH [OF refl, of "bs @ [m]"] True by (auto simp: wire_len_def)
    ultimately show ?thesis by (intro exI [of _ "Suc k"]) simp
  next
    case False
    then have "pack_blocks mx tlen bs (m # msgs) = bs" using Cons.prems by (auto simp: mold_lens wire_len_def)
    then show ?thesis using Cons.prems by (intro exI [of _ 0]) auto
  qed
qed auto

lemma publish_batch_ok:
  assumes "pub_ok session cap h p" "mx < 2 ^ 16" "length h + n + 1 < 2 ^ 64" "publish_batch msgs mx p = (p', Some pkt, n)"
  shows "pub_ok session cap (h @ take n msgs) p'" "genuine (pack_session session) (h @ take n msgs) pkt"
proof -
  let ?mx = "if mx = 0 then 1472 else mx"
  let ?bs = "pack_blocks ?mx 20 [] msgs"
  have d: "?bs \<noteq> []" "n = length ?bs" "p' = push_seqs ?bs p" "pkt = build_packet (p_session p) (p_next p) ?bs"
    using assms(4) by (auto simp: publish_batch_def mold_lens MOLD_MAX_DATAGRAM_def Let_def split: if_splits)
  obtain k where k: "?bs = take k msgs" "20 + wire_len ?bs \<le> ?mx"
    using pack_blocks_prefix [of 20 "[]" ?mx msgs] d(1) by (auto simp: wire_len_def)
  then have bs: "take n msgs = ?bs" using d(2) by (metis append_take_drop_id take_all_iff length_take min_def take_take nle_le)
  have "?mx < 2 ^ 16" using assms(2) by simp
  then have small: "list_all (\<lambda>m. length m < 2 ^ 16) ?bs" "n < 2 ^ 16"
    using k(2) wire_len_bounds(1) [of ?bs] wire_len_bounds(2) [of _ ?bs] d(2) by (force simp: list_all_iff)+
  show "pub_ok session cap (h @ take n msgs) p'"
    unfolding bs d(3) by (rule push_seqs_ok [OF assms(1) small(1)]) (use assms(3) d(2) in simp)
  have "data_ok (h @ ?bs) (length h + 1) n" using d(1,2) small(2) by (simp add: data_ok_def)
  moreover have "pkt = slice_packet (pack_session session) (h @ ?bs) (length h + 1) n"
    using assms(1) d(2,4) by (simp add: slice_packet_def pub_ok_def)
  ultimately show "genuine (pack_session session) (h @ take n msgs) pkt" unfolding bs genuine_def by blast
qed

lemma heartbeat_ok: "pub_ok session cap h p \<Longrightarrow> genuine (pack_session session) h (send_heartbeat p)"
  by (auto simp: genuine_def send_heartbeat_def pub_ok_def)

lemma retransmit_ok:
  assumes "pub_ok session cap h p" "serve_once (p_session p) (p_cache p) buf = Some pkt"
  shows "genuine (pack_session session) h pkt"
proof -
  obtain req where req: "decode_request buf = Some req" "reply_range (p_session p) (p_cache p) (r_start req) (r_count req) = Some pkt"
    using assms(2) by (auto simp: serve_once_def split: option.splits if_splits)
  then have "r_start req < 256 ^ 8" "r_count req < 256 ^ 2"
    using be_val_take [of 8] be_val_take [of 2] by (auto simp: decode_request_def split: if_splits)
  then have "r_start req < 2 ^ 64" "r_count req < 2 ^ 16" by simp_all
  then have "data_ok h (r_start req) (min (r_count req) (length h + 1 - r_start req)) \<and>
      pkt = slice_packet (pack_session session) h (r_start req) (min (r_count req) (length h + 1 - r_start req))"
    using req(2) assms(1) reply_window [of cap h "p_cache p" "r_start req"] by (auto simp: pub_ok_def data_ok_def split: if_splits)
  then show ?thesis unfolding genuine_def by blast
qed

definition accounted :: "(nat \<times> bytes) list \<Rightarrow> gap_info list \<Rightarrow> nat \<Rightarrow> bool" where
  "accounted got gaps q \<longleftrightarrow> q \<in> fst ` set got \<or> (\<exists>g \<in> set gaps. gap_expected g \<le> q \<and> q < gap_expected g + gap_lost g)"

definition sub_ok :: "mold_sys \<Rightarrow> bool" where
  "sub_ok st \<longleftrightarrow>
     (\<forall>q p. (q, p) \<in> set (m_got st) \<longrightarrow> 1 \<le> q \<and> q \<le> length (m_hist st) \<and> p = m_hist st ! (q - 1)) \<and>
     (\<forall>l. s_last (m_sub st) = Some l \<longrightarrow> l \<le> length (m_hist st)) \<and>
     (\<not> m_beat st \<longrightarrow>
       (case s_last (m_sub st) of
          None \<Rightarrow> m_got st = []
        | Some l \<Rightarrow> m_got st \<noteq> [] \<and> (\<forall>q. fst (hd (m_got st)) \<le> q \<and> q \<le> l \<longrightarrow> accounted (m_got st) (m_gaps st) q)))"

definition mold_inv :: "bytes \<Rightarrow> nat \<Rightarrow> mold_sys \<Rightarrow> bool" where
  "mold_inv session cap st \<longleftrightarrow>
     pub_ok session cap (m_hist st) (m_pub st) \<and> (\<forall>pkt \<in> m_net st. genuine (pack_session session) (m_hist st) pkt) \<and> sub_ok st"

lemma sub_ok_hist: "sub_ok st \<Longrightarrow> sub_ok (st\<lparr>m_pub := p, m_net := N, m_hist := m_hist st @ h\<rparr>)"
  by (auto simp: sub_ok_def nth_append split: option.splits) fastforce+

lemma sub_ok_net: "sub_ok (st\<lparr>m_net := N\<rparr>) = sub_ok st"
  by (simp add: sub_ok_def cong: option.case_cong)

lemma accounted_mono: "accounted got gaps q \<Longrightarrow> accounted (got @ got') (gaps @ gaps') q"
  by (auto simp: accounted_def)

lemma receive_data:
  assumes "sub_ok st" "hist_ok (m_hist st)" "data_ok (m_hist st) seq n"
    "s_last s' = Some (case s_last (m_sub st) of Some l \<Rightarrow> max l (seq + n - 1) | None \<Rightarrow> seq + n - 1)"
  shows "sub_ok (st\<lparr>m_sub := s', m_got := m_got st @ numbered (m_hist st) seq n,
    m_gaps := m_gaps st @ gap_list (gap_of (s_last (m_sub st)) seq), m_beat := m_beat st\<rparr>)"
proof -
  let ?h = "m_hist st" and ?num = "numbered (m_hist st) seq n" and ?gaps = "m_gaps st @ gap_list (gap_of (s_last (m_sub st)) seq)"
  have num: "fst ` set ?num = {seq..<seq + n}" by (rule numbered_complete [OF assms(3)])
  have bnd: "1 \<le> seq" "0 < n" "seq + n \<le> length ?h + 1" using assms(3) by (simp_all add: data_ok_def)
  have ne: "?num \<noteq> []" using num bnd(2) by auto
  have new: "accounted (m_got st @ ?num) ?gaps q" if "seq \<le> q" "q < seq + n" for q
    using that num by (auto simp: accounted_def image_Un)
  have cover: "accounted (m_got st @ ?num) ?gaps q"
    if l: "s_last (m_sub st) = Some l" and "\<not> m_beat st" and q: "fst (hd (m_got st)) \<le> q" "q \<le> max l (seq + n - 1)" for l q
  proof -
    have "l \<le> length ?h" using assms(1) l by (simp add: sub_ok_def)
    then have e: "u64_add l 1 = l + 1" using assms(2) by (simp add: hist_ok_def u64_add_exact)
    consider "q \<le> l" | "l < q" "q < seq" | "seq \<le> q" "q < seq + n" using q(2) bnd by linarith
    then show ?thesis
    proof cases
      case 1
      then have "accounted (m_got st) (m_gaps st) q" using assms(1) that by (simp add: sub_ok_def)
      then show ?thesis by (rule accounted_mono)
    next
      case 2
      then show ?thesis using l e by (auto simp: accounted_def gap_of_def gap_list_def)
    next
      case 3
      then show ?thesis by (rule new)
    qed
  qed
  have first: "fst (hd ?num) = seq" using numbered_keys [OF assms(3)] hd_map [OF ne, of fst] hd_upt [of seq "seq + n"] bnd(2) by simp
  show ?thesis
    using assms(1,4) numbered_sound [OF assms(3)] bnd ne cover new first
    by (auto simp: sub_ok_def hd_append split: option.splits)
qed

lemma receive_beat:
  assumes "sub_ok st" "k \<le> length (m_hist st)" "s_last s' = heartbeat_last (s_last (m_sub st)) (k + 1)"
  shows "sub_ok (st\<lparr>m_sub := s', m_beat := True\<rparr>)"
  using assms by (auto simp: sub_ok_def heartbeat_last_def split: option.splits if_splits)

lemma receive_ok:
  assumes "mold_inv session cap st" "pkt \<in> m_net st" "mold_recv pkt (m_sub st) = Some (s', Some out)"
  shows "sub_ok (st\<lparr>m_sub := s', m_got := m_got st @ o_messages out, m_gaps := m_gaps st @ gap_list (o_gap out),
      m_beat := m_beat st \<or> o_heartbeat out\<rparr>)"
proof -
  have ok: "sub_ok st" "hist_ok (m_hist st)" "genuine (pack_session session) (m_hist st) pkt"
    using assms(1,2) by (auto simp: mold_inv_def pub_ok_def)
  have parse: "parse_packet pkt (m_sub st) = Some (s', out)" using assms(3) by (auto simp: mold_recv_def split: if_splits)
  from ok(3) consider seq n where "data_ok (m_hist st) seq n" "pkt = slice_packet (pack_session session) (m_hist st) seq n"
    | k where "k \<le> length (m_hist st)" "pkt = encode_downstream \<lparr>d_session = pack_session session, d_seq = k + 1, d_count = 0\<rparr>"
    unfolding genuine_def by blast
  then show ?thesis
  proof cases
    case 1
    then show ?thesis
      using parse parse_data [OF _ ok(2) 1(1), of "pack_session session" "m_sub st"] receive_data [OF ok(1,2) 1(1), of s'] by auto
  next
    case 2
    have "k + 1 < 2 ^ 64" using 2(1) ok(2) by (simp add: hist_ok_def)
    then show ?thesis
      using parse 2 parse_heartbeat [of "pack_session session" "k + 1" "m_sub st"] receive_beat [OF ok(1) 2(1), of s'] by (auto simp: gap_list_def)
  qed
qed

lemma mold_inv_step:
  assumes "mold_step st st'" "mold_inv session cap st"
  shows "mold_inv session cap st'"
  using assms
proof (induction rule: mold_step.induct)
  case (m_publish payload st p' pkt)
  then show ?case
    using publish_ok [of session cap "m_hist st" "m_pub st" payload p' pkt] sub_ok_hist [where st = st] genuine_mono
    by (auto simp: mold_inv_def)
next
  case (m_batch mx st n msgs p' pkt)
  then show ?case
    using publish_batch_ok [of session cap "m_hist st" "m_pub st" mx n msgs p' pkt] sub_ok_hist [where st = st] genuine_mono
    by (auto simp: mold_inv_def)
next
  case (m_heartbeat st)
  then show ?case using heartbeat_ok by (auto simp: mold_inv_def sub_ok_net)
next
  case (m_retransmit st buf pkt)
  then show ?case using retransmit_ok by (auto simp: mold_inv_def sub_ok_net)
next
  case (m_receive pkt st s' out)
  then show ?case using receive_ok [of session cap st pkt s' out] by (auto simp: mold_inv_def)
qed

lemma mold_reach_inv: "mold_reach session cap st \<Longrightarrow> mold_inv session cap st"
proof (induction rule: mold_reach.induct)
  case (mold_reach_init p)
  then show ?case
    using ring_new_msg by (auto simp: publisher_new_def mold_inv_def pub_ok_def hist_ok_def sub_ok_def subscriber_new_def)
qed (rule mold_inv_step)

section \<open>A sample run\<close>

definition after_publish :: "bytes \<Rightarrow> mold_sys \<Rightarrow> mold_sys" where
  "after_publish payload st =
     st\<lparr>m_pub := fst (publish payload (m_pub st)), m_net := insert (snd (publish payload (m_pub st))) (m_net st), m_hist := m_hist st @ [payload]\<rparr>"

definition after_receive :: "bytes \<Rightarrow> mold_sys \<Rightarrow> mold_sys" where
  "after_receive pkt st =
     (case mold_recv pkt (m_sub st) of
        Some (s', Some out) \<Rightarrow> st\<lparr>m_sub := s', m_got := m_got st @ o_messages out, m_gaps := m_gaps st @ gap_list (o_gap out),
          m_beat := m_beat st \<or> o_heartbeat out\<rparr>
      | _ \<Rightarrow> st)"

lemma reach_publish:
  "mold_reach session cap st \<Longrightarrow> length payload < 2 ^ 16 \<Longrightarrow> length (m_hist st) + 2 < 2 ^ 64 \<Longrightarrow>
   mold_reach session cap (after_publish payload st)"
  unfolding after_publish_def by (rule mold_reach_step, assumption, rule m_publish) simp_all

lemma reach_receive: "mold_reach session cap st \<Longrightarrow> pkt \<in> m_net st \<Longrightarrow> mold_reach session cap (after_receive pkt st)"
  by (auto simp: after_receive_def split: option.split intro!: mold_reach_step [OF _ m_receive])

text \<open>Three messages are published, the second packet is lost.\<close>

definition mold_sample_sent :: mold_sys where
  "mold_sample_sent = after_publish [12] (after_publish [11] (after_publish [10]
     \<lparr>m_pub = \<lparr>p_session = pack_session [65], p_next = 1,
        p_cache = \<lparr>slots = [None, None], ring_cap = 2, write_pos = 0, base_seq = None, first_seq = None\<rparr>\<rparr>,
      m_net = {}, m_sub = subscriber_new [65], m_hist = [], m_got = [], m_gaps = [], m_beat = False\<rparr>))"

definition mold_sample :: mold_sys where
  "mold_sample = after_receive (slice_packet (pack_session [65]) [[10], [11], [12]] 3 1)
     (after_receive (slice_packet (pack_session [65]) [[10], [11], [12]] 1 1) mold_sample_sent)"

lemma two_slots: "replicate 2 x = [x, x]"
  by (simp add: numeral_2_eq_2)

lemma sample_sent_reach: "mold_reach [65] 2 mold_sample_sent"
  unfolding mold_sample_sent_def
  by (intro reach_publish mold_reach_init)
    (simp_all add: after_publish_def publisher_new_def message_ring_new_def two_slots)

lemma sample_sent_fields:
  "m_hist mold_sample_sent = [[10], [11], [12]]" "m_sub mold_sample_sent = subscriber_new [65]"
  "m_got mold_sample_sent = []" "m_gaps mold_sample_sent = []" "\<not> m_beat mold_sample_sent"
  "slice_packet (pack_session [65]) [[10], [11], [12]] 1 1 \<in> m_net mold_sample_sent"
  "slice_packet (pack_session [65]) [[10], [11], [12]] 3 1 \<in> m_net mold_sample_sent"
  by (simp_all add: mold_sample_sent_def after_publish_def publish_def Let_def u64_add_exact slice_packet_def numeral_3_eq_3)

lemma sample_reach:
  "mold_reach [65] 2 mold_sample \<and> \<not> m_beat mold_sample \<and> s_last (m_sub mold_sample) = Some 3 \<and>
   m_got mold_sample = [(1, [10]), (3, [12])] \<and> m_gaps mold_sample = [\<lparr>gap_expected = 2, gap_first = 3, gap_lost = 1\<rparr>]"
proof -
  let ?h = "[[10], [11], [12]] :: bytes list"
  let ?pkt = "\<lambda>q. slice_packet (pack_session [65]) ?h q 1"
  have h: "hist_ok ?h" "data_ok ?h 1 1" "data_ok ?h 3 1" by (simp_all add: hist_ok_def data_ok_def)
  have len: "\<not> length (slice_packet (pack_session [65]) ?h q n) < 20" for q n by (simp add: slice_packet_def build_packet_def encode_downstream_def)
  note recv = after_receive_def mold_recv_def mold_lens len parse_data [OF length_pack_session h(1)]
  have one: "after_receive (?pkt 1) mold_sample_sent =
      mold_sample_sent\<lparr>m_sub := \<lparr>s_session = pack_session [65], s_last = Some 1\<rparr>, m_got := [(1, [10])]\<rparr>"
    using h by (simp add: recv sample_sent_fields subscriber_new_def numbered_def gap_of_def gap_list_def)
  have two: "mold_sample = mold_sample_sent\<lparr>m_sub := \<lparr>s_session = pack_session [65], s_last = Some 3\<rparr>,
      m_got := [(1, [10]), (3, [12])], m_gaps := [\<lparr>gap_expected = 2, gap_first = 3, gap_lost = 1\<rparr>]\<rparr>"
    unfolding mold_sample_def one
    using h by (simp add: recv sample_sent_fields numbered_def gap_of_def gap_list_def u64_add_exact)
  have "mold_reach [65] 2 mold_sample"
    unfolding mold_sample_def
    by (intro reach_receive sample_sent_reach) (simp_all only: one, simp_all add: sample_sent_fields [simplified])
  then show ?thesis by (simp add: two sample_sent_fields)
qed

section \<open>Properties\<close>

text \<open>
  C9. The stream is authentic and complete: over any network that loses, duplicates and
  reorders datagrams, with retransmissions, every message handed out is the one published
  under its number; and as long as no heartbeat was received, every number from the first
  message received up to the watermark was handed out or reported in a gap.
\<close>
theorem mold_stream_complete:
  assumes "mold_reach session cap st"
  shows "(\<forall>q p. (q, p) \<in> set (m_got st) \<longrightarrow> 1 \<le> q \<and> q \<le> length (m_hist st) \<and> p = m_hist st ! (q - 1)) \<and>
    (\<not> m_beat st \<longrightarrow> (\<forall>l q. s_last (m_sub st) = Some l \<and> fst (hd (m_got st)) \<le> q \<and> q \<le> l \<longrightarrow>
       q \<in> fst ` set (m_got st) \<or> (\<exists>g \<in> set (m_gaps st). gap_expected g \<le> q \<and> q < gap_expected g + gap_lost g)))"
  using mold_reach_inv [OF assms] unfolding accounted_def [symmetric] by (auto simp: mold_inv_def sub_ok_def)

theorem mold_stream_complete_witness:
  "mold_reach [65] 2 mold_sample \<and> \<not> m_beat mold_sample \<and> s_last (m_sub mold_sample) = Some 3 \<and>
   m_got mold_sample = [(1, [10]), (3, [12])] \<and> m_gaps mold_sample = [\<lparr>gap_expected = 2, gap_first = 3, gap_lost = 1\<rparr>] \<and>
   (2 \<in> fst ` set (m_got mold_sample) \<or> (\<exists>g \<in> set (m_gaps mold_sample). gap_expected g \<le> 2 \<and> 2 < gap_expected g + gap_lost g))"
proof -
  have "fst (hd (m_got mold_sample)) \<le> 2" using sample_reach by simp
  then have "2 \<in> fst ` set (m_got mold_sample) \<or> (\<exists>g \<in> set (m_gaps mold_sample). gap_expected g \<le> 2 \<and> 2 < gap_expected g + gap_lost g)"
    using mold_stream_complete [of "[65]" 2 mold_sample] sample_reach by simp
  then show ?thesis using sample_reach by simp
qed

text \<open>
  C38. Retransmission serves the whole window: a request for numbers of the stream is answered
  with exactly the messages published under them, as many as were asked for and exist, if the
  first of them is among the last \<open>cap\<close> messages, and with nothing otherwise.
\<close>
theorem mold_retransmit_window:
  assumes "mold_reach session cap st" and "start < 2 ^ 64" and "count < 2 ^ 16"
  shows "serve_once (pack_session session) (p_cache (m_pub st)) (encode_request \<lparr>r_session = pack_session session, r_start = start, r_count = count\<rparr>) =
    (if 1 \<le> start \<and> start \<le> length (m_hist st) \<and> length (m_hist st) < start + cap \<and> 0 < count
     then Some (build_packet (pack_session session) start (take count (drop (start - 1) (m_hist st)))) else None)"
proof -
  have "pub_ok session cap (m_hist st) (m_pub st)" using mold_reach_inv [OF assms(1)] by (simp add: mold_inv_def)
  then show ?thesis
    using reply_window [of cap "m_hist st" "p_cache (m_pub st)" start "pack_session session" count] assms(2,3)
      decode_encode_request [of "\<lparr>r_session = pack_session session, r_start = start, r_count = count\<rparr>"]
    by (auto simp: serve_once_def pub_ok_def slice_packet_def take_all_iff min_def)
qed

theorem mold_retransmit_window_witness:
  "serve_once (pack_session [65]) (p_cache (m_pub mold_sample_sent)) (encode_request \<lparr>r_session = pack_session [65], r_start = 2, r_count = 5\<rparr>) =
     Some (build_packet (pack_session [65]) 2 [[11], [12]]) \<and>
   serve_once (pack_session [65]) (p_cache (m_pub mold_sample_sent)) (encode_request \<lparr>r_session = pack_session [65], r_start = 1, r_count = 5\<rparr>) = None"
  using mold_retransmit_window [OF sample_sent_reach, of 2 5] mold_retransmit_window [OF sample_sent_reach, of 1 5]
  by (simp add: sample_sent_fields)

text \<open>
  A heartbeat hides a loss: after it the subscriber takes the messages between its
  watermark and the number of the heartbeat as received; neither the heartbeat nor the next
  message reports the gap that the same message would have reported without the heartbeat.
\<close>
theorem mold_heartbeat_hides_loss:
  assumes "s_last s = Some l" and "l + 1 < k" and "k < 2 ^ 64" and "length session = 10"
  shows "\<exists>s' out. parse_packet (encode_downstream \<lparr>d_session = session, d_seq = k, d_count = 0\<rparr>) s = Some (s', out) \<and>
    o_gap out = None \<and> gap_of (s_last s') k = None \<and>
    gap_of (s_last s) k = Some \<lparr>gap_expected = l + 1, gap_first = k, gap_lost = k - (l + 1)\<rparr>"
  using parse_heartbeat [OF assms(4,3), of s] assms
  by (auto simp: heartbeat_last_def gap_of_def u64_add_exact max_def)

theorem mold_heartbeat_hides_loss_witness:
  "\<exists>s' out. parse_packet (encode_downstream \<lparr>d_session = pack_session [65], d_seq = 5, d_count = 0\<rparr>)
      \<lparr>s_session = pack_session [65], s_last = Some 2\<rparr> = Some (s', out) \<and>
    o_gap out = None \<and> gap_of (s_last s') 5 = None \<and>
    gap_of (Some 2) 5 = Some \<lparr>gap_expected = 3, gap_first = 5, gap_lost = 2\<rparr>"
  using mold_heartbeat_hides_loss [of "\<lparr>s_session = pack_session [65], s_last = Some 2\<rparr>" 2 5 "pack_session [65]"] by simp

end
