(* ===== verification/Udp_Order.thy ===== *)
theory Udp_Order
  imports Prelude
begin

text \<open>
  The reliable order-entry session over UDP of \<open>crates/match-udp-order/src\<close>: the frames of
  \<open>packet.rs\<close> and the server and client sessions of \<open>session.rs\<close>.  Sequence numbers are
  \<open>u32\<close> values kept as \<open>nat\<close>, with the wrap-around written out; an \<open>Instant\<close> is a \<open>nat\<close>.
  Every handler returns the session after the call, the events and the outgoing datagrams.
\<close>

section \<open>Frames\<close>

definition SESSION_MAGIC :: nat where "SESSION_MAGIC = 0x4D4F4F52"
definition UDP_HEADER_LEN :: nat where "UDP_HEADER_LEN = 9"

definition HELLO :: u8 where "HELLO = 0x30"
definition ORDER :: u8 where "ORDER = 0x01"
definition CANCEL :: u8 where "CANCEL = 0x02"
definition REPLACE :: u8 where "REPLACE = 0x03"
definition NAK_REQUEST :: u8 where "NAK_REQUEST = 0x20"
definition HEARTBEAT :: u8 where "HEARTBEAT = 0x40"
definition HELLO_ACK :: u8 where "HELLO_ACK = 0x31"
definition ORDER_ACK :: u8 where "ORDER_ACK = 0x12"
definition REPORT :: u8 where "REPORT = 0x10"
definition NAK_RESPONSE :: u8 where "NAK_RESPONSE = 0x21"

definition HELLO_ACK_GAP_TOO_OLD :: u8 where "HELLO_ACK_GAP_TOO_OLD = 0x01"
definition ACK_OK :: u8 where "ACK_OK = 0x00"
definition ACK_REJECT :: u8 where "ACK_REJECT = 0x01"
definition ACK_RETRY :: u8 where "ACK_RETRY = 0x02"

record udp_header =
  uh_session :: nat
  uh_seq :: nat
  uh_type :: u8

definition udp_encode :: "nat \<Rightarrow> nat \<Rightarrow> u8 \<Rightarrow> bytes \<Rightarrow> bytes" where
  "udp_encode session seq mtype payload = be_bytes 4 session @ be_bytes 4 seq @ [mtype] @ payload"

definition udp_decode :: "bytes \<Rightarrow> (udp_header \<times> bytes) option" where
  "udp_decode dg =
     (if length dg < UDP_HEADER_LEN then None
      else let session = be_val (take 4 dg)
           in if session \<noteq> SESSION_MAGIC then None
              else Some (\<lparr>uh_session = session, uh_seq = be_val (take 4 (drop 4 dg)), uh_type = dg ! 8\<rparr>, drop UDP_HEADER_LEN dg))"

definition u32_be :: "bytes \<Rightarrow> nat" where
  "u32_be b = be_val (take 4 b)"

section \<open>Server\<close>

datatype server_event =
    SOrder nat bytes
  | SCancel nat bytes
  | SReplace nat bytes
  | SNakRequest nat nat
  | SHello nat nat
  | SHeartbeat

record udp_server =
  next_report_seq :: nat
  expected_client_seq :: nat
  ustore :: "(nat \<times> bytes) list"
  ustore_start :: nat
  ustore_cap :: nat
  last_nak_start :: "nat option"

definition udp_server_new :: "nat \<Rightarrow> udp_server" where
  "udp_server_new store_cap =
     \<lparr>next_report_seq = 1, expected_client_seq = 1, ustore = [], ustore_start = 1, ustore_cap = max store_cap 1,
      last_nak_start = None\<rparr>"

definition report_high_water :: "udp_server \<Rightarrow> nat" where
  "report_high_water s = next_report_seq s - 1"

definition ack_frame :: "nat \<Rightarrow> u8 \<Rightarrow> bytes" where
  "ack_frame seq result = udp_encode SESSION_MAGIC seq ORDER_ACK (be_bytes 4 seq @ [result])"

definition nak_frame :: "nat \<Rightarrow> nat \<Rightarrow> bytes" where
  "nak_frame start count = udp_encode SESSION_MAGIC 0 NAK_REQUEST (be_bytes 4 start @ be_bytes 4 count)"

definition report_block :: "nat \<times> bytes \<Rightarrow> bytes" where
  "report_block e = be_bytes 4 (fst e) @ be_bytes 2 (length (snd e)) @ snd e"

definition nak_response :: "nat \<Rightarrow> nat \<Rightarrow> udp_server \<Rightarrow> bytes" where
  "nak_response start count s =
     (let from_seq = max start (ustore_start s);
          to_seq = min (min (from_seq + count) (2 ^ 32 - 1)) (report_high_water s + 1)
      in udp_encode SESSION_MAGIC 0 NAK_RESPONSE
           (be_bytes 4 from_seq @ be_bytes 4 (to_seq - from_seq) @
            concat (map report_block (filter (\<lambda>e. from_seq \<le> fst e \<and> fst e < to_seq) (ustore s)))))"

text \<open>An order, cancel or replace frame: in sequence, seen before, or ahead of a gap.\<close>

definition server_on_order :: "server_event \<Rightarrow> nat \<Rightarrow> udp_server \<Rightarrow> udp_server \<times> server_event list \<times> bytes list" where
  "server_on_order ev seq s =
     (if seq = expected_client_seq s then
        (s\<lparr>expected_client_seq := u32_inc (expected_client_seq s)\<rparr>, [ev], [ack_frame seq ACK_OK])
      else if seq < expected_client_seq s then (s, [], [ack_frame seq ACK_OK])
      else if last_nak_start s \<noteq> Some (expected_client_seq s) then
        (s\<lparr>last_nak_start := Some (expected_client_seq s)\<rparr>, [],
         [nak_frame (expected_client_seq s) (seq - expected_client_seq s), ack_frame seq ACK_RETRY])
      else (s, [], [ack_frame seq ACK_RETRY]))"

definition server_on_hello :: "nat \<Rightarrow> nat \<Rightarrow> udp_server \<Rightarrow> udp_server \<times> server_event list \<times> bytes list" where
  "server_on_hello client_id last_seq s =
     (let flags = (if u32_inc last_seq < ustore_start s then HELLO_ACK_GAP_TOO_OLD else 0)
      in (s, [SHello client_id last_seq],
          [udp_encode SESSION_MAGIC 0 HELLO_ACK
             (be_bytes 4 (report_high_water s) @ be_bytes 4 (ustore_start s) @ [flags] @ replicate 4 0)]))"

definition server_on_datagram :: "bytes \<Rightarrow> udp_server \<Rightarrow> udp_server \<times> server_event list \<times> bytes list" where
  "server_on_datagram dg s =
     (case udp_decode dg of
        None \<Rightarrow> (s, [], [])
      | Some (h, payload) \<Rightarrow>
          if uh_type h = ORDER \<or> uh_type h = CANCEL \<or> uh_type h = REPLACE then
            server_on_order
              (if uh_type h = ORDER then SOrder (uh_seq h) payload
               else if uh_type h = CANCEL then SCancel (uh_seq h) payload
               else SReplace (uh_seq h) payload) (uh_seq h) s
          else if uh_type h = NAK_REQUEST then
            if length payload \<ge> 8 then
              (s, [SNakRequest (u32_be payload) (u32_be (drop 4 payload))],
               [nak_response (u32_be payload) (u32_be (drop 4 payload)) s])
            else (s, [], [])
          else if uh_type h = HELLO then
            if length payload \<ge> 8 then server_on_hello (u32_be payload) (u32_be (drop 4 payload)) s else (s, [], [])
          else if uh_type h = HEARTBEAT then
            (s, [SHeartbeat], [udp_encode SESSION_MAGIC 0 HEARTBEAT []])
          else (s, [], []))"

text \<open>The front of the store is popped when it holds more than its capacity.\<close>

definition ack_and_report :: "nat \<Rightarrow> bytes \<Rightarrow> udp_server \<Rightarrow> udp_server \<times> bytes list" where
  "ack_and_report client_seq report_payload s =
     (let seq = next_report_seq s;
          store = ustore s @ [(seq, report_payload)];
          s1 = s\<lparr>next_report_seq := u32_inc (next_report_seq s), ustore := store\<rparr>;
          s2 = (if length store > ustore_cap s
                then s1\<lparr>ustore := tl store, ustore_start := u32_inc (fst (hd store))\<rparr> else s1)
      in (s2, [ack_frame client_seq ACK_OK, udp_encode SESSION_MAGIC seq REPORT report_payload]))"

definition reject_order :: "nat \<Rightarrow> bytes list" where
  "reject_order client_seq = [ack_frame client_seq ACK_REJECT]"

section \<open>Client\<close>

datatype client_event =
    CReport nat bytes
  | COrderAck nat u8
  | CHelloAck nat nat u8
  | CHeartbeat

record udp_client =
  next_order_seq :: nat
  expected_report_seq :: nat
  upending :: "(nat, bytes) btreemap"
  upending_ts :: "(nat, nat) btreemap"

definition udp_client_new :: udp_client where
  "udp_client_new = \<lparr>next_order_seq = 1, expected_report_seq = 1, upending = [], upending_ts = []\<rparr>"

definition send_order :: "nat \<Rightarrow> bytes \<Rightarrow> udp_client \<Rightarrow> udp_client \<times> bytes" where
  "send_order now payload c =
     (let seq = next_order_seq c
      in (c\<lparr>next_order_seq := u32_inc seq, upending := btm_insert seq payload (upending c),
            upending_ts := btm_insert seq now (upending_ts c)\<rparr>,
          udp_encode SESSION_MAGIC seq ORDER payload))"

fun resend :: "nat \<Rightarrow> nat list \<Rightarrow> udp_client \<Rightarrow> udp_client \<times> bytes list" where
  "resend now [] c = (c, [])"
| "resend now (seq # due) c =
     (case btm_get (upending c) seq of
        None \<Rightarrow> resend now due c
      | Some p \<Rightarrow>
          (case resend now due (c\<lparr>upending_ts := btm_insert seq now (upending_ts c)\<rparr>) of
             (c', out) \<Rightarrow> (c', udp_encode SESSION_MAGIC seq ORDER p # out)))"

definition retransmit_due :: "nat \<Rightarrow> nat \<Rightarrow> udp_client \<Rightarrow> udp_client \<times> bytes list" where
  "retransmit_due now timeout c =
     resend now (map fst (filter (\<lambda>e. now - snd e \<ge> timeout) (upending_ts c))) c"

definition send_hello :: "nat \<Rightarrow> nat \<Rightarrow> bytes" where
  "send_hello client_id last_report_seq =
     udp_encode SESSION_MAGIC 0 HELLO (be_bytes 4 client_id @ be_bytes 4 last_report_seq)"

definition client_on_report :: "nat \<Rightarrow> bytes \<Rightarrow> udp_client \<Rightarrow> udp_client \<times> client_event list \<times> bytes list" where
  "client_on_report seq payload c =
     (if seq = expected_report_seq c then
        (c\<lparr>expected_report_seq := u32_inc (expected_report_seq c)\<rparr>, [CReport seq payload], [])
      else if seq > expected_report_seq c then
        (c, [], [nak_frame (expected_report_seq c) (seq - expected_report_seq c)])
      else (c, [], []))"

text \<open>The blocks of a retransmission: the expected number after them, and the reports.\<close>

fun client_on_blocks :: "nat \<Rightarrow> bytes \<Rightarrow> nat \<Rightarrow> nat \<times> client_event list" where
  "client_on_blocks 0 bs expected = (expected, [])"
| "client_on_blocks (Suc n) bs expected =
     (if length bs < 6 then (expected, [])
      else let seq = u32_be bs;
               len = be_val (take 2 (drop 4 bs));
               rest_bs = drop 6 bs
           in if length rest_bs < len then (expected, [])
              else if seq = expected then
                (case client_on_blocks n (drop len rest_bs) (u32_inc expected) of
                   (e, evs) \<Rightarrow> (e, CReport seq (take len rest_bs) # evs))
              else if seq > expected then
                (case client_on_blocks n (drop len rest_bs) (u32_inc seq) of
                   (e, evs) \<Rightarrow> (e, CReport seq (take len rest_bs) # evs))
              else client_on_blocks n (drop len rest_bs) expected)"

definition client_on_datagram :: "bytes \<Rightarrow> udp_client \<Rightarrow> udp_client \<times> client_event list \<times> bytes list" where
  "client_on_datagram dg c =
     (case udp_decode dg of
        None \<Rightarrow> (c, [], [])
      | Some (h, payload) \<Rightarrow>
          if uh_type h = REPORT then client_on_report (uh_seq h) payload c
          else if uh_type h = NAK_RESPONSE then
            if length payload < 8 then (c, [], [])
            else (case client_on_blocks (u32_be (drop 4 payload)) (drop 8 payload) (expected_report_seq c) of
                    (e, evs) \<Rightarrow> (c\<lparr>expected_report_seq := e\<rparr>, evs, []))
          else if uh_type h = ORDER_ACK then
            if length payload \<ge> 5 then
              (c\<lparr>upending := btm_remove (u32_be payload) (upending c), upending_ts := btm_remove (u32_be payload) (upending_ts c)\<rparr>,
               [COrderAck (u32_be payload) (payload ! 4)], [])
            else (c, [], [])
          else if uh_type h = HELLO_ACK then
            if length payload \<ge> 9 then (c, [CHelloAck (u32_be payload) (u32_be (drop 4 payload)) (payload ! 8)], [])
            else (c, [], [])
          else if uh_type h = HEARTBEAT then (c, [CHeartbeat], [])
          else (c, [], []))"

end
