(* ===== verification/Numbered.thy ===== *)
theory Numbered
  imports Prelude
begin

text \<open>
  Messages under consecutive numbers: \<open>run_of h a b\<close> are the messages of the history \<open>h\<close>
  numbered from \<open>a\<close> up to but not including \<open>b\<close>, where the first message has number one.
  The retransmission stores of the session protocols hold such runs.
\<close>

definition run_of :: "bytes list \<Rightarrow> nat \<Rightarrow> nat \<Rightarrow> (nat \<times> bytes) list" where
  "run_of h a b = map (\<lambda>q. (q, h ! (q - 1))) [a..<b]"

lemma run_of_Cons: "a < b \<Longrightarrow> run_of h a b = (a, h ! (a - 1)) # run_of h (a + 1) b"
  by (simp add: run_of_def upt_conv_Cons)

lemma run_of_empty [simp]: "b \<le> a \<Longrightarrow> run_of h a b = []"
  by (simp add: run_of_def)

lemma run_of_snoc: "a \<le> b \<Longrightarrow> run_of h a (b + 1) = run_of h a b @ [(b, h ! (b - 1))]"
  by (simp add: run_of_def)

lemma run_of_append: "1 \<le> a \<Longrightarrow> b \<le> length h + 1 \<Longrightarrow> run_of (h @ h') a b = run_of h a b"
  by (auto simp: run_of_def nth_append)

lemma run_of_filter:
  "lo \<le> a \<Longrightarrow> b \<le> hi \<Longrightarrow> filter (\<lambda>e. a \<le> fst e \<and> fst e < b) (run_of h lo hi) = run_of h a b"
proof -
  assume "lo \<le> a" "b \<le> hi"
  then have "filter (\<lambda>q. a \<le> q \<and> q < b) [lo..<hi] = [a..<b]"
    by (intro sorted_distinct_set_unique sorted_wrt_filter) auto
  then show ?thesis by (simp add: run_of_def filter_map o_def)
qed

lemma run_of_join: "a \<le> b \<Longrightarrow> b \<le> c \<Longrightarrow> run_of h a b @ run_of h b c = run_of h a c"
  using upt_add_eq_append [of a b "c - b"] by (simp add: run_of_def map_append [symmetric] del: map_append)

lemma run_of_mem: "(q, p) \<in> set (run_of h a b) \<longleftrightarrow> a \<le> q \<and> q < b \<and> p = h ! (q - 1)"
  by (auto simp: run_of_def)

lemma run_of_sorted: "sorted_wrt (<) (map fst (run_of h a b))"
  by (simp add: run_of_def o_def)

lemma run_of_drop: "1 \<le> a \<Longrightarrow> map snd (run_of h a (length h + 1)) = drop (a - 1) h"
  by (rule nth_equalityI) (auto simp: run_of_def simp del: upt_Suc)

lemma ins_by_last: "\<forall>e \<in> set m. fst e < k \<Longrightarrow> ins_by (<) (k :: 'k::linorder) v m = m @ [(k, v)]"
  by (induction m) (auto simp: not_less_iff_gr_or_eq)

end
