(* ===== verification/Udp_Props.thy ===== *)
theory Udp_Props
  imports Udp_Order Numbered
begin

text \<open>
  A client and a server session over a network that may lose, duplicate and reorder
  datagrams.  Orders are taken at most once and in the order sent, reports are handed out
  under their numbers in increasing order, without a hole as long as the store has evicted
  nothing; and the answer \<open>ACK_RETRY\<close> can stop a session for good.
\<close>

section \<open>Frames\<close>

lemmas frame_types = HELLO_def ORDER_def CANCEL_def REPLACE_def NAK_REQUEST_def HEARTBEAT_def HELLO_ACK_def
  ORDER_ACK_def REPORT_def NAK_RESPONSE_def

lemma udp_decode_encode [simp]:
  "seq < 2 ^ 32 \<Longrightarrow>
   udp_decode (udp_encode SESSION_MAGIC seq mtype payload) = Some (\<lparr>uh_session = SESSION_MAGIC, uh_seq = seq, uh_type = mtype\<rparr>, payload)"
  by (simp add: udp_decode_def udp_encode_def UDP_HEADER_LEN_def be_val_4 SESSION_MAGIC_def nth_append)

lemma u32_be_bytes [simp]: "x < 2 ^ 32 \<Longrightarrow> u32_be (be_bytes 4 x @ bs) = x"
  by (simp add: u32_be_def be_val_4)

lemma u32_inc_exact: "n + 1 < 2 ^ 32 \<Longrightarrow> u32_inc n = n + 1"
  by (simp add: u32_inc_mod)

definition reports_ok :: "bytes list \<Rightarrow> bool" where
  "reports_ok h \<longleftrightarrow> list_all (\<lambda>p. length p < 2 ^ 16) h \<and> length h + 1 < 2 ^ 32"

lemma blocks_run:
  assumes "reports_ok h" "1 \<le> a" "b \<le> length h + 1" "1 \<le> e" "e \<le> length h + 1"
  shows "client_on_blocks (b - a) (concat (map report_block (run_of h a b))) e =
    (if a < b then max e b else e, map (\<lambda>(q, p). CReport q p) (run_of h (max a e) b))"
  using assms(2-5)
proof (induction "b - a" arbitrary: a e)
  case (Suc n)
  let ?p = "h ! (a - 1)" and ?bs = "concat (map report_block (run_of h (a + 1) b))"
  have ab: "a < b" using Suc.hyps(2) by simp
  have len: "length ?p < 2 ^ 16" using Suc.prems ab assms(1) by (simp add: reports_ok_def list_all_length)
  have bnd: "b < 2 ^ 32" "e < 2 ^ 32" using Suc.prems assms(1) by (simp_all add: reports_ok_def)
  have blk: "concat (map report_block (run_of h a b)) = be_bytes 4 a @ be_bytes 2 (length ?p) @ ?p @ ?bs"
    using ab by (simp add: run_of_Cons report_block_def)
  have step: "client_on_blocks (b - a) (concat (map report_block (run_of h a b))) e =
     (if a \<ge> e then (case client_on_blocks n ?bs (u32_inc a) of (e', evs) \<Rightarrow> (e', CReport a ?p # evs))
      else client_on_blocks n ?bs e)"
    using len ab bnd unfolding blk Suc.hyps(2) [symmetric] by (auto simp: be_val_2 u32_be_def be_val_4 Let_def)
  have n: "n = b - (a + 1)" using Suc.hyps(2) by simp
  show ?case
  proof (cases "e \<le> a")
    case True
    have "u32_inc a = a + 1" using ab bnd by (intro u32_inc_exact) simp
    then show ?thesis
      using True step Suc.hyps(1) [OF n, of "a + 1"] Suc.prems ab n
      by (simp add: run_of_Cons [of a b] max_def)
  next
    case False
    then show ?thesis using step Suc.hyps(1) [OF n, of e] Suc.prems ab n by (auto simp: max_def)
  qed
qed auto

section \<open>Client, server and network\<close>

record udp_sys =
  u_cli :: udp_client
  u_srv :: udp_server
  to_srv :: "bytes set"
  to_cli :: "bytes set"
  u_sent :: "bytes list"
  u_taken :: "bytes list"
  u_reports :: "bytes list"
  u_got :: "(nat \<times> bytes) list"

definition order_of :: "server_event \<Rightarrow> bytes list" where
  "order_of ev = (case ev of SOrder q p \<Rightarrow> [p] | SCancel q p \<Rightarrow> [p] | SReplace q p \<Rightarrow> [p] | _ \<Rightarrow> [])"

definition report_of :: "client_event \<Rightarrow> (nat \<times> bytes) list" where
  "report_of ev = (case ev of CReport q p \<Rightarrow> [(q, p)] | _ \<Rightarrow> [])"

text \<open>
  The client sends orders, hellos and requests for reports it has not got, and resends; the
  server reports and rejects under any order number; either side handles any datagram that
  is on its way, which stays there for another delivery; datagrams get lost.  The guards
  keep the 32-bit numbers from wrapping.
\<close>

inductive udp_step :: "udp_sys \<Rightarrow> udp_sys \<Rightarrow> bool" where
  u_send: "length (u_sent st) + 2 < 2 ^ 32 \<Longrightarrow> send_order now payload (u_cli st) = (c', dg) \<Longrightarrow>
    udp_step st (st\<lparr>u_cli := c', to_srv := insert dg (to_srv st), u_sent := u_sent st @ [payload]\<rparr>)"
| u_resend: "retransmit_due now timeout (u_cli st) = (c', dgs) \<Longrightarrow>
    udp_step st (st\<lparr>u_cli := c', to_srv := to_srv st \<union> set dgs\<rparr>)"
| u_nak: "start \<le> expected_report_seq (u_cli st) \<Longrightarrow> count < 2 ^ 32 \<Longrightarrow>
    udp_step st (st\<lparr>to_srv := insert (nak_frame start count) (to_srv st)\<rparr>)"
| u_hello: "client_id < 2 ^ 32 \<Longrightarrow> l < 2 ^ 32 \<Longrightarrow>
    udp_step st (st\<lparr>to_srv := insert (send_hello client_id l) (to_srv st)\<rparr>)"
| u_serve: "dg \<in> to_srv st \<Longrightarrow> server_on_datagram dg (u_srv st) = (s', evs, dgs) \<Longrightarrow>
    udp_step st (st\<lparr>u_srv := s', to_cli := to_cli st \<union> set dgs, u_taken := u_taken st @ concat (map order_of evs)\<rparr>)"
| u_report: "length (u_reports st) + 2 < 2 ^ 32 \<Longrightarrow> length payload < 2 ^ 16 \<Longrightarrow> q < 2 ^ 32 \<Longrightarrow>
    ack_and_report q payload (u_srv st) = (s', dgs) \<Longrightarrow>
    udp_step st (st\<lparr>u_srv := s', to_cli := to_cli st \<union> set dgs, u_reports := u_reports st @ [payload]\<rparr>)"
| u_reject: "q < 2 ^ 32 \<Longrightarrow> udp_step st (st\<lparr>to_cli := to_cli st \<union> set (reject_order q)\<rparr>)"
| u_receive: "dg \<in> to_cli st \<Longrightarrow> client_on_datagram dg (u_cli st) = (c', evs, dgs) \<Longrightarrow>
    udp_step st (st\<lparr>u_cli := c', to_srv := to_srv st \<union> set dgs, u_got := u_got st @ concat (map report_of evs)\<rparr>)"
| u_lose: "A \<subseteq> to_srv st \<Longrightarrow> B \<subseteq> to_cli st \<Longrightarrow> udp_step st (st\<lparr>to_srv := A, to_cli := B\<rparr>)"

inductive udp_steps :: "udp_sys \<Rightarrow> udp_sys \<Rightarrow> bool" where
  udp_none: "udp_steps st st"
| udp_more: "udp_steps st st' \<Longrightarrow> udp_step st' st'' \<Longrightarrow> udp_steps st st''"

definition udp_init :: "nat \<Rightarrow> udp_sys" where
  "udp_init cap = \<lparr>u_cli = udp_client_new, u_srv = udp_server_new cap, to_srv = {}, to_cli = {}, u_sent = [], u_taken = [],
     u_reports = [], u_got = []\<rparr>"

section \<open>Invariant\<close>

definition order_frame :: "bytes list \<Rightarrow> nat \<Rightarrow> bytes" where
  "order_frame sent q = udp_encode SESSION_MAGIC q ORDER (sent ! (q - 1))"

definition response_frame :: "bytes list \<Rightarrow> nat \<Rightarrow> nat \<Rightarrow> bytes" where
  "response_frame h a b =
     udp_encode SESSION_MAGIC 0 NAK_RESPONSE (be_bytes 4 a @ be_bytes 4 (b - a) @ concat (map report_block (run_of h a b)))"

definition from_client :: "bytes list \<Rightarrow> nat \<Rightarrow> bytes \<Rightarrow> bool" where
  "from_client sent e dg \<longleftrightarrow>
     (\<exists>q. 1 \<le> q \<and> q \<le> length sent \<and> dg = order_frame sent q) \<or>
     (\<exists>start count. start \<le> e \<and> count < 2 ^ 32 \<and> dg = nak_frame start count) \<or>
     (\<exists>i l. i < 2 ^ 32 \<and> l < 2 ^ 32 \<and> dg = send_hello i l)"

definition from_server :: "bytes list \<Rightarrow> bool \<Rightarrow> nat \<Rightarrow> bytes \<Rightarrow> bool" where
  "from_server h whole e dg \<longleftrightarrow>
     (\<exists>q. 1 \<le> q \<and> q \<le> length h \<and> dg = udp_encode SESSION_MAGIC q REPORT (h ! (q - 1))) \<or>
     (\<exists>a b. 1 \<le> a \<and> a \<le> length h + 1 \<and> b \<le> length h + 1 \<and> (whole \<longrightarrow> a \<le> e) \<and> dg = response_frame h a b) \<or>
     (\<exists>q t p. q < 2 ^ 32 \<and> t \<in> {ORDER_ACK, HELLO_ACK, HEARTBEAT, NAK_REQUEST} \<and> dg = udp_encode SESSION_MAGIC q t p)"

definition srv_ok :: "bytes list \<Rightarrow> bytes list \<Rightarrow> bytes list \<Rightarrow> udp_server \<Rightarrow> bool" where
  "srv_ok sent taken h s \<longleftrightarrow>
     expected_client_seq s = length taken + 1 \<and> taken = take (length taken) sent \<and>
     next_report_seq s = length h + 1 \<and> reports_ok h \<and> 1 \<le> ustore_start s \<and> ustore_start s \<le> length h + 1 \<and>
     ustore s = run_of h (ustore_start s) (length h + 1) \<and> 1 \<le> ustore_cap s"

definition cli_ok :: "bytes list \<Rightarrow> bytes list \<Rightarrow> bool \<Rightarrow> (nat \<times> bytes) list \<Rightarrow> udp_client \<Rightarrow> bool" where
  "cli_ok sent h whole got c \<longleftrightarrow>
     next_order_seq c = length sent + 1 \<and>
     (\<forall>q p. btm_get (upending c) q = Some p \<longrightarrow> 1 \<le> q \<and> q \<le> length sent \<and> p = sent ! (q - 1)) \<and>
     keys_sorted (<) (upending c) \<and>
     1 \<le> expected_report_seq c \<and> expected_report_seq c \<le> length h + 1 \<and>
     (\<forall>q p. (q, p) \<in> set got \<longrightarrow> 1 \<le> q \<and> q < expected_report_seq c \<and> p = h ! (q - 1)) \<and>
     sorted_wrt (<) (map fst got) \<and>
     (whole \<longrightarrow> got = run_of h 1 (expected_report_seq c))"

abbreviation whole_store :: "udp_sys \<Rightarrow> bool" where
  "whole_store st \<equiv> ustore_start (u_srv st) = 1"

definition udp_inv :: "udp_sys \<Rightarrow> bool" where
  "udp_inv st \<longleftrightarrow>
     length (u_sent st) + 1 < 2 ^ 32 \<and>
     srv_ok (u_sent st) (u_taken st) (u_reports st) (u_srv st) \<and>
     cli_ok (u_sent st) (u_reports st) (whole_store st) (u_got st) (u_cli st) \<and>
     (\<forall>dg \<in> to_srv st. from_client (u_sent st) (expected_report_seq (u_cli st)) dg) \<and>
     (\<forall>dg \<in> to_cli st. from_server (u_reports st) (whole_store st) (expected_report_seq (u_cli st)) dg)"

lemma from_client_mono: "from_client sent e dg \<Longrightarrow> e \<le> e' \<Longrightarrow> from_client (sent @ xs) e' dg"
proof -
  assume fc: "from_client sent e dg" and e: "e \<le> e'"
  have "order_frame (sent @ xs) q = order_frame sent q" if "1 \<le> q" "q \<le> length sent" for q
    using that by (auto simp: order_frame_def nth_append)
  then have o: "\<exists>q. 1 \<le> q \<and> q \<le> length (sent @ xs) \<and> dg = order_frame (sent @ xs) q"
    if "1 \<le> q" "q \<le> length sent" "dg = order_frame sent q" for q
    using that by (intro exI [of _ q]) simp
  show ?thesis
    using fc e o unfolding from_client_def by (elim disjE exE conjE) (blast intro: order_trans)+
qed

lemma from_server_mono:
  assumes "from_server h whole e dg" "e \<le> e'" "whole' \<Longrightarrow> whole"
  shows "from_server (h @ xs) whole' e' dg"
proof -
  have r: "response_frame (h @ xs) a b = response_frame h a b" if "1 \<le> a" "b \<le> length h + 1" for a b
    using that by (simp add: response_frame_def run_of_append)
  from assms(1) consider
      q where "1 \<le> q" "q \<le> length h" "dg = udp_encode SESSION_MAGIC q REPORT (h ! (q - 1))"
    | a b where "1 \<le> a" "a \<le> length h + 1" "b \<le> length h + 1" "whole \<longrightarrow> a \<le> e" "dg = response_frame h a b"
    | q t p where "q < 2 ^ 32" "t \<in> {ORDER_ACK, HELLO_ACK, HEARTBEAT, NAK_REQUEST}" "dg = udp_encode SESSION_MAGIC q t p"
    unfolding from_server_def by blast
  then show ?thesis
  proof cases
    case 1
    then have "1 \<le> q \<and> q \<le> length (h @ xs) \<and> dg = udp_encode SESSION_MAGIC q REPORT ((h @ xs) ! (q - 1))" by (auto simp: nth_append)
    then show ?thesis unfolding from_server_def by blast
  next
    case 2
    then have "1 \<le> a \<and> a \<le> length (h @ xs) + 1 \<and> b \<le> length (h @ xs) + 1 \<and> (whole' \<longrightarrow> a \<le> e') \<and> dg = response_frame (h @ xs) a b"
      using r assms(2,3) by auto
    then show ?thesis unfolding from_server_def by blast
  next
    case 3
    then show ?thesis unfolding from_server_def by blast
  qed
qed

lemma pending_get_insert: "keys_sorted (<) m \<Longrightarrow> btm_get (btm_insert k v m) q = (if q = k then Some v else btm_get m q)"
  by (simp add: btm_insert_def map_of_ins_by)

lemma send_ok:
  assumes "cli_ok sent h whole got c" "length sent + 2 < 2 ^ 32" "send_order now payload c = (c', dg)"
  shows "cli_ok (sent @ [payload]) h whole got c'" "dg = order_frame (sent @ [payload]) (length sent + 1)"
    "expected_report_seq c' = expected_report_seq c"
proof -
  have n: "next_order_seq c = length sent + 1" "u32_inc (length sent + 1) = length sent + 2"
    using assms(1,2) u32_inc_exact [of "length sent + 1"] by (simp_all add: cli_ok_def)
  then show "dg = order_frame (sent @ [payload]) (length sent + 1)" "expected_report_seq c' = expected_report_seq c"
    using assms(3) by (auto simp: send_order_def order_frame_def Let_def)
  have c': "c' = c\<lparr>next_order_seq := length sent + 2, upending := btm_insert (length sent + 1) payload (upending c),
      upending_ts := btm_insert (length sent + 1) now (upending_ts c)\<rparr>"
    using assms(3) n by (auto simp: send_order_def Let_def)
  have "keys_sorted (<) (btm_insert (length sent + 1) payload (upending c))"
    using assms(1) by (simp add: cli_ok_def btm_insert_def sorted_ins_by)
  moreover have "1 \<le> q \<and> q \<le> length (sent @ [payload]) \<and> p = (sent @ [payload]) ! (q - 1)"
    if "btm_get (btm_insert (length sent + 1) payload (upending c)) q = Some p" for q p
  proof (cases "q = length sent + 1")
    case False
    then have "1 \<le> q" "q \<le> length sent" "p = sent ! (q - 1)"
      using that assms(1) by (auto simp: cli_ok_def pending_get_insert)
    then show ?thesis by (auto simp: nth_append)
  qed (use that assms(1) in \<open>auto simp: cli_ok_def pending_get_insert\<close>)
  ultimately show "cli_ok (sent @ [payload]) h whole got c'" using assms(1) unfolding c' cli_ok_def by simp
qed

lemma resend_ok:
  "resend now due c = (c', dgs) \<Longrightarrow>
   (\<exists>ts. c' = c\<lparr>upending_ts := ts\<rparr>) \<and> (\<forall>dg \<in> set dgs. \<exists>q p. btm_get (upending c) q = Some p \<and> dg = udp_encode SESSION_MAGIC q ORDER p)"
proof (induction due arbitrary: c c' dgs)
  case Nil
  then show ?case by (auto intro: exI [of _ "upending_ts c"])
next
  case (Cons seq due)
  show ?case
  proof (cases "btm_get (upending c) seq")
    case None
    then show ?thesis using Cons by simp
  next
    case (Some p)
    let ?c = "c\<lparr>upending_ts := btm_insert seq now (upending_ts c)\<rparr>"
    obtain out where out: "resend now due ?c = (c', out)" "dgs = udp_encode SESSION_MAGIC seq ORDER p # out"
      using Cons.prems Some by (auto split: prod.splits)
    then show ?thesis using Cons.IH [OF out(1)] Some by auto
  qed
qed

lemma cli_ok_ts: "cli_ok sent h whole got (c\<lparr>upending_ts := ts\<rparr>) = cli_ok sent h whole got c"
  by (simp add: cli_ok_def)

lemma retransmit_ok_udp:
  assumes "cli_ok sent h whole got c" "retransmit_due now timeout c = (c', dgs)"
  shows "cli_ok sent h whole got c'" "expected_report_seq c' = expected_report_seq c" "\<forall>dg \<in> set dgs. from_client sent e dg"
proof -
  have r: "\<exists>ts. c' = c\<lparr>upending_ts := ts\<rparr>" "\<forall>dg \<in> set dgs. \<exists>q p. btm_get (upending c) q = Some p \<and> dg = udp_encode SESSION_MAGIC q ORDER p"
    using resend_ok assms(2) unfolding retransmit_due_def by blast+
  then show "cli_ok sent h whole got c'" "expected_report_seq c' = expected_report_seq c" using assms(1) by (auto simp: cli_ok_ts)
  show "\<forall>dg \<in> set dgs. from_client sent e dg"
    using r(2) assms(1) unfolding from_client_def order_frame_def cli_ok_def by blast
qed

lemma nak_response_frame:
  assumes "srv_ok sent taken h s" "start \<le> length h + 1"
  shows "\<exists>a b. 1 \<le> a \<and> a \<le> length h + 1 \<and> b \<le> length h + 1 \<and> a = max start (ustore_start s) \<and> nak_response start count s = response_frame h a b"
proof -
  let ?a = "max start (ustore_start s)" and ?b = "min (min (max start (ustore_start s) + count) (2 ^ 32 - 1)) (length h + 1)"
  have "report_high_water s + 1 = length h + 1" using assms(1) by (simp add: srv_ok_def report_high_water_def)
  moreover have "filter (\<lambda>e. ?a \<le> fst e \<and> fst e < ?b) (ustore s) = run_of h ?a ?b"
  proof -
    have us: "ustore s = run_of h (ustore_start s) (length h + 1)" using assms(1) by (simp add: srv_ok_def)
    show ?thesis unfolding us by (rule run_of_filter) simp_all
  qed
  ultimately have "nak_response start count s = response_frame h ?a ?b"
    by (simp only: nak_response_def response_frame_def Let_def)
  then show ?thesis using assms by (intro exI [of _ ?a] exI [of _ ?b]) (auto simp: srv_ok_def)
qed

lemma inert_from_server:
  "q < 2 ^ 32 \<Longrightarrow> t \<in> {ORDER_ACK, HELLO_ACK, HEARTBEAT, NAK_REQUEST} \<Longrightarrow> from_server h whole e (udp_encode SESSION_MAGIC q t p)"
  unfolding from_server_def by blast

lemma ack_from_server [simp]: "q < 2 ^ 32 \<Longrightarrow> from_server h whole e (ack_frame q r)"
  by (simp add: ack_frame_def inert_from_server)

lemma nak_from_server [simp]: "from_server h whole e (nak_frame a b)"
  by (simp add: nak_frame_def inert_from_server)

lemma serve_order_ok:
  assumes "srv_ok sent taken h s" "1 \<le> q" "q \<le> length sent" "length sent + 1 < 2 ^ 32"
    "server_on_order (SOrder q (sent ! (q - 1))) q s = (s', evs, dgs)"
  shows "srv_ok sent (taken @ concat (map order_of evs)) h s'" "ustore_start s' = ustore_start s"
    "\<forall>dg \<in> set dgs. from_server h whole e dg"
proof -
  have x: "expected_client_seq s = length taken + 1" "taken = take (length taken) sent" using assms(1) by (simp_all add: srv_ok_def)
  have q: "q < 2 ^ 32" using assms(3,4) by simp
  show "ustore_start s' = ustore_start s" "\<forall>dg \<in> set dgs. from_server h whole e dg"
    using assms(5) q by (auto simp: server_on_order_def split: if_splits)
  show "srv_ok sent (taken @ concat (map order_of evs)) h s'"
  proof (cases "q = length taken + 1")
    case True
    have "u32_inc (length taken + 1) = length taken + 2" using True assms(3,4) u32_inc_exact [of "length taken + 1"] by simp
    moreover have "take (length taken + 1) sent = taken @ [sent ! (q - 1)]"
      using True assms(3) x(2) by (simp add: take_Suc_conv_app_nth)
    ultimately show ?thesis using True assms(1,5) x(1) by (auto simp: server_on_order_def srv_ok_def order_of_def)
  next
    case False
    then show ?thesis using assms(1,5) x(1) by (auto simp: server_on_order_def srv_ok_def split: if_splits)
  qed
qed

lemma response_from_server:
  "1 \<le> a \<Longrightarrow> a \<le> length h + 1 \<Longrightarrow> b \<le> length h + 1 \<Longrightarrow> whole \<longrightarrow> a \<le> e \<Longrightarrow> from_server h whole e (response_frame h a b)"
  unfolding from_server_def by blast

lemma serve_ok:
  assumes "srv_ok sent taken h s" "length sent + 1 < 2 ^ 32" "from_client sent e dg" "1 \<le> e" "e \<le> length h + 1"
    "server_on_datagram dg s = (s', evs, dgs)"
  shows "srv_ok sent (taken @ concat (map order_of evs)) h s' \<and> ustore_start s' = ustore_start s \<and>
    (\<forall>d \<in> set dgs. from_server h (ustore_start s = 1) e d)"
proof -
  have h: "length h + 1 < 2 ^ 32" using assms(1) by (simp add: srv_ok_def reports_ok_def)
  from assms(3) consider
      q where "1 \<le> q" "q \<le> length sent" "dg = order_frame sent q"
    | start count where "start \<le> e" "count < 2 ^ 32" "dg = nak_frame start count"
    | i l where "i < 2 ^ 32" "l < 2 ^ 32" "dg = send_hello i l"
    unfolding from_client_def by blast
  then show ?thesis
  proof cases
    case 1
    then have "server_on_order (SOrder q (sent ! (q - 1))) q s = (s', evs, dgs)"
      using assms(2,6) by (simp add: server_on_datagram_def order_frame_def)
    from serve_order_ok [OF assms(1) 1(1,2) assms(2) this] show ?thesis by blast
  next
    case 2
    have "start < 2 ^ 32" using 2(1) assms(5) h by simp
    then have r: "s' = s" "evs = [SNakRequest start count]" "dgs = [nak_response start count s]"
      using assms(6) 2 by (auto simp: server_on_datagram_def nak_frame_def frame_types u32_be_def be_val_4)
    obtain a b where ab: "1 \<le> a" "a \<le> length h + 1" "b \<le> length h + 1" "a = max start (ustore_start s)"
      "nak_response start count s = response_frame h a b"
      using nak_response_frame [OF assms(1), of start count] 2(1) assms(5) by auto
    have "from_server h (ustore_start s = 1) e (response_frame h a b)"
      using ab assms(4) 2(1) by (intro response_from_server) auto
    then show ?thesis using ab(5) r assms(1) by (simp add: order_of_def)
  next
    case 3
    then show ?thesis
      using assms(1,6) by (auto simp: server_on_datagram_def send_hello_def frame_types u32_be_def be_val_4
        server_on_hello_def Let_def order_of_def intro!: inert_from_server)
  qed
qed

lemma report_ok:
  assumes "srv_ok sent taken h s" "length h + 2 < 2 ^ 32" "length payload < 2 ^ 16" "q < 2 ^ 32"
    "ack_and_report q payload s = (s', dgs)"
  shows "srv_ok sent taken (h @ [payload]) s'" "ustore_start s' = 1 \<Longrightarrow> ustore_start s = 1"
    "\<forall>d \<in> set dgs. from_server (h @ [payload]) whole e d"
proof -
  let ?h = "h @ [payload]" and ?n = "length h + 1"
  have ok: "next_report_seq s = ?n" "1 \<le> ustore_start s" "ustore_start s \<le> ?n" "ustore s = run_of h (ustore_start s) ?n"
    using assms(1) by (simp_all add: srv_ok_def)
  have n: "u32_inc ?n = length ?h + 1" using assms(2) u32_inc_exact [of ?n] by simp
  have st: "ustore s @ [(?n, payload)] = run_of ?h (ustore_start s) (length ?h + 1)"
    using ok run_of_snoc [of "ustore_start s" ?n ?h] by (simp add: run_of_append)
  have hd: "run_of ?h (ustore_start s) (length ?h + 1) = (ustore_start s, ?h ! (ustore_start s - 1)) # run_of ?h (ustore_start s + 1) (length ?h + 1)"
    using ok(3) by (intro run_of_Cons) simp
  have inc: "u32_inc (ustore_start s) = ustore_start s + 1" using ok(3) assms(2) by (intro u32_inc_exact) simp
  have s': "s' = (if ustore_cap s < length (run_of ?h (ustore_start s) (length ?h + 1))
      then s\<lparr>next_report_seq := length ?h + 1, ustore := run_of ?h (ustore_start s + 1) (length ?h + 1), ustore_start := ustore_start s + 1\<rparr>
      else s\<lparr>next_report_seq := length ?h + 1, ustore := run_of ?h (ustore_start s) (length ?h + 1)\<rparr>)"
  proof -
    have "s' = fst (ack_and_report q payload s)" using assms(5) by simp
    then show ?thesis unfolding ack_and_report_def Let_def ok(1) st n by (simp add: hd [simplified] inc)
  qed
  show "srv_ok sent taken ?h s'"
    using assms(1-3) ok unfolding s' by (auto simp: srv_ok_def reports_ok_def)
  show "ustore_start s = 1" if "ustore_start s' = 1" using that ok(2) unfolding s' by (auto split: if_splits)
  have "udp_encode SESSION_MAGIC ?n REPORT payload = udp_encode SESSION_MAGIC ?n REPORT (?h ! (?n - 1))" by simp
  then have "from_server ?h whole e (udp_encode SESSION_MAGIC ?n REPORT payload)"
    unfolding from_server_def by (metis le_add2 length_append_singleton Suc_eq_plus1 order_refl)
  moreover have "dgs = [ack_frame q ACK_OK, udp_encode SESSION_MAGIC ?n REPORT payload]"
    using assms(5) by (auto simp: ack_and_report_def Let_def ok(1))
  ultimately show "\<forall>d \<in> set dgs. from_server ?h whole e d" using assms(4) by simp
qed

lemma deliver_run:
  assumes "cli_ok sent h whole got c" "1 \<le> a" "b \<le> length h + 1" "whole \<longrightarrow> a \<le> expected_report_seq c"
  shows "cli_ok sent h whole (got @ run_of h (max a (expected_report_seq c)) b)
    (c\<lparr>expected_report_seq := if a < b then max (expected_report_seq c) b else expected_report_seq c\<rparr>)"
proof -
  let ?e = "expected_report_seq c" and ?new = "run_of h (max a (expected_report_seq c)) b"
  let ?e' = "if a < b then max ?e b else ?e"
  have got: "1 \<le> q \<and> q < ?e \<and> p = h ! (q - 1)" if "(q, p) \<in> set got" for q p using assms(1) that by (simp add: cli_ok_def)
  have "1 \<le> q \<and> q < ?e' \<and> p = h ! (q - 1)" if "(q, p) \<in> set (got @ ?new)" for q p
    using that got [of q p] assms(2) by (auto simp: run_of_mem)
  moreover have "sorted_wrt (<) (map fst (got @ ?new))"
  proof -
    have "x < ?e" if "x \<in> set (map fst got)" for x using that got by auto
    moreover have "?e \<le> y" if "y \<in> set (map fst ?new)" for y using that by (auto simp: run_of_def)
    ultimately have "x < y" if "x \<in> set (map fst got)" "y \<in> set (map fst ?new)" for x y using that by (meson less_le_trans)
    then show ?thesis using assms(1) run_of_sorted [of h "max a ?e" b] unfolding map_append sorted_wrt_append cli_ok_def by blast
  qed
  moreover have "got @ ?new = run_of h 1 ?e'" if whole
  proof -
    have "got = run_of h 1 ?e" "a \<le> ?e" "1 \<le> ?e" using assms(1,4) that by (simp_all add: cli_ok_def)
    then show ?thesis using run_of_join [of 1 ?e b h] by (cases "?e \<le> b") (auto simp: max_def)
  qed
  moreover have "1 \<le> ?e'" "?e' \<le> length h + 1" using assms(1,3) by (auto simp: cli_ok_def)
  ultimately show ?thesis using assms(1) by (simp add: cli_ok_def)
qed

lemma report_of_run: "concat (map report_of (map (\<lambda>(q, p). CReport q p) xs)) = xs"
  by (induction xs) (auto simp: report_of_def)

lemma inert_received:
  assumes "cli_ok sent h whole got c" "q < 2 ^ 32" "t \<in> {ORDER_ACK, HELLO_ACK, HEARTBEAT, NAK_REQUEST}"
    "client_on_datagram (udp_encode SESSION_MAGIC q t p) c = (c', evs, dgs)"
  shows "cli_ok sent h whole (got @ concat (map report_of evs)) c'" "expected_report_seq c' = expected_report_seq c" "dgs = []"
  using assms by (auto simp: client_on_datagram_def frame_types report_of_def cli_ok_def map_of_remove sorted_remove split: if_splits)

lemma nak_from_client: "start \<le> e \<Longrightarrow> count < 2 ^ 32 \<Longrightarrow> from_client sent e (nak_frame start count)"
  unfolding from_client_def by blast

lemma receive_report:
  assumes "cli_ok sent h whole got c" "reports_ok h" "1 \<le> q" "q \<le> length h"
    "client_on_report q (h ! (q - 1)) c = (c', evs, dgs)"
  shows "cli_ok sent h whole (got @ concat (map report_of evs)) c'" "expected_report_seq c \<le> expected_report_seq c'"
    "\<forall>d \<in> set dgs. from_client sent (expected_report_seq c') d"
proof -
  have h: "length h + 1 < 2 ^ 32" using assms(2) by (simp add: reports_ok_def)
  have e: "1 \<le> expected_report_seq c" using assms(1) by (simp add: cli_ok_def)
  have inc: "u32_inc q = q + 1" using assms(4) h by (intro u32_inc_exact) simp
  have nak: "from_client sent (expected_report_seq c) (nak_frame (expected_report_seq c) (q - expected_report_seq c))"
    using assms(4) h by (intro nak_from_client) auto
  show "expected_report_seq c \<le> expected_report_seq c'" "\<forall>d \<in> set dgs. from_client sent (expected_report_seq c') d"
    using assms(5) nak inc by (auto simp: client_on_report_def split: if_splits)
  show "cli_ok sent h whole (got @ concat (map report_of evs)) c'"
  proof (cases "q = expected_report_seq c")
    case True
    have "run_of h q (q + 1) = [(q, h ! (q - 1))]" by (simp add: run_of_def)
    then show ?thesis
      using True assms(5) inc deliver_run [OF assms(1), of q "q + 1"] assms(3,4) by (auto simp: client_on_report_def report_of_def max_def)
  next
    case False
    then show ?thesis using assms(1,5) by (auto simp: client_on_report_def split: if_splits)
  qed
qed

lemma receive_response:
  assumes "cli_ok sent h whole got c" "reports_ok h" "1 \<le> a" "a \<le> length h + 1" "b \<le> length h + 1" "whole \<longrightarrow> a \<le> expected_report_seq c"
    "client_on_datagram (response_frame h a b) c = (c', evs, dgs)"
  shows "cli_ok sent h whole (got @ concat (map report_of evs)) c'" "expected_report_seq c \<le> expected_report_seq c'" "dgs = []"
proof -
  let ?e = "expected_report_seq c"
  have e: "1 \<le> ?e" "?e \<le> length h + 1" using assms(1) by (simp_all add: cli_ok_def)
  have "b - a < 2 ^ 32" using assms(2,5) by (auto simp: reports_ok_def)
  then have f: "c' = c\<lparr>expected_report_seq := if a < b then max ?e b else ?e\<rparr>" "dgs = []"
    "evs = map (\<lambda>(q, p). CReport q p) (run_of h (max a ?e) b)"
    using assms(7) blocks_run [OF assms(2,3,5) e]
    by (simp_all add: client_on_datagram_def response_frame_def frame_types u32_be_def be_val_4 split: if_splits)
  show "cli_ok sent h whole (got @ concat (map report_of evs)) c'"
    unfolding f(1,3) report_of_run by (rule deliver_run [OF assms(1,3,5,6)])
  show "?e \<le> expected_report_seq c'" "dgs = []" using f(1,2) by simp_all
qed

lemma receive_udp_ok:
  assumes "cli_ok sent h whole got c" "reports_ok h" "from_server h whole (expected_report_seq c) dg"
    "client_on_datagram dg c = (c', evs, dgs)"
  shows "cli_ok sent h whole (got @ concat (map report_of evs)) c' \<and> expected_report_seq c \<le> expected_report_seq c' \<and>
    (\<forall>d \<in> set dgs. from_client sent (expected_report_seq c') d)"
proof -
  from assms(3) consider
      q where "1 \<le> q" "q \<le> length h" "dg = udp_encode SESSION_MAGIC q REPORT (h ! (q - 1))"
    | a b where "1 \<le> a" "a \<le> length h + 1" "b \<le> length h + 1" "whole \<longrightarrow> a \<le> expected_report_seq c" "dg = response_frame h a b"
    | q t p where "q < 2 ^ 32" "t \<in> {ORDER_ACK, HELLO_ACK, HEARTBEAT, NAK_REQUEST}" "dg = udp_encode SESSION_MAGIC q t p"
    unfolding from_server_def by blast
  then show ?thesis
  proof cases
    case 1
    then have "client_on_report q (h ! (q - 1)) c = (c', evs, dgs)"
      using assms(2,4) by (simp add: client_on_datagram_def reports_ok_def)
    from receive_report [OF assms(1,2) 1(1,2) this] show ?thesis by blast
  next
    case 2
    from receive_response [OF assms(1,2) 2(1-4) assms(4) [unfolded 2(5)]] show ?thesis by simp
  next
    case 3
    from inert_received [OF assms(1) 3(1,2) assms(4) [unfolded 3(3)]] show ?thesis by simp
  qed
qed

lemma cli_ok_history:
  assumes "cli_ok sent h whole got c" "whole' \<Longrightarrow> whole"
  shows "cli_ok sent (h @ xs) whole' got c"
proof -
  have "p = (h @ xs) ! (q - 1)" if "(q, p) \<in> set got" for q p
  proof -
    have "1 \<le> q" "q < expected_report_seq c" "p = h ! (q - 1)" "expected_report_seq c \<le> length h + 1"
      using assms(1) that by (auto simp: cli_ok_def)
    then show ?thesis by (auto simp: nth_append)
  qed
  moreover have "run_of (h @ xs) 1 (expected_report_seq c) = run_of h 1 (expected_report_seq c)"
    using assms(1) by (simp add: cli_ok_def run_of_append)
  ultimately show ?thesis using assms unfolding cli_ok_def by auto
qed

lemma order_from_client: "1 \<le> q \<Longrightarrow> q \<le> length sent \<Longrightarrow> from_client sent e (order_frame sent q)"
  unfolding from_client_def by blast

lemma srv_ok_sent:
  assumes "srv_ok sent taken h s"
  shows "srv_ok (sent @ xs) taken h s"
proof -
  have t: "taken = take (length taken) sent" using assms by (simp add: srv_ok_def)
  then have "length taken \<le> length sent" by (metis length_take min.cobounded1)
  then show ?thesis using assms t by (simp add: srv_ok_def)
qed

lemma udp_inv_init: "udp_inv (udp_init cap)"
  by (simp add: udp_inv_def udp_init_def udp_client_new_def udp_server_new_def srv_ok_def cli_ok_def reports_ok_def)

lemma udp_inv_step: "udp_step st st' \<Longrightarrow> udp_inv st \<Longrightarrow> udp_inv st'"
proof (induction rule: udp_step.induct)
  case (u_send st now payload c' dg)
  then have s: "cli_ok (u_sent st @ [payload]) (u_reports st) (whole_store st) (u_got st) c'"
    "dg = order_frame (u_sent st @ [payload]) (length (u_sent st) + 1)" "expected_report_seq c' = expected_report_seq (u_cli st)"
    using send_ok by (auto simp: udp_inv_def)
  have "from_client (u_sent st @ [payload]) e dg" for e unfolding s(2) by (rule order_from_client) simp_all
  then show ?case using u_send s srv_ok_sent from_client_mono by (auto simp: udp_inv_def)
next
  case (u_resend now timeout st c' dgs)
  then show ?case
    using retransmit_ok_udp [of "u_sent st" "u_reports st" "whole_store st" "u_got st" "u_cli st" now timeout c' dgs]
    by (auto simp: udp_inv_def)
next
  case (u_nak start st count)
  then show ?case using nak_from_client by (auto simp: udp_inv_def)
next
  case (u_hello i l st)
  then have "from_client (u_sent st) e (send_hello i l)" for e unfolding from_client_def by blast
  then show ?case using u_hello by (auto simp: udp_inv_def)
next
  case (u_serve dg st s' evs dgs)
  let ?e = "expected_report_seq (u_cli st)"
  have "1 \<le> ?e" "?e \<le> length (u_reports st) + 1" using u_serve by (auto simp: udp_inv_def cli_ok_def)
  then have "srv_ok (u_sent st) (u_taken st @ concat (map order_of evs)) (u_reports st) s' \<and> ustore_start s' = ustore_start (u_srv st) \<and>
    (\<forall>d \<in> set dgs. from_server (u_reports st) (whole_store st) ?e d)"
    using u_serve by (intro serve_ok) (auto simp: udp_inv_def)
  then show ?case using u_serve by (auto simp: udp_inv_def)
next
  case (u_report st payload q s' dgs)
  then have "srv_ok (u_sent st) (u_taken st) (u_reports st) (u_srv st)" by (simp add: udp_inv_def)
  from report_ok [OF this u_report(1-4)] u_report show ?case
    using from_server_mono cli_ok_history by (auto simp: udp_inv_def)
next
  case (u_reject q st)
  then show ?case by (auto simp: udp_inv_def reject_order_def)
next
  case (u_receive dg st c' evs dgs)
  have "cli_ok (u_sent st) (u_reports st) (whole_store st) (u_got st @ concat (map report_of evs)) c' \<and>
      expected_report_seq (u_cli st) \<le> expected_report_seq c' \<and> (\<forall>d \<in> set dgs. from_client (u_sent st) (expected_report_seq c') d)"
    using u_receive by (intro receive_udp_ok) (auto simp: udp_inv_def srv_ok_def)
  then show ?case
    using u_receive from_client_mono [where xs = "[]"] from_server_mono [where xs = "[]"] by (auto simp: udp_inv_def)
next
  case (u_lose A st B)
  then show ?case by (auto simp: udp_inv_def)
qed

lemma udp_inv_steps: "udp_steps st st' \<Longrightarrow> udp_inv st \<Longrightarrow> udp_inv st'"
  by (induction rule: udp_steps.induct) (auto intro: udp_inv_step)

section \<open>A session that has stopped\<close>

lemma udp_encode_inject:
  assumes "q < 2 ^ 32" "q' < 2 ^ 32" "udp_encode SESSION_MAGIC q t p = udp_encode SESSION_MAGIC q' t' p'"
  shows "q = q' \<and> t = t' \<and> p = p'"
proof -
  have "udp_decode (udp_encode SESSION_MAGIC q t p) = udp_decode (udp_encode SESSION_MAGIC q' t' p')" by (simp only: assms(3))
  then show ?thesis unfolding udp_decode_encode [OF assms(1)] udp_decode_encode [OF assms(2)] by simp
qed

text \<open>The next order the server waits for is neither pending at the client nor on its way.\<close>

definition stalled :: "udp_sys \<Rightarrow> bool" where
  "stalled st \<longleftrightarrow>
     (let q = length (u_taken st) + 1
      in q \<le> length (u_sent st) \<and> btm_get (upending (u_cli st)) q = None \<and> order_frame (u_sent st) q \<notin> to_srv st)"

lemma order_frame_append: "1 \<le> q \<Longrightarrow> q \<le> length sent \<Longrightarrow> order_frame (sent @ xs) q = order_frame sent q"
  by (auto simp: order_frame_def nth_append)

lemma order_frame_inject:
  "q < 2 ^ 32 \<Longrightarrow> q' < 2 ^ 32 \<Longrightarrow> order_frame sent q = udp_encode SESSION_MAGIC q' t p \<Longrightarrow> q = q' \<and> t = ORDER"
  unfolding order_frame_def using udp_encode_inject by blast

lemma order_frame_other:
  "q < 2 ^ 32 \<Longrightarrow> order_frame sent q \<noteq> nak_frame a b" "q < 2 ^ 32 \<Longrightarrow> order_frame sent q \<noteq> send_hello a b"
proof -
  have t: "NAK_REQUEST \<noteq> ORDER" "HELLO \<noteq> ORDER" by (simp_all add: frame_types)
  show "order_frame sent q \<noteq> nak_frame a b" if "q < 2 ^ 32"
    using order_frame_inject [OF that, of 0 sent NAK_REQUEST] t(1) unfolding nak_frame_def by auto
  show "order_frame sent q \<noteq> send_hello a b" if "q < 2 ^ 32"
    using order_frame_inject [OF that, of 0 sent HELLO] t(2) unfolding send_hello_def by auto
qed

lemma received_out:
  assumes "client_on_datagram dg c = (c', evs, dgs)"
  shows "\<forall>d \<in> set dgs. \<exists>a b. d = nak_frame a b" "btm_get (upending c) q = None \<Longrightarrow> btm_get (upending c') q = None"
  using assms
  by (auto simp: client_on_datagram_def client_on_report_def map_of_remove split: option.splits prod.splits if_splits) blast

lemma stalled_serve:
  assumes "udp_inv st" "stalled st" "dg \<in> to_srv st" "server_on_datagram dg (u_srv st) = (s', evs, dgs)"
  shows "concat (map order_of evs) = []"
proof -
  have x: "expected_client_seq (u_srv st) = length (u_taken st) + 1" using assms(1) by (simp add: udp_inv_def srv_ok_def)
  have "from_client (u_sent st) (expected_report_seq (u_cli st)) dg" using assms(1,3) by (simp add: udp_inv_def)
  then consider
      q where "1 \<le> q" "q \<le> length (u_sent st)" "dg = order_frame (u_sent st) q"
    | start count where "dg = nak_frame start count"
    | i l where "dg = send_hello i l"
    unfolding from_client_def by blast
  then show ?thesis
  proof cases
    case 1
    have "q < 2 ^ 32" using 1(2) assms(1) by (simp add: udp_inv_def)
    moreover have "q \<noteq> length (u_taken st) + 1" using 1(3) assms(2,3) by (auto simp: stalled_def Let_def)
    ultimately show ?thesis
      using assms(4) 1(3) x by (auto simp: server_on_datagram_def order_frame_def server_on_order_def order_of_def split: if_splits)
  next
    case 2
    then show ?thesis using assms(4) by (auto simp: server_on_datagram_def nak_frame_def frame_types order_of_def)
  next
    case 3
    then show ?thesis
      using assms(4) by (auto simp: server_on_datagram_def send_hello_def server_on_hello_def frame_types order_of_def Let_def)
  qed
qed

lemma stalled_step: "udp_step st st' \<Longrightarrow> udp_inv st \<Longrightarrow> stalled st \<Longrightarrow> stalled st' \<and> u_taken st' = u_taken st"
proof (induction rule: udp_step.induct)
  case (u_send st now payload c' dg)
  let ?q = "length (u_taken st) + 1" and ?n = "length (u_sent st) + 1"
  have ok: "cli_ok (u_sent st) (u_reports st) (whole_store st) (u_got st) (u_cli st)" using u_send by (simp add: udp_inv_def)
  have q: "?q \<le> length (u_sent st)" "?q < 2 ^ 32" "?n < 2 ^ 32" using u_send by (auto simp: stalled_def Let_def udp_inv_def)
  have dg: "dg = order_frame (u_sent st @ [payload]) ?n" using send_ok [OF ok u_send(1,2)] by simp
  have "order_frame (u_sent st @ [payload]) ?q \<noteq> dg"
    using order_frame_inject [OF q(2,3)] q(1) unfolding dg order_frame_def [of _ ?n] by fastforce
  moreover have "btm_get (upending c') ?q = btm_get (upending (u_cli st)) ?q"
    using u_send(2) ok q(1) by (auto simp: send_order_def Let_def cli_ok_def pending_get_insert)
  ultimately show ?case using u_send q(1) by (auto simp: stalled_def Let_def order_frame_append)
next
  case (u_resend now timeout st c' dgs)
  let ?q = "length (u_taken st) + 1"
  have q: "?q < 2 ^ 32" using u_resend by (auto simp: stalled_def Let_def udp_inv_def)
  have r: "\<exists>ts. c' = u_cli st\<lparr>upending_ts := ts\<rparr>"
    "\<forall>dg \<in> set dgs. \<exists>q p. btm_get (upending (u_cli st)) q = Some p \<and> dg = udp_encode SESSION_MAGIC q ORDER p"
    using resend_ok u_resend(1) unfolding retransmit_due_def by blast+
  have "order_frame (u_sent st) ?q \<notin> set dgs"
  proof
    assume "order_frame (u_sent st) ?q \<in> set dgs"
    then obtain q' p where p: "btm_get (upending (u_cli st)) q' = Some p" "order_frame (u_sent st) ?q = udp_encode SESSION_MAGIC q' ORDER p"
      using r(2) by blast
    have "q' \<le> length (u_sent st)" "length (u_sent st) + 1 < 2 ^ 32" using p(1) u_resend by (auto simp: udp_inv_def cli_ok_def)
    then have "q' < 2 ^ 32" by simp
    then have "?q = q'" using order_frame_inject [OF q _ p(2)] by blast
    then show False using p(1) u_resend by (simp add: stalled_def Let_def)
  qed
  then show ?case using u_resend r(1) by (auto simp: stalled_def Let_def)
next
  case (u_nak start st count)
  then have "length (u_taken st) + 1 < 2 ^ 32" by (auto simp: stalled_def Let_def udp_inv_def)
  then show ?case using u_nak order_frame_other by (auto simp: stalled_def Let_def)
next
  case (u_hello i l st)
  then have "length (u_taken st) + 1 < 2 ^ 32" by (auto simp: stalled_def Let_def udp_inv_def)
  then show ?case using u_hello order_frame_other by (auto simp: stalled_def Let_def)
next
  case (u_serve dg st s' evs dgs)
  then have e: "concat (map order_of evs) = []" using stalled_serve by blast
  show ?case using u_serve(4) unfolding e by (simp add: stalled_def Let_def)
next
  case (u_receive dg st c' evs dgs)
  then have "length (u_taken st) + 1 < 2 ^ 32" by (auto simp: stalled_def Let_def udp_inv_def)
  then show ?case using u_receive received_out [OF u_receive(2)] order_frame_other by (fastforce simp: stalled_def Let_def)
qed (auto simp: stalled_def Let_def)

lemma stalled_steps: "udp_steps st st' \<Longrightarrow> udp_inv st \<Longrightarrow> stalled st \<Longrightarrow> udp_inv st' \<and> stalled st' \<and> u_taken st' = u_taken st"
  by (induction rule: udp_steps.induct) (auto dest: udp_inv_step stalled_step)

section \<open>Sample runs\<close>

definition do_send :: "bytes \<Rightarrow> udp_sys \<Rightarrow> udp_sys" where
  "do_send payload st =
     (case send_order 0 payload (u_cli st) of
        (c', dg) \<Rightarrow> st\<lparr>u_cli := c', to_srv := insert dg (to_srv st), u_sent := u_sent st @ [payload]\<rparr>)"

definition do_resend :: "udp_sys \<Rightarrow> udp_sys" where
  "do_resend st = (case retransmit_due 5 5 (u_cli st) of (c', dgs) \<Rightarrow> st\<lparr>u_cli := c', to_srv := to_srv st \<union> set dgs\<rparr>)"

definition do_serve :: "bytes \<Rightarrow> udp_sys \<Rightarrow> udp_sys" where
  "do_serve dg st =
     (case server_on_datagram dg (u_srv st) of
        (s', evs, dgs) \<Rightarrow> st\<lparr>u_srv := s', to_cli := to_cli st \<union> set dgs, u_taken := u_taken st @ concat (map order_of evs)\<rparr>)"

definition do_report :: "nat \<Rightarrow> bytes \<Rightarrow> udp_sys \<Rightarrow> udp_sys" where
  "do_report q payload st =
     (case ack_and_report q payload (u_srv st) of
        (s', dgs) \<Rightarrow> st\<lparr>u_srv := s', to_cli := to_cli st \<union> set dgs, u_reports := u_reports st @ [payload]\<rparr>)"

definition do_receive :: "bytes \<Rightarrow> udp_sys \<Rightarrow> udp_sys" where
  "do_receive dg st =
     (case client_on_datagram dg (u_cli st) of
        (c', evs, dgs) \<Rightarrow> st\<lparr>u_cli := c', to_srv := to_srv st \<union> set dgs, u_got := u_got st @ concat (map report_of evs)\<rparr>)"

definition do_lose :: "udp_sys \<Rightarrow> udp_sys" where
  "do_lose st = st\<lparr>to_srv := {}, to_cli := {}\<rparr>"

lemma do_steps:
  "udp_steps st0 st \<Longrightarrow> length (u_sent st) + 2 < 2 ^ 32 \<Longrightarrow> udp_steps st0 (do_send payload st)"
  "udp_steps st0 st \<Longrightarrow> udp_steps st0 (do_resend st)"
  "udp_steps st0 st \<Longrightarrow> dg \<in> to_srv st \<Longrightarrow> udp_steps st0 (do_serve dg st)"
  "udp_steps st0 st \<Longrightarrow> length (u_reports st) + 2 < 2 ^ 32 \<Longrightarrow> length payload < 2 ^ 16 \<Longrightarrow> q < 2 ^ 32 \<Longrightarrow> udp_steps st0 (do_report q payload st)"
  "udp_steps st0 st \<Longrightarrow> dg' \<in> to_cli st \<Longrightarrow> udp_steps st0 (do_receive dg' st)"
  "udp_steps st0 st \<Longrightarrow> udp_steps st0 (do_lose st)"
  unfolding do_send_def do_resend_def do_serve_def do_report_def do_receive_def do_lose_def
  by (auto split: prod.split intro: udp_more udp_step.intros u_send [simplified] u_report [simplified])

text \<open>Of two orders the first is lost; the second is answered with a retry and given up.\<close>

definition two_sent :: udp_sys where
  "two_sent = do_send [2] (do_send [1] (udp_init 4))"

definition second_refused :: udp_sys where
  "second_refused = do_receive (ack_frame 2 ACK_RETRY) (do_serve (udp_encode SESSION_MAGIC 2 ORDER [2]) two_sent)"

definition first_resent :: udp_sys where
  "first_resent = do_serve (udp_encode SESSION_MAGIC 1 ORDER [1]) (do_resend (do_lose second_refused))"

definition third_sent :: udp_sys where
  "third_sent = do_serve (udp_encode SESSION_MAGIC 3 ORDER [3]) (do_send [3] first_resent)"

lemma two_sent_is:
  "two_sent = udp_init 4\<lparr>u_cli := \<lparr>next_order_seq = 3, expected_report_seq = 1, upending = [(1, [1]), (2, [2])], upending_ts = [(1, 0), (2, 0)]\<rparr>,
     to_srv := {udp_encode SESSION_MAGIC 2 ORDER [2], udp_encode SESSION_MAGIC 1 ORDER [1]}, u_sent := [[1], [2]]\<rparr>"
  by (simp add: two_sent_def do_send_def send_order_def udp_init_def udp_client_new_def btm_insert_def u32_inc_mod numeral_2_eq_2 [symmetric] numeral_3_eq_3 [symmetric])

lemma second_refused_is:
  "u_cli second_refused = \<lparr>next_order_seq = 3, expected_report_seq = 1, upending = [(1, [1])], upending_ts = [(1, 0)]\<rparr>"
  "u_sent second_refused = [[1], [2]]" "u_taken second_refused = []" "expected_client_seq (u_srv second_refused) = 1"
  "ack_frame 2 ACK_RETRY \<in> to_cli (do_serve (udp_encode SESSION_MAGIC 2 ORDER [2]) two_sent)"
  by (simp_all add: second_refused_def do_serve_def do_receive_def two_sent_is udp_init_def udp_server_new_def server_on_datagram_def
    server_on_order_def client_on_datagram_def ack_frame_def frame_types btm_remove_def)

lemma first_resent_is:
  "udp_encode SESSION_MAGIC 1 ORDER [1] \<in> to_srv (do_resend (do_lose second_refused))"
  "to_srv first_resent = {udp_encode SESSION_MAGIC 1 ORDER [1]}" "upending (u_cli first_resent) = [(1, [1])]"
  "u_sent first_resent = [[1], [2]]" "u_taken first_resent = [[1]]" "next_order_seq (u_cli first_resent) = 3"
  by (simp_all add: first_resent_def do_resend_def do_lose_def do_serve_def retransmit_due_def second_refused_is btm_insert_def
    server_on_datagram_def server_on_order_def order_of_def)

lemma first_resent_steps: "udp_steps (udp_init 4) first_resent"
  unfolding first_resent_def second_refused_def
proof (intro do_steps udp_none)
  show "udp_steps (udp_init 4) two_sent" unfolding two_sent_def by (intro do_steps udp_none) (simp_all add: udp_init_def do_send_def send_order_def Let_def)
  show "udp_encode SESSION_MAGIC 2 ORDER [2] \<in> to_srv two_sent" by (simp add: two_sent_is)
  show "ack_frame 2 ACK_RETRY \<in> to_cli (do_serve (udp_encode SESSION_MAGIC 2 ORDER [2]) two_sent)" by (rule second_refused_is)
  show "udp_encode SESSION_MAGIC 1 ORDER [1] \<in> to_srv (do_resend (do_lose
      (do_receive (ack_frame 2 ACK_RETRY) (do_serve (udp_encode SESSION_MAGIC 2 ORDER [2]) two_sent))))"
    using first_resent_is(1) unfolding second_refused_def .
qed

lemma first_resent_stalled: "stalled first_resent"
  using udp_encode_inject [of "Suc (Suc 0)" "Suc 0" ORDER "[2]" ORDER "[1]"]
  by (auto simp: stalled_def Let_def first_resent_is order_frame_def)

lemma third_sent_steps: "udp_steps first_resent third_sent" "u_sent third_sent = [[1], [2], [3]]"
proof -
  have sent: "udp_encode SESSION_MAGIC 3 ORDER [3] \<in> to_srv (do_send [3] first_resent)"
    by (simp add: do_send_def send_order_def Let_def first_resent_is)
  show "udp_steps first_resent third_sent"
    unfolding third_sent_def by (intro do_steps udp_none sent) (simp add: first_resent_is)
  show "u_sent third_sent = [[1], [2], [3]]"
    by (simp add: third_sent_def do_serve_def do_send_def send_order_def Let_def first_resent_is split: prod.split)
qed

text \<open>The first of two reports is lost and comes with a retransmission.\<close>

definition two_reported :: udp_sys where
  "two_reported = do_receive (udp_encode SESSION_MAGIC 2 REPORT [8]) (do_report 1 [8] (do_report 1 [7] (udp_init 4)))"

definition both_got :: udp_sys where
  "both_got = do_receive (udp_encode SESSION_MAGIC 2 REPORT [8])
     (do_receive (response_frame [[7], [8]] 1 2) (do_serve (nak_frame 1 1) two_reported))"

lemma two_reported_is:
  "to_srv two_reported = {nak_frame 1 1}" "u_reports two_reported = [[7], [8]]" "u_sent two_reported = []" "u_taken two_reported = []"
  "expected_report_seq (u_cli two_reported) = 1" "u_srv two_reported = \<lparr>next_report_seq = 3, expected_client_seq = 1,
     ustore = [(1, [7]), (2, [8])], ustore_start = 1, ustore_cap = 4, last_nak_start = None\<rparr>"
  "udp_encode SESSION_MAGIC 2 REPORT [8] \<in> to_cli (do_report 1 [8] (do_report 1 [7] (udp_init 4)))"
  "udp_encode SESSION_MAGIC 2 REPORT [8] \<in> to_cli two_reported"
  by (simp_all add: two_reported_def do_report_def do_receive_def ack_and_report_def Let_def udp_init_def udp_server_new_def
    udp_client_new_def u32_inc_mod client_on_datagram_def client_on_report_def numeral_2_eq_2 [symmetric] numeral_3_eq_3 [symmetric])

lemma sample_response:
  "nak_response 1 1 (u_srv two_reported) = response_frame [[7], [8]] 1 2"
  "client_on_datagram (response_frame [[7], [8]] 1 2) (u_cli two_reported) =
     (u_cli two_reported\<lparr>expected_report_seq := 2\<rparr>, [CReport 1 [7]], [])"
proof -
  have r: "run_of [[7], [8]] 1 2 = [(1, [7])]" by (simp add: run_of_def numeral_2_eq_2)
  then show "nak_response 1 1 (u_srv two_reported) = response_frame [[7], [8]] 1 2"
    by (simp add: nak_response_def two_reported_is report_high_water_def response_frame_def Let_def)
  have "reports_ok [[7], [8]]" by (simp add: reports_ok_def)
  from blocks_run [OF this, of 1 2 1] have
    "client_on_blocks 1 (concat (map report_block (run_of [[7], [8]] 1 2))) 1 = (2, [CReport 1 [7]])" by (simp add: r [simplified] del: client_on_blocks.simps)
  then show "client_on_datagram (response_frame [[7], [8]] 1 2) (u_cli two_reported) =
     (u_cli two_reported\<lparr>expected_report_seq := 2\<rparr>, [CReport 1 [7]], [])"
    by (simp add: client_on_datagram_def response_frame_def frame_types u32_be_def be_val_4 two_reported_is del: client_on_blocks.simps)
qed

lemma both_got_steps: "udp_steps (udp_init 4) both_got"
proof -
  have "udp_steps (udp_init 4) two_reported"
    unfolding two_reported_def
    by (intro do_steps udp_none two_reported_is(7)) (simp_all add: udp_init_def do_report_def split: prod.split)
  moreover have "response_frame [[7], [8]] 1 2 \<in> to_cli (do_serve (nak_frame 1 1) two_reported)"
    using sample_response(1) by (simp add: do_serve_def server_on_datagram_def nak_frame_def frame_types u32_be_def be_val_4)
  moreover have "udp_encode SESSION_MAGIC 2 REPORT [8] \<in> to_cli (do_receive (response_frame [[7], [8]] 1 2) (do_serve (nak_frame 1 1) two_reported))"
    using two_reported_is(8) by (simp add: do_receive_def do_serve_def split: prod.split)
  ultimately show ?thesis unfolding both_got_def by (intro do_steps) (simp_all add: two_reported_is)
qed

lemma both_got_is: "ustore_start (u_srv both_got) = 1" "expected_report_seq (u_cli both_got) = 3" "u_reports both_got = [[7], [8]]"
proof -
  have serve: "u_cli (do_serve (nak_frame 1 1) two_reported) = u_cli two_reported" "u_reports (do_serve (nak_frame 1 1) two_reported) = [[7], [8]]"
    "u_srv (do_serve (nak_frame 1 1) two_reported) = u_srv two_reported"
    by (simp_all add: do_serve_def server_on_datagram_def nak_frame_def frame_types two_reported_is)
  then show "ustore_start (u_srv both_got) = 1" "expected_report_seq (u_cli both_got) = 3" "u_reports both_got = [[7], [8]]"
    using sample_response(2) by (simp_all add: both_got_def do_receive_def two_reported_is client_on_datagram_def [of "udp_encode _ _ _ _"]
      client_on_report_def u32_inc_mod split: prod.split)
qed

section \<open>Properties\<close>

text \<open>
  C8. Orders are processed at most once and in sequence: over a network that loses, duplicates
  and reorders datagrams, the orders the server has taken are the first ones the client
  sent, in the order sent, and the server waits for the next one.
\<close>
theorem udp_orders_at_most_once:
  assumes "udp_steps (udp_init cap) st"
  shows "u_taken st = take (length (u_taken st)) (u_sent st) \<and> expected_client_seq (u_srv st) = length (u_taken st) + 1"
  using udp_inv_steps [OF assms udp_inv_init] by (simp add: udp_inv_def srv_ok_def)

theorem udp_orders_at_most_once_witness:
  "udp_steps (udp_init 4) first_resent \<and> u_sent first_resent = [[1], [2]] \<and> u_taken first_resent = [[1]] \<and>
   expected_client_seq (u_srv first_resent) = 2"
  using udp_orders_at_most_once [OF first_resent_steps] first_resent_steps by (simp add: first_resent_is numeral_2_eq_2)

text \<open>
  C21. Reports are handed out under their numbers, in increasing order and never twice, each as
  the server published it; as long as the server has evicted nothing from its store there
  are no holes: the client has got all reports below the number it expects.  The client may
  request retransmission from any number up to the one it expects.
\<close>
theorem udp_reports_in_order:
  assumes "udp_steps (udp_init cap) st"
  shows "(\<forall>q p. (q, p) \<in> set (u_got st) \<longrightarrow> 1 \<le> q \<and> q \<le> length (u_reports st) \<and> p = u_reports st ! (q - 1)) \<and>
    sorted_wrt (<) (map fst (u_got st)) \<and>
    (ustore_start (u_srv st) = 1 \<longrightarrow>
      u_got st = zip [1..<expected_report_seq (u_cli st)] (take (expected_report_seq (u_cli st) - 1) (u_reports st)))"
proof -
  let ?e = "expected_report_seq (u_cli st)" and ?h = "u_reports st"
  have ok: "cli_ok (u_sent st) ?h (whole_store st) (u_got st) (u_cli st)"
    using udp_inv_steps [OF assms udp_inv_init] by (simp add: udp_inv_def)
  then have e: "?e \<le> length ?h + 1" by (simp add: cli_ok_def)
  have "run_of ?h 1 ?e = zip [1..<?e] (take (?e - 1) ?h)"
    using e by (intro nth_equalityI) (auto simp: run_of_def)
  moreover have "q \<le> length ?h" if "(q, p) \<in> set (u_got st)" for q p
  proof -
    have "q < ?e" using ok that by (simp add: cli_ok_def)
    then show ?thesis using e by simp
  qed
  ultimately show ?thesis using ok by (simp add: cli_ok_def)
qed

theorem udp_reports_in_order_witness:
  "udp_steps (udp_init 4) both_got \<and> u_reports both_got = [[7], [8]] \<and> u_got both_got = [(1, [7]), (2, [8])]"
  using udp_reports_in_order [OF both_got_steps] both_got_steps both_got_is by (simp add: numeral_3_eq_3)

text \<open>
  C40. A retry answer can stop the session for good: the client forgets an order the server
  refused for being ahead of a gap, so once the next order the server waits for is neither
  pending nor on its way, no later order is ever taken, whatever the two sides send.
\<close>
theorem udp_retry_stops_session:
  assumes "udp_steps (udp_init cap) st" and "stalled st" and "udp_steps st st'"
  shows "u_taken st' = u_taken st \<and> length (u_taken st') < length (u_sent st')"
  using stalled_steps [OF assms(3) udp_inv_steps [OF assms(1) udp_inv_init] assms(2)] by (auto simp: stalled_def Let_def)

theorem udp_retry_stops_session_witness:
  "udp_steps (udp_init 4) first_resent \<and> udp_steps first_resent third_sent \<and> stalled first_resent \<and>
   u_sent third_sent = [[1], [2], [3]] \<and> u_taken third_sent = [[1]]"
  using udp_retry_stops_session [OF first_resent_steps first_resent_stalled third_sent_steps(1)]
    first_resent_steps first_resent_stalled third_sent_steps by (simp add: first_resent_is)

end
