(* ===== verification/Rust_Str.thy ===== *)
theory Rust_Str
  imports Rust_Text
begin

text \<open>
  Rust strings as their UTF-8 bytes, for the fixed-width text fields of the wire protocols:
  \<open>String::from_utf8_lossy\<close>, \<open>str::trim\<close>, \<open>trim_end_matches\<close> and the decimal text of a
  \<open>u64\<close>.
\<close>

section \<open>Lossy decoding\<close>

definition byte_at :: "bytes \<Rightarrow> nat \<Rightarrow> nat" where
  "byte_at bs i = (if i < length bs then unat (bs ! i) else 0)"

definition cont_byte :: "nat \<Rightarrow> bool" where
  "cont_byte b \<longleftrightarrow> 0x80 \<le> b \<and> b \<le> 0xBF"

text \<open>The second byte of a three-byte and of a four-byte sequence.\<close>

definition second_of_3 :: "nat \<Rightarrow> nat \<Rightarrow> bool" where
  "second_of_3 b c \<longleftrightarrow> (if b = 0xE0 then 0xA0 \<le> c \<and> c \<le> 0xBF else if b = 0xED then 0x80 \<le> c \<and> c \<le> 0x9F else cont_byte c)"

definition second_of_4 :: "nat \<Rightarrow> nat \<Rightarrow> bool" where
  "second_of_4 b c \<longleftrightarrow> (if b = 0xF0 then 0x90 \<le> c \<and> c \<le> 0xBF else if b = 0xF4 then 0x80 \<le> c \<and> c \<le> 0x8F else cont_byte c)"

text \<open>How many bytes the next chunk takes, and whether they are one character.\<close>

definition utf8_step :: "bytes \<Rightarrow> nat \<times> bool" where
  "utf8_step bs =
     (let b = byte_at bs 0
      in if b < 0x80 then (1, True)
         else if 0xC2 \<le> b \<and> b \<le> 0xDF then (if cont_byte (byte_at bs 1) then (2, True) else (1, False))
         else if 0xE0 \<le> b \<and> b \<le> 0xEF then
           (if \<not> second_of_3 b (byte_at bs 1) then (1, False)
            else if \<not> cont_byte (byte_at bs 2) then (2, False) else (3, True))
         else if 0xF0 \<le> b \<and> b \<le> 0xF4 then
           (if \<not> second_of_4 b (byte_at bs 1) then (1, False)
            else if \<not> cont_byte (byte_at bs 2) then (2, False)
            else if \<not> cont_byte (byte_at bs 3) then (3, False) else (4, True))
         else (1, False))"

lemma utf8_step_pos [termination_simp, simp]: "0 < fst (utf8_step bs)"
  by (simp add: utf8_step_def Let_def)

text \<open>The characters, each as its bytes; what is not a character becomes U+FFFD.\<close>

function utf8_chars :: "bytes \<Rightarrow> bytes list" where
  "utf8_chars [] = []"
| "utf8_chars (b # bs) =
     (case utf8_step (b # bs) of
        (n, ok) \<Rightarrow> (if ok then take n (b # bs) else [0xEF, 0xBF, 0xBD]) # utf8_chars (drop n (b # bs)))"
  by pat_completeness auto
termination
proof (relation "measure length")
  fix b bs n ok
  assume "(n, ok) = utf8_step (b # bs)"
  then have "0 < n" using utf8_step_pos [of "b # bs"] by (metis fst_conv)
  then show "(drop n (b # bs), b # bs) \<in> measure length" by simp
qed simp

definition from_utf8_lossy :: "bytes \<Rightarrow> bytes" where
  "from_utf8_lossy bs = concat (utf8_chars bs)"

section \<open>Trimming\<close>

definition white_char :: "bytes \<Rightarrow> bool" where
  "white_char c \<longleftrightarrow>
     c \<in> {[9], [10], [11], [12], [13], [32], [0xC2, 0x85], [0xC2, 0xA0], [0xE1, 0x9A, 0x80], [0xE2, 0x80, 0xA8], [0xE2, 0x80, 0xA9],
           [0xE2, 0x80, 0xAF], [0xE2, 0x81, 0x9F], [0xE3, 0x80, 0x80]} \<or>
     (length c = 3 \<and> take 2 c = [0xE2, 0x80] \<and> 0x80 \<le> unat (c ! 2) \<and> unat (c ! 2) \<le> 0x8A)"

definition str_trim :: "bytes \<Rightarrow> bytes" where
  "str_trim s = concat (rev (dropWhile white_char (rev (dropWhile white_char (utf8_chars s)))))"

definition trim_end_spaces :: "bytes \<Rightarrow> bytes" where
  "trim_end_spaces s = rev (dropWhile (\<lambda>b. b = 32) (rev s))"

section \<open>Decimal text\<close>

definition u64_text :: "nat \<Rightarrow> bytes" where
  "u64_text n = map (\<lambda>c. of_nat (of_char c)) (show_nat (int n))"

definition parse_u64 :: "bytes \<Rightarrow> nat option" where
  "parse_u64 s =
     (let ds = (case s of [] \<Rightarrow> [] | b # bs \<Rightarrow> if b = 43 then bs else s)
      in if ds = [] then None
         else case parse_digits 0 (map (\<lambda>b. char_of (unat b)) ds) of
                None \<Rightarrow> None
              | Some v \<Rightarrow> if v < 2 ^ 64 then Some (nat v) else None)"

section \<open>ASCII text\<close>

definition ascii :: "bytes \<Rightarrow> bool" where
  "ascii s \<longleftrightarrow> list_all (\<lambda>b. unat b < 0x80) s"

lemma ascii_append [simp]: "ascii (a @ b) \<longleftrightarrow> ascii a \<and> ascii b"
  by (simp add: ascii_def)

lemma ascii_spaces [simp]: "ascii (replicate n 32)"
  by (simp add: ascii_def list_all_iff)

lemma utf8_chars_ascii: "ascii s \<Longrightarrow> utf8_chars s = map (\<lambda>b. [b]) s"
  by (induction s) (simp_all add: ascii_def utf8_step_def byte_at_def)

lemma lossy_ascii [simp]: "ascii s \<Longrightarrow> from_utf8_lossy s = s"
  by (simp add: from_utf8_lossy_def utf8_chars_ascii)

definition white_byte :: "u8 \<Rightarrow> bool" where
  "white_byte b \<longleftrightarrow> white_char [b]"

lemma white_byte_iff: "white_byte b \<longleftrightarrow> b \<in> {9, 10, 11, 12, 13, 32}"
  by (auto simp: white_byte_def white_char_def)

text \<open>Text without white space at either end.\<close>

definition tight :: "bytes \<Rightarrow> bool" where
  "tight s \<longleftrightarrow> s = [] \<or> (\<not> white_byte (hd s) \<and> \<not> white_byte (last s))"

lemma trim_ascii: "ascii s \<Longrightarrow> str_trim s = rev (dropWhile white_byte (rev (dropWhile white_byte s)))"
  by (simp add: str_trim_def utf8_chars_ascii dropWhile_map rev_map o_def white_byte_def [abs_def])

lemma trim_padded:
  assumes "ascii s" "tight s"
  shows "str_trim (replicate n 32 @ s @ replicate m 32) = s"
proof -
  have w: "white_byte 32" by (simp add: white_byte_iff)
  have drop: "dropWhile white_byte (replicate k 32 @ t) = dropWhile white_byte t" for k t
    using w by (induction k) simp_all
  have "str_trim (replicate n 32 @ s @ replicate m 32) =
      rev (dropWhile white_byte (rev (dropWhile white_byte (s @ replicate m 32))))"
    using assms(1) by (simp add: trim_ascii drop)
  also have "\<dots> = s"
  proof (cases s)
    case Nil
    then show ?thesis using drop [of m "[]"] by simp
  next
    case (Cons b bs)
    then have "dropWhile white_byte (s @ replicate m 32) = s @ replicate m 32" using assms(2) by (simp add: tight_def)
    moreover have "dropWhile white_byte (rev s) = rev s"
      using assms(2) Cons by (cases "rev s") (auto simp: tight_def hd_rev [symmetric])
    ultimately show ?thesis by (simp add: drop)
  qed
  finally show ?thesis .
qed

lemma trim_end_padded: "(s \<noteq> [] \<Longrightarrow> last s \<noteq> 32) \<Longrightarrow> trim_end_spaces (s @ replicate n 32) = s"
proof -
  assume last: "s \<noteq> [] \<Longrightarrow> last s \<noteq> 32"
  have "dropWhile (\<lambda>b. b = 32) (replicate n 32 @ rev s) = dropWhile (\<lambda>b. b = 32) (rev s)" by (induction n) simp_all
  moreover have "dropWhile (\<lambda>b. b = 32) (rev s) = rev s" using last by (cases "rev s") (auto simp: hd_rev [symmetric])
  ultimately show ?thesis by (simp add: trim_end_spaces_def)
qed

lemma digit_byte: "is_digit c \<Longrightarrow> 48 \<le> (of_char c :: nat) \<and> (of_char c :: nat) \<le> 57"
proof -
  assume "is_digit c"
  then have "48 \<le> (of_char c :: int)" "(of_char c :: int) \<le> 57" by (simp_all add: is_digit_def Let_def)
  then have "int 48 \<le> int (of_char c)" "int (of_char c) \<le> int 57" by (simp_all only: of_nat_of_char of_nat_numeral)
  then show ?thesis unfolding of_nat_le_iff by blast
qed

lemma unat_char_byte: "unat (of_nat (of_char c) :: u8) = of_char c"
  using nat_of_char_less_256 [of c] by (simp only: unat_of_nat) simp

lemma u64_text_bytes: "\<forall>b \<in> set (u64_text n). 48 \<le> unat b \<and> unat b \<le> 57" "u64_text n \<noteq> []"
proof -
  have d: "list_all is_digit (show_nat (int n))" "show_nat (int n) \<noteq> []" using show_nat_digits [of "int n"] by simp_all
  have "48 \<le> unat (of_nat (of_char c) :: u8) \<and> unat (of_nat (of_char c) :: u8) \<le> 57" if "is_digit c" for c
    using digit_byte [OF that] by (simp only: unat_char_byte)
  then show "\<forall>b \<in> set (u64_text n). 48 \<le> unat b \<and> unat b \<le> 57" using d(1) by (auto simp: u64_text_def list_all_iff)
  show "u64_text n \<noteq> []" using d(2) by (simp add: u64_text_def)
qed

lemma u64_text_chars: "map (\<lambda>b. char_of (unat b)) (u64_text n) = show_nat (int n)"
  by (simp add: u64_text_def o_def unat_char_byte)

lemma parse_u64_text: "n < 2 ^ 64 \<Longrightarrow> parse_u64 (u64_text n) = Some n"
proof -
  assume n: "n < 2 ^ 64"
  have d: "list_all is_digit (show_nat (int n))" "digits_num (show_nat (int n)) = int n" using show_nat_digits [of "int n"] by simp_all
  obtain b bs where b: "u64_text n = b # bs" using u64_text_bytes(2) [of n] by (cases "u64_text n") auto
  have "b \<noteq> 43" using u64_text_bytes(1) [of n] b by auto
  then have "parse_u64 (u64_text n) =
      (case parse_digits 0 (show_nat (int n)) of None \<Rightarrow> None | Some v \<Rightarrow> if v < 2 ^ 64 then Some (nat v) else None)"
    unfolding parse_u64_def b by (simp add: u64_text_chars [symmetric] b)
  then show ?thesis using parse_digits_all [OF d(1), of 0] d(2) n by simp
qed

lemma u64_text_length: "n < 2 ^ 64 \<Longrightarrow> length (u64_text n) \<le> 20"
proof -
  assume "n < 2 ^ 64"
  then have "int n < 10 ^ 20" by simp
  then show ?thesis using show_nat_length [of "int n" 20] by (simp add: u64_text_def)
qed

lemma u64_text_ascii: "ascii (u64_text n)"
  using u64_text_bytes(1) [of n] by (fastforce simp: ascii_def list_all_iff)

lemma u64_text_tight: "tight (u64_text n)"
proof -
  have "\<not> white_byte b" if "b \<in> set (u64_text n)" for b using u64_text_bytes(1) [of n] that by (auto simp: white_byte_iff)
  then show ?thesis using u64_text_bytes(2) [of n] by (simp add: tight_def)
qed

end
