(* ===== verification/Soup_Packet.thy ===== *)
theory Soup_Packet
  imports Rust_Str
begin

text \<open>
  The SoupBinTCP packets of \<open>crates/match-soupbintcp/src/packet.rs\<close>: framing, the stream
  parser and the login packets with their space-padded fields.
\<close>

section \<open>Packets\<close>

definition LOGIN_REQUEST :: u8 where "LOGIN_REQUEST = 76"
definition LOGIN_ACCEPTED :: u8 where "LOGIN_ACCEPTED = 65"
definition LOGIN_REJECTED :: u8 where "LOGIN_REJECTED = 74"
definition SEQUENCED_DATA :: u8 where "SEQUENCED_DATA = 83"
definition SERVER_HEARTBEAT :: u8 where "SERVER_HEARTBEAT = 72"
definition END_OF_SESSION :: u8 where "END_OF_SESSION = 90"
definition UNSEQUENCED_DATA :: u8 where "UNSEQUENCED_DATA = 85"
definition CLIENT_HEARTBEAT :: u8 where "CLIENT_HEARTBEAT = 82"
definition LOGOUT_REQUEST :: u8 where "LOGOUT_REQUEST = 79"
definition DEBUG :: u8 where "DEBUG = 43"
definition REJECT_NOT_AUTHORIZED :: u8 where "REJECT_NOT_AUTHORIZED = 65"
definition REJECT_SESSION_UNAVAILABLE :: u8 where "REJECT_SESSION_UNAVAILABLE = 83"

definition USERNAME_LEN :: nat where "USERNAME_LEN = 6"
definition PASSWORD_LEN :: nat where "PASSWORD_LEN = 10"
definition SESSION_LEN :: nat where "SESSION_LEN = 10"
definition SEQUENCE_LEN :: nat where "SEQUENCE_LEN = 20"

record soup_packet =
  pk_type :: u8
  pk_payload :: bytes

text \<open>The length is the payload length cut to 16 bits, plus one, saturating.\<close>

definition to_bytes :: "soup_packet \<Rightarrow> bytes" where
  "to_bytes p = be_bytes 2 (min (2 ^ 16 - 1) (1 + length (pk_payload p) mod 2 ^ 16)) @ [pk_type p] @ pk_payload p"

text \<open>The complete packets at the front of a buffer, and how many bytes they take.\<close>

function parse_stream_from :: "bytes \<Rightarrow> soup_packet list \<times> nat" where
  "parse_stream_from buf =
     (if length buf < 3 then ([], 0)
      else let len = be_val (take 2 buf)
           in if len < 1 \<or> length buf < 2 + len then ([], 0)
              else case parse_stream_from (drop (2 + len) buf) of
                     (ps, n) \<Rightarrow> (\<lparr>pk_type = buf ! 2, pk_payload = take (len - 1) (drop 3 buf)\<rparr> # ps, 2 + len + n))"
  by pat_completeness auto
termination by (relation "measure length") auto

declare parse_stream_from.simps [simp del]

definition parse_stream :: "bytes \<Rightarrow> soup_packet list \<times> nat \<times> bool" where
  "parse_stream buf = (case parse_stream_from buf of (ps, off) \<Rightarrow> (ps, off, off < length buf))"

section \<open>Fields\<close>

definition ascii_field :: "bytes \<Rightarrow> nat \<Rightarrow> nat \<Rightarrow> bytes" where
  "ascii_field p off len = (if off + len > length p then [] else str_trim (from_utf8_lossy (take len (drop off p))))"

definition pad_left :: "bytes \<Rightarrow> nat \<Rightarrow> bytes" where
  "pad_left s len = take len s @ replicate (len - length s) 32"

definition pad_right :: "bytes \<Rightarrow> nat \<Rightarrow> bytes" where
  "pad_right s len = replicate (len - length s) 32 @ take len s"

definition pad_number_right :: "nat \<Rightarrow> nat \<Rightarrow> bytes" where
  "pad_number_right n len = pad_right (u64_text n) len"

section \<open>Login\<close>

record login_req =
  username :: bytes
  password :: bytes
  requested_session :: bytes
  requested_sequence :: nat

record login_acc =
  acc_session :: bytes
  acc_sequence :: nat

definition parse_sequence :: "bytes \<Rightarrow> nat" where
  "parse_sequence s = (case parse_u64 (str_trim s) of Some n \<Rightarrow> n | None \<Rightarrow> 0)"

definition parse_login_request :: "soup_packet \<Rightarrow> login_req" where
  "parse_login_request p =
     \<lparr>username = ascii_field (pk_payload p) 0 USERNAME_LEN,
      password = ascii_field (pk_payload p) USERNAME_LEN PASSWORD_LEN,
      requested_session = ascii_field (pk_payload p) (USERNAME_LEN + PASSWORD_LEN) SESSION_LEN,
      requested_sequence = parse_sequence (ascii_field (pk_payload p) (USERNAME_LEN + PASSWORD_LEN + SESSION_LEN) SEQUENCE_LEN)\<rparr>"

definition parse_login_accepted :: "soup_packet \<Rightarrow> login_acc" where
  "parse_login_accepted p =
     \<lparr>acc_session = ascii_field (pk_payload p) 0 SESSION_LEN,
      acc_sequence = parse_sequence (ascii_field (pk_payload p) SESSION_LEN SEQUENCE_LEN)\<rparr>"

definition parse_login_rejected :: "soup_packet \<Rightarrow> u8" where
  "parse_login_rejected p = (case pk_payload p of [] \<Rightarrow> 0 | b # _ \<Rightarrow> b)"

definition login_request :: "bytes \<Rightarrow> bytes \<Rightarrow> bytes \<Rightarrow> nat \<Rightarrow> soup_packet" where
  "login_request user pass session seq =
     \<lparr>pk_type = LOGIN_REQUEST,
      pk_payload = pad_left user USERNAME_LEN @ pad_left pass PASSWORD_LEN @ pad_right session SESSION_LEN @ pad_number_right seq SEQUENCE_LEN\<rparr>"

definition login_accepted :: "bytes \<Rightarrow> nat \<Rightarrow> soup_packet" where
  "login_accepted session seq =
     \<lparr>pk_type = LOGIN_ACCEPTED, pk_payload = pad_right session SESSION_LEN @ pad_number_right seq SEQUENCE_LEN\<rparr>"

definition login_rejected :: "u8 \<Rightarrow> soup_packet" where
  "login_rejected reason = \<lparr>pk_type = LOGIN_REJECTED, pk_payload = [reason]\<rparr>"

definition heartbeat :: "u8 \<Rightarrow> soup_packet" where
  "heartbeat kind = \<lparr>pk_type = kind, pk_payload = []\<rparr>"

definition end_of_session :: soup_packet where
  "end_of_session = \<lparr>pk_type = END_OF_SESSION, pk_payload = []\<rparr>"

definition logout_request :: soup_packet where
  "logout_request = \<lparr>pk_type = LOGOUT_REQUEST, pk_payload = []\<rparr>"

section \<open>Framing\<close>

definition frame_ok :: "soup_packet \<Rightarrow> bool" where
  "frame_ok p \<longleftrightarrow> length (pk_payload p) < 2 ^ 16 - 1"

lemma parse_one:
  assumes "frame_ok p"
  shows "parse_stream_from (to_bytes p @ buf) =
    (case parse_stream_from buf of (ps, n) \<Rightarrow> (p # ps, length (to_bytes p) + n))"
proof -
  let ?n = "length (pk_payload p)"
  have n: "min (2 ^ 16 - 1) (1 + ?n mod 2 ^ 16) = ?n + 1" "?n + 1 < 2 ^ 16" using assms by (simp_all add: frame_ok_def)
  have b: "to_bytes p = be_bytes 2 (?n + 1) @ [pk_type p] @ pk_payload p" unfolding to_bytes_def n(1) ..
  have "be_val (take 2 (to_bytes p @ buf)) = ?n + 1" using be_val_2 [OF n(2)] unfolding b by simp
  then show ?thesis
    by (subst parse_stream_from.simps) (simp add: b nth_append split: prod.split)
qed

lemma parse_frames:
  assumes "list_all frame_ok ps"
  shows "parse_stream_from (concat (map to_bytes ps) @ buf) =
    (case parse_stream_from buf of (qs, n) \<Rightarrow> (ps @ qs, length (concat (map to_bytes ps)) + n))"
  using assms by (induction ps) (auto simp: parse_one split: prod.split)

lemma parse_short: "length buf < 3 \<Longrightarrow> parse_stream_from buf = ([], 0)"
  by (subst parse_stream_from.simps) simp

text \<open>The parse of a longer buffer goes on where the parse of its first part stopped.\<close>

lemma parse_resume:
  "parse_stream_from a = (ps, n) \<Longrightarrow>
   parse_stream_from (a @ b) = (case parse_stream_from (drop n a @ b) of (qs, m) \<Rightarrow> (ps @ qs, n + m)) \<and> n \<le> length a"
proof (induction a arbitrary: ps n rule: parse_stream_from.induct)
  case (1 a)
  let ?len = "be_val (take 2 a)"
  show ?case
  proof (cases "length a < 3 \<or> ?len < 1 \<or> length a < 2 + ?len")
    case True
    then have "ps = [] \<and> n = 0" using 1(2) by (subst (asm) parse_stream_from.simps) (auto simp: Let_def split: if_splits)
    then show ?thesis by (auto split: prod.split)
  next
    case False
    obtain qs m where q: "parse_stream_from (drop (2 + ?len) a) = (qs, m)" by (cases "parse_stream_from (drop (2 + ?len) a)")
    have ps: "ps = \<lparr>pk_type = a ! 2, pk_payload = take (?len - 1) (drop 3 a)\<rparr> # qs" "n = 2 + ?len + m"
      using False 1(2) q by (subst (asm) (2) parse_stream_from.simps, auto simp: Let_def)+
    have IH: "parse_stream_from (drop (2 + ?len) a @ b) =
        (case parse_stream_from (drop m (drop (2 + ?len) a) @ b) of (rs, k) \<Rightarrow> (qs @ rs, m + k))" "m \<le> length (drop (2 + ?len) a)"
      using 1(1) [OF _ refl _ q] False by auto
    have "take 2 (a @ b) = take 2 a" "(a @ b) ! 2 = a ! 2" "take (?len - 1) (drop 3 (a @ b)) = take (?len - 1) (drop 3 a)"
      using False by (auto simp: nth_append)
    moreover have "drop (2 + ?len) (a @ b) = drop (2 + ?len) a @ b" using False by simp
    ultimately have "parse_stream_from (a @ b) =
        (case parse_stream_from (drop (2 + ?len) a @ b) of (rs, k) \<Rightarrow> (\<lparr>pk_type = a ! 2, pk_payload = take (?len - 1) (drop 3 a)\<rparr> # rs, 2 + ?len + k))"
      using False by (subst parse_stream_from.simps) (simp add: Let_def)
    then show ?thesis using IH False unfolding ps by (auto simp: add.commute split: prod.split)
  qed
qed

section \<open>Padded fields\<close>

lemmas field_lens = USERNAME_LEN_def PASSWORD_LEN_def SESSION_LEN_def SEQUENCE_LEN_def

lemma length_pads [simp]: "length (pad_left s n) = n" "length (pad_right s n) = n" "length (pad_number_right k n) = n"
  by (simp_all add: pad_left_def pad_right_def pad_number_right_def)

lemma field_of_pad_right:
  assumes "ascii s" "tight s" "length s \<le> n"
  shows "str_trim (from_utf8_lossy (pad_right s n)) = s"
  using assms trim_padded [OF assms(1,2), of "n - length s" 0] by (simp add: pad_right_def)

lemma trim_tight: "ascii s \<Longrightarrow> tight s \<Longrightarrow> str_trim s = s"
  using trim_padded [of s 0 0] by simp

lemma sequence_of_pad: "n < 2 ^ 64 \<Longrightarrow> parse_sequence (str_trim (from_utf8_lossy (pad_number_right n SEQUENCE_LEN))) = n"
  using u64_text_length [of n] parse_u64_text [of n]
  by (simp add: pad_number_right_def field_of_pad_right parse_sequence_def trim_tight u64_text_ascii u64_text_tight SEQUENCE_LEN_def)

lemma login_request_fields:
  assumes "ascii session" "tight session" "length session \<le> 10" "seq < 2 ^ 64"
  shows "requested_session (parse_login_request (login_request user pass session seq)) = session"
    "requested_sequence (parse_login_request (login_request user pass session seq)) = seq"
  using field_of_pad_right [OF assms(1-3)] sequence_of_pad [OF assms(4)]
  by (simp_all add: parse_login_request_def login_request_def ascii_field_def field_lens)

lemma login_accepted_fields:
  assumes "ascii session" "tight session" "length session \<le> 10" "seq < 2 ^ 64"
  shows "parse_login_accepted (login_accepted session seq) = \<lparr>acc_session = session, acc_sequence = seq\<rparr>"
  using field_of_pad_right [OF assms(1-3)] sequence_of_pad [OF assms(4)]
  by (simp add: parse_login_accepted_def login_accepted_def ascii_field_def field_lens)

section \<open>Property\<close>

text \<open>
  C35. Framing is exact on any segmentation of the stream: packets whose payload fits the
  length field come back from their bytes, whatever follows; and parsing the first part of
  a stream and then the unread rest with what arrives later gives the packets of the whole
  stream.
\<close>
theorem soup_framing:
  assumes "list_all frame_ok ps"
  shows "parse_stream (concat (map to_bytes ps)) = (ps, length (concat (map to_bytes ps)), False) \<and>
    (\<forall>a b qs n more rs m more'. concat (map to_bytes ps) = a @ b \<and> parse_stream a = (qs, n, more) \<and>
       parse_stream (drop n a @ b) = (rs, m, more') \<longrightarrow> qs @ rs = ps \<and> n + m = length (concat (map to_bytes ps)))"
proof -
  have whole: "parse_stream_from (concat (map to_bytes ps)) = (ps, length (concat (map to_bytes ps)))"
    using parse_frames [OF assms, of "[]"] parse_short [of "[]"] by simp
  have "qs @ rs = ps \<and> n + m = length (concat (map to_bytes ps))"
    if "concat (map to_bytes ps) = a @ b" "parse_stream a = (qs, n, more)" "parse_stream (drop n a @ b) = (rs, m, more')" for a b qs n more rs m more'
  proof -
    have "parse_stream_from a = (qs, n)" "parse_stream_from (drop n a @ b) = (rs, m)" using that(2,3) by (auto simp: parse_stream_def split: prod.splits)
    then show ?thesis using parse_resume [of a qs n b] whole that(1) by simp
  qed
  then show ?thesis using whole by (auto simp: parse_stream_def)
qed

theorem soup_framing_witness:
  "parse_stream (to_bytes (login_rejected 83) @ to_bytes end_of_session) = ([login_rejected 83, end_of_session], 7, False)"
  using soup_framing [of "[login_rejected 83, end_of_session]"]
  by (simp add: frame_ok_def login_rejected_def end_of_session_def to_bytes_def)

end
