(* ===== verification/Soup_Session.thy ===== *)
theory Soup_Session
  imports Soup_Packet Numbered
begin

text \<open>
  The SoupBinTCP session machines of \<open>crates/match-soupbintcp/src/session.rs\<close>: the server
  with its message store and the login with replay, the client with its expected number;
  and that a login brings a client up to date.
\<close>

section \<open>Types\<close>

datatype session_error =
    NotLoggedIn
  | AlreadyLoggedIn
  | LoginRejected u8
  | SequenceGap nat nat
  | UnexpectedPacket u8
  | SessionTooLong

record actions =
  outbound :: "soup_packet list"
  close_conn :: bool
  heartbeat_deadline :: "nat option"

definition actions_default :: actions where
  "actions_default = \<lparr>outbound = [], close_conn = False, heartbeat_deadline = None\<rparr>"

section \<open>Server\<close>

record soup_server =
  sv_session :: bytes
  sv_next :: nat
  sv_store :: "(nat, bytes) btreemap"
  sv_capacity :: nat
  sv_logged_in :: bool

definition soup_server_new :: "bytes \<Rightarrow> nat \<Rightarrow> session_error + soup_server" where
  "soup_server_new session_id store_capacity =
     (if length session_id > SESSION_LEN then Inl SessionTooLong
      else Inr \<lparr>sv_session = session_id, sv_next = 1, sv_store = [], sv_capacity = store_capacity, sv_logged_in = False\<rparr>)"

definition enqueue :: "bytes \<Rightarrow> soup_server \<Rightarrow> soup_server \<times> nat" where
  "enqueue payload s =
     (let seq = sv_next s;
          kept = (if length (sv_store s) \<ge> sv_capacity s
                  then (case btm_first (sv_store s) of None \<Rightarrow> sv_store s | Some (oldest, _) \<Rightarrow> btm_remove oldest (sv_store s))
                  else sv_store s)
      in (s\<lparr>sv_next := u64_add (sv_next s) 1, sv_store := btm_insert seq payload kept\<rparr>, seq))"

definition sequenced_packet :: "bytes \<Rightarrow> soup_packet" where
  "sequenced_packet payload = \<lparr>pk_type = SEQUENCED_DATA, pk_payload = payload\<rparr>"

definition handle_login :: "login_req \<Rightarrow> soup_server \<Rightarrow> soup_server \<times> (session_error + actions)" where
  "handle_login req s =
     (if requested_session req \<noteq> [] \<and> requested_session req \<noteq> sv_session s then
        (s, Inr (actions_default\<lparr>outbound := [login_rejected REJECT_SESSION_UNAVAILABLE], close_conn := True\<rparr>))
      else
        let start0 = (if requested_sequence req = 0 \<or> requested_sequence req > sv_next s then sv_next s else requested_sequence req);
            store_start = (case btm_first (sv_store s) of None \<Rightarrow> sv_next s | Some (q, _) \<Rightarrow> q);
            start = max start0 store_start;
            replay = (if start < sv_next s
                      then map (\<lambda>e. \<lparr>pk_type = SEQUENCED_DATA, pk_payload = snd e\<rparr>) (filter (\<lambda>e. start \<le> fst e) (sv_store s))
                      else [])
        in (s\<lparr>sv_logged_in := True\<rparr>, Inr (actions_default\<lparr>outbound := login_accepted (sv_session s) start # replay\<rparr>)))"

definition server_handle_packet :: "soup_packet \<Rightarrow> soup_server \<Rightarrow> soup_server \<times> (session_error + actions)" where
  "server_handle_packet pkt s =
     (if pk_type pkt = LOGIN_REQUEST then handle_login (parse_login_request pkt) s
      else if pk_type pkt = UNSEQUENCED_DATA then (s, Inr actions_default)
      else if pk_type pkt = CLIENT_HEARTBEAT then (s, Inr actions_default)
      else if pk_type pkt = LOGOUT_REQUEST then (s, Inr (actions_default\<lparr>close_conn := True\<rparr>))
      else if pk_type pkt = DEBUG then (s, Inr actions_default)
      else (s, Inl (UnexpectedPacket (pk_type pkt))))"

section \<open>Client\<close>

record soup_client =
  cl_session :: bytes
  cl_expected :: nat
  cl_start :: nat
  cl_logged_in :: bool
  cl_last_rx :: nat

definition soup_client_new :: "bytes \<Rightarrow> soup_client" where
  "soup_client_new session_id =
     \<lparr>cl_session = session_id, cl_expected = 1, cl_start = 0, cl_logged_in = False, cl_last_rx = 0\<rparr>"

definition client_login_request :: "bytes \<Rightarrow> bytes \<Rightarrow> soup_client \<Rightarrow> soup_packet" where
  "client_login_request user pass c = login_request user pass (cl_session c) (cl_expected c)"

definition client_handle_packet :: "soup_packet \<Rightarrow> nat \<Rightarrow> soup_client \<Rightarrow> soup_client \<times> (session_error + actions)" where
  "client_handle_packet pkt now_ns c0 =
     (let c = c0\<lparr>cl_last_rx := now_ns\<rparr>
      in if pk_type pkt = LOGIN_ACCEPTED then
           (let acc = parse_login_accepted pkt
            in (c\<lparr>cl_start := acc_sequence acc, cl_expected := acc_sequence acc, cl_logged_in := True\<rparr>, Inr actions_default))
         else if pk_type pkt = LOGIN_REJECTED then (c, Inl (LoginRejected (parse_login_rejected pkt)))
         else if pk_type pkt = SEQUENCED_DATA then
           if \<not> cl_logged_in c then (c, Inl NotLoggedIn)
           else if pk_payload pkt = [] then (c\<lparr>cl_logged_in := False\<rparr>, Inr actions_default)
           else (c\<lparr>cl_expected := u64_add (cl_expected c) 1\<rparr>, Inr actions_default)
         else if pk_type pkt = SERVER_HEARTBEAT then (c, Inr actions_default)
         else if pk_type pkt = END_OF_SESSION then (c\<lparr>cl_logged_in := False\<rparr>, Inr (actions_default\<lparr>close_conn := True\<rparr>))
         else if pk_type pkt = DEBUG then (c, Inr actions_default)
         else (c, Inl (UnexpectedPacket (pk_type pkt))))"

section \<open>Runs\<close>

text \<open>The client reads packets up to an error; the messages come from the data packets it counted.\<close>

fun client_feed :: "soup_packet list \<Rightarrow> nat \<Rightarrow> soup_client \<Rightarrow> soup_client \<times> bytes list \<times> session_error option" where
  "client_feed [] now c = (c, [], None)"
| "client_feed (pkt # pkts) now c =
     (case client_handle_packet pkt now c of
        (c', Inl err) \<Rightarrow> (c', [], Some err)
      | (c', Inr a) \<Rightarrow>
          (case client_feed pkts now c' of
             (c'', msgs, err) \<Rightarrow> (c'', (if pk_type pkt = SEQUENCED_DATA \<and> pk_payload pkt \<noteq> [] then pk_payload pkt # msgs else msgs), err)))"

text \<open>A server that has sent the messages \<open>h\<close>.\<close>

definition server_after :: "bytes \<Rightarrow> nat \<Rightarrow> bytes list \<Rightarrow> soup_server" where
  "server_after session_id cap h =
     fold (\<lambda>p s. fst (enqueue p s)) h
       \<lparr>sv_session = session_id, sv_next = 1, sv_store = [], sv_capacity = cap, sv_logged_in = False\<rparr>"

definition oldest_kept :: "nat \<Rightarrow> bytes list \<Rightarrow> nat" where
  "oldest_kept cap h = max 1 (length h + 1 - max cap 1)"

lemmas soup_types = LOGIN_REQUEST_def LOGIN_ACCEPTED_def LOGIN_REJECTED_def SEQUENCED_DATA_def SERVER_HEARTBEAT_def END_OF_SESSION_def
  UNSEQUENCED_DATA_def CLIENT_HEARTBEAT_def LOGOUT_REQUEST_def DEBUG_def

lemma enqueue_run:
  assumes "sv_next s = length h + 1" "length h + 2 < 2 ^ 64" "sv_capacity s = cap" "sv_store s = run_of h (oldest_kept cap h) (length h + 1)"
  shows "fst (enqueue p s) = s\<lparr>sv_next := length h + 2, sv_store := run_of (h @ [p]) (oldest_kept cap (h @ [p])) (length h + 2)\<rparr>"
proof -
  let ?lo = "oldest_kept cap h" and ?lo' = "oldest_kept cap (h @ [p])"
  have n: "u64_add (length h + 1) 1 = length h + 2" using assms(2) by (simp add: u64_add_exact)
  have lo: "1 \<le> ?lo" "?lo \<le> length h + 1" "1 \<le> ?lo'" "?lo' \<le> length h + 1" by (auto simp: oldest_kept_def)
  have len: "length (run_of h ?lo (length h + 1)) = min (length h) (max cap 1)"
    by (auto simp: run_of_def oldest_kept_def simp del: upt_Suc)
  have kept: "(if length (run_of h ?lo (length h + 1)) \<ge> cap
      then (case btm_first (run_of h ?lo (length h + 1)) of None \<Rightarrow> run_of h ?lo (length h + 1)
            | Some (oldest, _) \<Rightarrow> btm_remove oldest (run_of h ?lo (length h + 1)))
      else run_of h ?lo (length h + 1)) = run_of h ?lo' (length h + 1)"
  proof (cases "max cap 1 \<le> length h")
    case True
    have "run_of h ?lo (length h + 1) = (?lo, h ! (?lo - 1)) # run_of h (?lo + 1) (length h + 1)"
      using True lo by (intro run_of_Cons) (auto simp: oldest_kept_def)
    moreover have "filter (\<lambda>e. fst e \<noteq> ?lo) (run_of h (?lo + 1) (length h + 1)) = run_of h (?lo + 1) (length h + 1)"
      by (auto simp: filter_id_conv run_of_def)
    moreover have "?lo' = ?lo + 1" using True by (auto simp: oldest_kept_def)
    ultimately show ?thesis using True len by (auto simp: btm_first_def btm_remove_def)
  next
    case False
    then have "?lo' = ?lo" by (auto simp: oldest_kept_def)
    moreover have "run_of h ?lo (length h + 1) = []" if "h = []" using that lo(1) by simp
    ultimately show ?thesis using False len by (cases "h = []") (auto simp: btm_first_def Suc_le_eq)
  qed
  have "\<forall>e \<in> set (run_of h ?lo' (length h + 1)). fst e < length h + 1" by (auto simp: run_of_def)
  then have "btm_insert (length h + 1) p (run_of h ?lo' (length h + 1)) = run_of h ?lo' (length h + 1) @ [(length h + 1, p)]"
    unfolding btm_insert_def by (rule ins_by_last)
  also have "\<dots> = run_of (h @ [p]) ?lo' (length h + 2)"
    using run_of_snoc [of ?lo' "length h + 1" "h @ [p]"] lo by (simp add: run_of_append)
  finally have ins: "btm_insert (length h + 1) p (run_of h ?lo' (length h + 1)) = run_of (h @ [p]) ?lo' (length h + 2)" .
  show ?thesis unfolding enqueue_def Let_def fst_conv assms(1,3,4) n kept ins ..
qed

lemma server_after_is:
  "length h + 1 < 2 ^ 64 \<Longrightarrow> server_after session_id cap h =
   \<lparr>sv_session = session_id, sv_next = length h + 1, sv_store = run_of h (oldest_kept cap h) (length h + 1), sv_capacity = cap, sv_logged_in = False\<rparr>"
proof (induction h rule: rev_induct)
  case (snoc p h)
  then have "server_after session_id cap h =
      \<lparr>sv_session = session_id, sv_next = length h + 1, sv_store = run_of h (oldest_kept cap h) (length h + 1), sv_capacity = cap, sv_logged_in = False\<rparr>"
    by simp
  then show ?case using enqueue_run [of "server_after session_id cap h" h cap p] snoc.prems by (simp add: server_after_def)
qed (simp add: server_after_def oldest_kept_def)

section \<open>Login with replay\<close>

lemma sequenced_fields [simp]: "pk_type (sequenced_packet m) = SEQUENCED_DATA" "pk_payload (sequenced_packet m) = m"
  by (simp_all add: sequenced_packet_def)

lemma feed_data:
  assumes "list_all (\<lambda>m. m \<noteq> []) msgs" "cl_logged_in c" "cl_expected c + length msgs < 2 ^ 64"
  shows "\<exists>c'. client_feed (map sequenced_packet msgs) now c = (c', msgs, None) \<and> cl_expected c' = cl_expected c + length msgs \<and> cl_logged_in c'"
  using assms
proof (induction msgs arbitrary: c)
  case (Cons m msgs)
  let ?c = "c\<lparr>cl_last_rx := now, cl_expected := cl_expected c + 1\<rparr>"
  have "client_handle_packet (sequenced_packet m) now c = (?c, Inr actions_default)"
    using Cons.prems by (simp add: client_handle_packet_def sequenced_packet_def soup_types Let_def u64_add_exact)
  moreover obtain c' where "client_feed (map sequenced_packet msgs) now ?c = (c', msgs, None)" "cl_expected c' = cl_expected ?c + length msgs" "cl_logged_in c'"
    using Cons.IH [of ?c] Cons.prems by auto
  ultimately show ?case using Cons.prems(1) by simp
qed simp

lemma login_start:
  assumes "length h + 1 < 2 ^ 64" "requested_session req = [] \<or> requested_session req = session_id"
    and start: "start = max (if requested_sequence req = 0 \<or> requested_sequence req > length h + 1 then length h + 1 else requested_sequence req) (oldest_kept cap h)"
  shows "handle_login req (server_after session_id cap h) =
    (server_after session_id cap h\<lparr>sv_logged_in := True\<rparr>,
     Inr (actions_default\<lparr>outbound := login_accepted session_id start # map sequenced_packet (drop (start - 1) h)\<rparr>))"
proof -
  let ?lo = "oldest_kept cap h" and ?n = "length h + 1"
  have lo: "1 \<le> ?lo" "?lo \<le> ?n" by (auto simp: oldest_kept_def)
  have first: "(case btm_first (run_of h ?lo ?n) of None \<Rightarrow> ?n | Some (q, _) \<Rightarrow> q) = ?lo"
  proof (cases "?lo < ?n")
    case True
    then show ?thesis by (simp only: run_of_Cons btm_first_def) simp
  next
    case False
    then show ?thesis using lo by (simp add: btm_first_def)
  qed
  have st: "?lo \<le> start" "1 \<le> start" "start \<le> ?n" using start lo by auto
  have "filter (\<lambda>e. start \<le> fst e) (run_of h ?lo ?n) = filter (\<lambda>e. start \<le> fst e \<and> fst e < ?n) (run_of h ?lo ?n)"
    by (rule filter_cong) (auto simp: run_of_def)
  then have "filter (\<lambda>e. start \<le> fst e) (run_of h ?lo ?n) = run_of h start ?n" using run_of_filter [OF st(1) order_refl] by simp
  then have replay: "map (\<lambda>e. \<lparr>pk_type = SEQUENCED_DATA, pk_payload = snd e\<rparr>) (filter (\<lambda>e. start \<le> fst e) (run_of h ?lo ?n)) =
      map sequenced_packet (drop (start - 1) h)"
    unfolding run_of_drop [OF st(2), symmetric] by (simp add: sequenced_packet_def [abs_def] o_def)
  have s: "sv_next (server_after session_id cap h) = ?n" "sv_store (server_after session_id cap h) = run_of h ?lo ?n"
    "sv_session (server_after session_id cap h) = session_id"
    by (simp_all add: server_after_is [OF assms(1)])
  have "start = ?n \<or> start < ?n" using st(3) by linarith
  then show ?thesis
    using assms(2) unfolding handle_login_def Let_def s first start [symmetric] replay by auto
qed

section \<open>Property\<close>

text \<open>
  C19. A login brings the client up to date: over the wire, the server accepts the login of a
  client of its session, and when the client has read the answer it expects the next number
  the server will assign and has got, in order, exactly the messages from its requested
  number on, or from the oldest one the store still holds.  A request for 0, or beyond the
  next number, is one for new messages only.  The session identifier is at most 10 ASCII
  characters without surrounding blanks, every message is non-empty and shorter than 65535
  bytes, and the numbers stay below \<open>2 ^ 64\<close>.
\<close>
theorem soup_login_replays:
  assumes "ascii sid" and "tight sid" and "length sid \<le> 10" and "cl_session c = sid" and "cl_expected c < 2 ^ 64"
    and "length h + 1 < 2 ^ 64" and "list_all (\<lambda>m. m \<noteq> [] \<and> length m < 2 ^ 16 - 1) h"
    and "start = max (if cl_expected c = 0 \<or> cl_expected c > length h + 1 then length h + 1 else cl_expected c) (oldest_kept cap h)"
  shows "\<exists>pkt s' a c'. parse_stream (to_bytes (client_login_request user pass c)) = ([pkt], 49, False) \<and>
    server_handle_packet pkt (server_after sid cap h) = (s', Inr a) \<and> \<not> close_conn a \<and>
    client_feed (fst (parse_stream (concat (map to_bytes (outbound a))))) now c = (c', drop (start - 1) h, None) \<and>
    cl_expected c' = sv_next s' \<and> cl_logged_in c'"
proof -
  let ?pkt = "client_login_request user pass c" and ?s = "server_after sid cap h"
  let ?out = "login_accepted sid start # map sequenced_packet (drop (start - 1) h)"
  have len: "length (pk_payload ?pkt) = 46" by (simp add: client_login_request_def login_request_def field_lens)
  then have "frame_ok ?pkt" by (simp add: frame_ok_def)
  from parse_frames [of "[?pkt]" "[]"] this have wire: "parse_stream (to_bytes ?pkt) = ([?pkt], 49, False)"
    using len by (simp add: parse_short parse_stream_def to_bytes_def)
  have st: "1 \<le> start" "start \<le> length h + 1" "start < 2 ^ 64" using assms(6,8) by (auto simp: oldest_kept_def)
  have "server_handle_packet ?pkt ?s = (?s\<lparr>sv_logged_in := True\<rparr>, Inr (actions_default\<lparr>outbound := ?out\<rparr>))"
    using login_start [OF assms(6), of "parse_login_request ?pkt" sid start cap] login_request_fields [OF assms(1-3,5), of user pass] assms(4,8)
    by (simp add: server_handle_packet_def client_login_request_def login_request_def)
  moreover have "fst (parse_stream (concat (map to_bytes ?out))) = ?out"
  proof -
    have "list_all frame_ok ?out"
      using assms(7) by (auto simp: frame_ok_def login_accepted_def field_lens list_all_iff dest: in_set_dropD)
    then show ?thesis using parse_frames [of ?out "[]"] by (simp add: parse_short parse_stream_def)
  qed
  moreover obtain c' where "client_feed ?out now c = (c', drop (start - 1) h, None)" "cl_expected c' = length h + 1" "cl_logged_in c'"
  proof -
    let ?c = "c\<lparr>cl_last_rx := now, cl_start := start, cl_expected := start, cl_logged_in := True\<rparr>"
    have "list_all (\<lambda>m. m \<noteq> []) (drop (start - 1) h)" using assms(7) by (auto simp: list_all_iff dest: in_set_dropD)
    then obtain c' where c': "client_feed (map sequenced_packet (drop (start - 1) h)) now ?c = (c', drop (start - 1) h, None)"
      "cl_expected c' = start + (length h - (start - 1))" "cl_logged_in c'"
      using feed_data [of "drop (start - 1) h" ?c now] st assms(6) by auto
    have "client_handle_packet (login_accepted sid start) now c = (?c, Inr actions_default)"
      using login_accepted_fields [OF assms(1-3) st(3)] by (simp add: client_handle_packet_def login_accepted_def [of sid start] Let_def)
    then show thesis using c' st that by (simp add: login_accepted_def soup_types)
  qed
  ultimately show ?thesis using wire by (auto simp: server_after_is [OF assms(6)] actions_default_def)
qed

theorem soup_login_replays_witness:
  "\<exists>pkt s' a c'. parse_stream (to_bytes (client_login_request [117] [112] ((soup_client_new [83])\<lparr>cl_expected := 1\<rparr>))) = ([pkt], 49, False) \<and>
    server_handle_packet pkt (server_after [83] 2 [[1], [2], [3]]) = (s', Inr a) \<and> \<not> close_conn a \<and>
    client_feed (fst (parse_stream (concat (map to_bytes (outbound a))))) 9 ((soup_client_new [83])\<lparr>cl_expected := 1\<rparr>) = (c', [[2], [3]], None) \<and>
    cl_expected c' = sv_next s' \<and> cl_logged_in c'"
  using soup_login_replays [of "[83]" "(soup_client_new [83])\<lparr>cl_expected := 1\<rparr>" "[[1], [2], [3]]" 2 2 "[117]" "[112]" 9]
  by (simp add: soup_client_new_def ascii_def tight_def white_byte_iff oldest_kept_def)

end
