(* ===== verification/Ouch.thy ===== *)
theory Ouch
  imports Rust_Str
begin

text \<open>
  The OUCH 4.2 messages of \<open>crates/match-soupbintcp/src/ouch.rs\<close>: the six fixed-length
  encoders and the parser, and that they are inverse.  An \<open>i32\<close> is an \<open>int\<close> in its range.
\<close>

section \<open>Messages\<close>

record enter_order =
  eo_token :: bytes
  eo_side :: u8
  eo_shares :: nat
  eo_stock :: bytes
  eo_price :: int
  eo_tif :: nat
  eo_firm :: bytes
  eo_display :: u8
  eo_capacity :: u8
  eo_sweep :: u8
  eo_min_qty :: nat
  eo_cross :: u8
  eo_customer :: u8

record cancel_order =
  co_token :: bytes
  co_shares :: nat

record replace_order =
  ro_existing :: bytes
  ro_replacement :: bytes
  ro_shares :: nat
  ro_price :: int
  ro_tif :: nat
  ro_display :: u8
  ro_sweep :: u8
  ro_min_qty :: nat
  ro_cross :: u8
  ro_customer :: u8

record accepted =
  ac_timestamp :: nat
  ac_token :: bytes
  ac_side :: u8
  ac_shares :: nat
  ac_stock :: bytes
  ac_price :: int
  ac_tif :: nat
  ac_firm :: bytes
  ac_display :: u8
  ac_ref :: nat
  ac_state :: u8

record executed =
  ex_timestamp :: nat
  ex_token :: bytes
  ex_shares :: nat
  ex_match :: nat
  ex_price :: int

record canceled =
  ca_timestamp :: nat
  ca_token :: bytes
  ca_decrement :: nat
  ca_reason :: u8

datatype ouch_message =
    EnterOrder enter_order
  | CancelOrder cancel_order
  | ReplaceOrder replace_order
  | Accepted accepted
  | Executed executed
  | Canceled canceled

definition ENTER_LEN :: nat where "ENTER_LEN = 49"
definition CANCEL_LEN :: nat where "CANCEL_LEN = 19"
definition REPLACE_LEN :: nat where "REPLACE_LEN = 49"
definition ACCEPTED_LEN :: nat where "ACCEPTED_LEN = 66"
definition EXECUTED_LEN :: nat where "EXECUTED_LEN = 35"
definition CANCELED_LEN :: nat where "CANCELED_LEN = 28"

section \<open>Encoding\<close>

definition pad_alpha :: "bytes \<Rightarrow> nat \<Rightarrow> bytes" where
  "pad_alpha s len = take len s @ replicate (len - length s) 32"

definition push_u32 :: "nat \<Rightarrow> bytes" where
  "push_u32 v = be_bytes 4 v"

definition push_i32 :: "int \<Rightarrow> bytes" where
  "push_i32 v = be_bytes 4 (nat (v mod 2 ^ 32))"

definition push_u64 :: "nat \<Rightarrow> bytes" where
  "push_u64 v = be_bytes 8 v"

definition encode_enter :: "enter_order \<Rightarrow> bytes" where
  "encode_enter m =
     [79] @ pad_alpha (eo_token m) 14 @ [eo_side m] @ push_u32 (eo_shares m) @ pad_alpha (eo_stock m) 8 @ push_i32 (eo_price m) @
     push_u32 (eo_tif m) @ pad_alpha (eo_firm m) 4 @ [eo_display m] @ [eo_capacity m] @ [eo_sweep m] @ push_u32 (eo_min_qty m) @
     [eo_cross m] @ [eo_customer m]"

definition encode_cancel :: "cancel_order \<Rightarrow> bytes" where
  "encode_cancel m = [88] @ pad_alpha (co_token m) 14 @ push_u32 (co_shares m)"

definition encode_replace :: "replace_order \<Rightarrow> bytes" where
  "encode_replace m =
     [85] @ pad_alpha (ro_existing m) 14 @ pad_alpha (ro_replacement m) 14 @ push_u32 (ro_shares m) @ push_i32 (ro_price m) @
     push_u32 (ro_tif m) @ [ro_display m] @ [ro_sweep m] @ push_u32 (ro_min_qty m) @ [ro_cross m] @ [ro_customer m]"

text \<open>Capacity \<open>O\<close>, sweep \<open>N\<close> and cross type \<open>N\<close> are placeholders.\<close>

definition encode_accepted :: "accepted \<Rightarrow> bytes" where
  "encode_accepted m =
     [65] @ push_u64 (ac_timestamp m) @ pad_alpha (ac_token m) 14 @ [ac_side m] @ push_u32 (ac_shares m) @ pad_alpha (ac_stock m) 8 @
     push_i32 (ac_price m) @ push_u32 (ac_tif m) @ pad_alpha (ac_firm m) 4 @ [ac_display m] @ push_u64 (ac_ref m) @
     [79] @ [78] @ push_u32 0 @ [78] @ [ac_state m] @ [0]"

definition encode_executed :: "executed \<Rightarrow> bytes" where
  "encode_executed m =
     [69] @ push_u64 (ex_timestamp m) @ pad_alpha (ex_token m) 14 @ push_u32 (ex_shares m) @ push_u32 (ex_match m) @ push_i32 (ex_price m)"

definition encode_canceled :: "canceled \<Rightarrow> bytes" where
  "encode_canceled m =
     [67] @ push_u64 (ca_timestamp m) @ pad_alpha (ca_token m) 14 @ push_u32 (ca_decrement m) @ [ca_reason m]"

section \<open>Decoding\<close>

definition get_str :: "bytes \<Rightarrow> nat \<Rightarrow> nat \<Rightarrow> bytes" where
  "get_str b off len = (if off + len > length b then [] else trim_end_spaces (from_utf8_lossy (take len (drop off b))))"

definition get_u32 :: "bytes \<Rightarrow> nat \<Rightarrow> nat" where
  "get_u32 b off = (if off + 4 > length b then 0 else be_val (take 4 (drop off b)))"

definition i32_of :: "nat \<Rightarrow> int" where
  "i32_of v = (if v < 2 ^ 31 then int v else int v - 2 ^ 32)"

definition get_i32 :: "bytes \<Rightarrow> nat \<Rightarrow> int" where
  "get_i32 b off = (if off + 4 > length b then 0 else i32_of (be_val (take 4 (drop off b))))"

definition get_u64 :: "bytes \<Rightarrow> nat \<Rightarrow> nat" where
  "get_u64 b off = (if off + 8 > length b then 0 else be_val (take 8 (drop off b)))"

definition parse_enter :: "bytes \<Rightarrow> enter_order" where
  "parse_enter buf =
     \<lparr>eo_token = get_str buf 1 14, eo_side = buf ! 15, eo_shares = get_u32 buf 16, eo_stock = get_str buf 20 8, eo_price = get_i32 buf 28,
      eo_tif = get_u32 buf 32, eo_firm = get_str buf 36 4, eo_display = buf ! 40, eo_capacity = buf ! 41, eo_sweep = buf ! 42,
      eo_min_qty = get_u32 buf 43, eo_cross = buf ! 47, eo_customer = buf ! 48\<rparr>"

definition parse_cancel :: "bytes \<Rightarrow> cancel_order" where
  "parse_cancel buf = \<lparr>co_token = get_str buf 1 14, co_shares = get_u32 buf 15\<rparr>"

definition parse_replace :: "bytes \<Rightarrow> replace_order" where
  "parse_replace buf =
     \<lparr>ro_existing = get_str buf 1 14, ro_replacement = get_str buf 15 14, ro_shares = get_u32 buf 29, ro_price = get_i32 buf 33,
      ro_tif = get_u32 buf 37, ro_display = buf ! 41, ro_sweep = buf ! 42, ro_min_qty = get_u32 buf 43, ro_cross = buf ! 47,
      ro_customer = buf ! 48\<rparr>"

definition parse_accepted :: "bytes \<Rightarrow> accepted" where
  "parse_accepted buf =
     \<lparr>ac_timestamp = get_u64 buf 1, ac_token = get_str buf 9 14, ac_side = buf ! 23, ac_shares = get_u32 buf 24, ac_stock = get_str buf 28 8,
      ac_price = get_i32 buf 36, ac_tif = get_u32 buf 40, ac_firm = get_str buf 44 4, ac_display = buf ! 48, ac_ref = get_u64 buf 49,
      ac_state = buf ! 64\<rparr>"

definition parse_executed :: "bytes \<Rightarrow> executed" where
  "parse_executed buf =
     \<lparr>ex_timestamp = get_u64 buf 1, ex_token = get_str buf 9 14, ex_shares = get_u32 buf 23, ex_match = get_u32 buf 27, ex_price = get_i32 buf 31\<rparr>"

definition parse_canceled :: "bytes \<Rightarrow> canceled" where
  "parse_canceled buf =
     \<lparr>ca_timestamp = get_u64 buf 1, ca_token = get_str buf 9 14, ca_decrement = get_u32 buf 23, ca_reason = buf ! 27\<rparr>"

definition ouch_parse :: "bytes \<Rightarrow> ouch_message option" where
  "ouch_parse buf =
     (case buf of
        [] \<Rightarrow> None
      | t # _ \<Rightarrow>
          if t = 79 \<and> length buf \<ge> ENTER_LEN then Some (EnterOrder (parse_enter buf))
          else if t = 88 \<and> length buf \<ge> CANCEL_LEN then Some (CancelOrder (parse_cancel buf))
          else if t = 85 \<and> length buf \<ge> REPLACE_LEN then Some (ReplaceOrder (parse_replace buf))
          else if t = 65 \<and> length buf \<ge> ACCEPTED_LEN then Some (Accepted (parse_accepted buf))
          else if t = 69 \<and> length buf \<ge> EXECUTED_LEN then Some (Executed (parse_executed buf))
          else if t = 67 \<and> length buf \<ge> CANCELED_LEN then Some (Canceled (parse_canceled buf))
          else None)"

definition ouch_encode :: "ouch_message \<Rightarrow> bytes" where
  "ouch_encode msg =
     (case msg of
        EnterOrder m \<Rightarrow> encode_enter m
      | CancelOrder m \<Rightarrow> encode_cancel m
      | ReplaceOrder m \<Rightarrow> encode_replace m
      | Accepted m \<Rightarrow> encode_accepted m
      | Executed m \<Rightarrow> encode_executed m
      | Canceled m \<Rightarrow> encode_canceled m)"

section \<open>Round trip\<close>

text \<open>A text field that fits: ASCII, not too long, no space at its end.\<close>

definition alpha_ok :: "nat \<Rightarrow> bytes \<Rightarrow> bool" where
  "alpha_ok n s \<longleftrightarrow> ascii s \<and> length s \<le> n \<and> (s = [] \<or> last s \<noteq> 32)"

definition u32_ok :: "nat \<Rightarrow> bool" where "u32_ok v \<longleftrightarrow> v < 2 ^ 32"
definition u64_ok :: "nat \<Rightarrow> bool" where "u64_ok v \<longleftrightarrow> v < 2 ^ 64"
definition i32_ok :: "int \<Rightarrow> bool" where "i32_ok v \<longleftrightarrow> - (2 ^ 31) \<le> v \<and> v < 2 ^ 31"

fun ouch_ok :: "ouch_message \<Rightarrow> bool" where
  "ouch_ok (EnterOrder m) \<longleftrightarrow> alpha_ok 14 (eo_token m) \<and> alpha_ok 8 (eo_stock m) \<and> alpha_ok 4 (eo_firm m) \<and> u32_ok (eo_shares m) \<and>
     i32_ok (eo_price m) \<and> u32_ok (eo_tif m) \<and> u32_ok (eo_min_qty m)"
| "ouch_ok (CancelOrder m) \<longleftrightarrow> alpha_ok 14 (co_token m) \<and> u32_ok (co_shares m)"
| "ouch_ok (ReplaceOrder m) \<longleftrightarrow> alpha_ok 14 (ro_existing m) \<and> alpha_ok 14 (ro_replacement m) \<and> u32_ok (ro_shares m) \<and>
     i32_ok (ro_price m) \<and> u32_ok (ro_tif m) \<and> u32_ok (ro_min_qty m)"
| "ouch_ok (Accepted m) \<longleftrightarrow> u64_ok (ac_timestamp m) \<and> alpha_ok 14 (ac_token m) \<and> u32_ok (ac_shares m) \<and> alpha_ok 8 (ac_stock m) \<and>
     i32_ok (ac_price m) \<and> u32_ok (ac_tif m) \<and> alpha_ok 4 (ac_firm m) \<and> u64_ok (ac_ref m)"
| "ouch_ok (Executed m) \<longleftrightarrow> u64_ok (ex_timestamp m) \<and> alpha_ok 14 (ex_token m) \<and> u32_ok (ex_shares m) \<and> u32_ok (ex_match m) \<and> i32_ok (ex_price m)"
| "ouch_ok (Canceled m) \<longleftrightarrow> u64_ok (ca_timestamp m) \<and> alpha_ok 14 (ca_token m) \<and> u32_ok (ca_decrement m)"

named_theorems ouch_fields \<open>reading back an encoded field\<close>

lemma field_lengths [ouch_fields]:
  "length (pad_alpha s n) = n" "length (push_u32 v) = 4" "length (push_i32 i) = 4" "length (push_u64 v) = 8"
  by (simp_all add: pad_alpha_def push_u32_def push_i32_def push_u64_def)

lemma alpha_back [ouch_fields]: "alpha_ok n s \<Longrightarrow> trim_end_spaces (from_utf8_lossy (pad_alpha s n)) = s"
  using trim_end_padded [of s "n - length s"] by (auto simp: alpha_ok_def pad_alpha_def)

lemma ints_back [ouch_fields]:
  "u32_ok v \<Longrightarrow> be_val (push_u32 v) = v" "u64_ok v \<Longrightarrow> be_val (push_u64 v) = v"
  by (simp_all add: u32_ok_def u64_ok_def push_u32_def push_u64_def be_val_4 be_val_8)

lemma i32_back [ouch_fields]:
  assumes "i32_ok v"
  shows "i32_of (be_val (push_i32 v)) = v"
proof -
  have "nat (v mod 2 ^ 32) < 2 ^ 32" by (simp add: nat_less_iff)
  then have "be_val (push_i32 v) = nat (v mod 2 ^ 32)" by (simp add: push_i32_def be_val_4)
  moreover have "v mod 2 ^ 32 = (if v < 0 then v + 2 ^ 32 else v)"
    using assms mod_add_self2 [of v "2 ^ 32"] mod_pos_pos_trivial [of "v + 2 ^ 32" "2 ^ 32"] by (auto simp: i32_ok_def)
  ultimately show ?thesis using assms by (auto simp: i32_ok_def i32_of_def)
qed

lemmas ouch_reads = get_str_def get_u32_def get_i32_def get_u64_def nth_append ouch_fields

lemma enter_back: "ouch_ok (EnterOrder m) \<Longrightarrow> parse_enter (encode_enter m @ tail) = m \<and> length (encode_enter m) = 49"
  by (simp add: parse_enter_def encode_enter_def ouch_reads)

lemma cancel_back: "ouch_ok (CancelOrder m) \<Longrightarrow> parse_cancel (encode_cancel m @ tail) = m \<and> length (encode_cancel m) = 19"
  by (simp add: parse_cancel_def encode_cancel_def ouch_reads)

lemma replace_back: "ouch_ok (ReplaceOrder m) \<Longrightarrow> parse_replace (encode_replace m @ tail) = m \<and> length (encode_replace m) = 49"
  by (simp add: parse_replace_def encode_replace_def ouch_reads)

lemma accepted_back: "ouch_ok (Accepted m) \<Longrightarrow> parse_accepted (encode_accepted m @ tail) = m \<and> length (encode_accepted m) = 66"
  by (simp add: parse_accepted_def encode_accepted_def ouch_reads)

lemma executed_back: "ouch_ok (Executed m) \<Longrightarrow> parse_executed (encode_executed m @ tail) = m \<and> length (encode_executed m) = 35"
  by (simp add: parse_executed_def encode_executed_def ouch_reads)

lemma canceled_back: "ouch_ok (Canceled m) \<Longrightarrow> parse_canceled (encode_canceled m @ tail) = m \<and> length (encode_canceled m) = 28"
  by (simp add: parse_canceled_def encode_canceled_def ouch_reads)

lemma ouch_back: "ouch_ok msg \<Longrightarrow> ouch_parse (ouch_encode msg @ tail) = Some msg"
proof (cases msg)
  case (EnterOrder m)
  assume "ouch_ok msg"
  then show ?thesis
    using enter_back [of m tail] EnterOrder by (simp add: ouch_parse_def ouch_encode_def ENTER_LEN_def encode_enter_def field_lengths)
next
  case (CancelOrder m)
  assume "ouch_ok msg"
  then show ?thesis
    using cancel_back [of m tail] CancelOrder by (simp add: ouch_parse_def ouch_encode_def CANCEL_LEN_def encode_cancel_def field_lengths)
next
  case (ReplaceOrder m)
  assume "ouch_ok msg"
  then show ?thesis
    using replace_back [of m tail] ReplaceOrder by (simp add: ouch_parse_def ouch_encode_def REPLACE_LEN_def encode_replace_def field_lengths)
next
  case (Accepted m)
  assume "ouch_ok msg"
  then show ?thesis
    using accepted_back [of m tail] Accepted by (simp add: ouch_parse_def ouch_encode_def ACCEPTED_LEN_def encode_accepted_def field_lengths)
next
  case (Executed m)
  assume "ouch_ok msg"
  then show ?thesis
    using executed_back [of m tail] Executed by (simp add: ouch_parse_def ouch_encode_def EXECUTED_LEN_def encode_executed_def field_lengths)
next
  case (Canceled m)
  assume "ouch_ok msg"
  then show ?thesis
    using canceled_back [of m tail] Canceled by (simp add: ouch_parse_def ouch_encode_def CANCELED_LEN_def encode_canceled_def field_lengths)
qed

lemmas ouch_encoders = encode_enter_def encode_cancel_def encode_replace_def encode_accepted_def encode_executed_def encode_canceled_def
lemmas ouch_lens = ENTER_LEN_def CANCEL_LEN_def REPLACE_LEN_def ACCEPTED_LEN_def EXECUTED_LEN_def CANCELED_LEN_def

lemma ouch_cut: "n < length (ouch_encode msg) \<Longrightarrow> ouch_parse (take n (ouch_encode msg)) = None"
  by (cases msg; cases n) (auto simp: ouch_parse_def ouch_encode_def ouch_encoders ouch_lens field_lengths min_def split: if_splits)

text \<open>
  C36. Encoding and parsing are inverse for all six messages: a message whose text fields fit
  comes back from its bytes, whatever follows them, and no proper prefix of the bytes is
  taken for a message.
\<close>
theorem ouch_roundtrip:
  assumes "ouch_ok msg"
  shows "(\<forall>tail. ouch_parse (ouch_encode msg @ tail) = Some msg) \<and>
    (\<forall>n < length (ouch_encode msg). ouch_parse (take n (ouch_encode msg)) = None)"
  using ouch_back [OF assms] ouch_cut by blast

theorem ouch_roundtrip_witness:
  "ouch_parse (ouch_encode (CancelOrder \<lparr>co_token = [79, 49], co_shares = 100\<rparr>) @ [1]) = Some (CancelOrder \<lparr>co_token = [79, 49], co_shares = 100\<rparr>) \<and>
   ouch_parse (ouch_encode (Executed \<lparr>ex_timestamp = 5, ex_token = [79, 49], ex_shares = 100, ex_match = 7, ex_price = - 5\<rparr>) @ [1]) =
     Some (Executed \<lparr>ex_timestamp = 5, ex_token = [79, 49], ex_shares = 100, ex_match = 7, ex_price = - 5\<rparr>)"
  using ouch_roundtrip [of "CancelOrder \<lparr>co_token = [79, 49], co_shares = 100\<rparr>"]
    ouch_roundtrip [of "Executed \<lparr>ex_timestamp = 5, ex_token = [79, 49], ex_shares = 100, ex_match = 7, ex_price = - 5\<rparr>"]
  by (simp add: alpha_ok_def ascii_def u32_ok_def u64_ok_def i32_ok_def)

end
