(* ===== verification/Wal.thy ===== *)
theory Wal
  imports Prelude "HOL-Library.Sublist"
begin

text \<open>
  The write-ahead log of \<open>crates/match-wal/src/lib.rs\<close>: records, the handle with its bounded
  channel, and the flusher thread.  The channel is a list.  The flusher is cut where other
  threads, or a crash, can come in between: opening the file, taking a message, each write of
  a part of the buffer, and the end of \<open>write_buf\<close>.
\<close>

section \<open>Records\<close>

datatype record_kind = RecAccepted | RecFill | RecCancel

definition kind_byte :: "record_kind \<Rightarrow> u8" where
  "kind_byte k = (case k of RecAccepted \<Rightarrow> 1 | RecFill \<Rightarrow> 2 | RecCancel \<Rightarrow> 3)"

record wal_record =
  wr_kind :: record_kind
  wr_id_a :: nat
  wr_id_b :: nat
  wr_price :: int
  wr_qty :: int

definition wal_encode :: "wal_record \<Rightarrow> bytes" where
  "wal_encode r =
     [kind_byte (wr_kind r)] @ le_bytes 8 (wr_id_a r) @ le_bytes 8 (wr_id_b r) @ le_bytes 8 (i64_pat (wr_price r)) @ le_bytes 8 (i64_pat (wr_qty r))"

datatype wal_error = Busy | Closed | Io

text \<open>A flush request carries the place its answer goes to.\<close>

datatype wal_msg = Rec wal_record | Flush nat | Shutdown

section \<open>Flusher\<close>

text \<open>
  Where the flusher is: opening its file, waiting for a message, or in \<open>write_buf\<close>, after
  which it goes on, answers a flush, or ends.
\<close>

datatype wal_after = Continue | Answer nat | Quit

datatype wal_task = Opening | Listen | Write wal_after | Stopped

text \<open>\<open>wal_written\<close> counts the bytes of the buffer that the current \<open>write_all\<close> has written, and
  \<open>wal_synced\<close> the bytes of the file that the last \<open>sync_all\<close> has covered.\<close>

record wal_flusher =
  wal_file :: bytes
  wal_synced :: nat
  wal_buf :: bytes
  wal_written :: nat
  wal_task :: wal_task

definition wal_running :: "wal_flusher \<Rightarrow> bool" where
  "wal_running f \<longleftrightarrow> wal_task f \<noteq> Stopped"

definition on_open :: "bool \<Rightarrow> wal_flusher \<Rightarrow> wal_flusher" where
  "on_open opened f = f\<lparr>wal_task := if opened then Listen else Stopped\<rparr>"

text \<open>An iteration of \<open>flush_loop\<close> up to its call of \<open>write_buf\<close>.\<close>

definition on_msg :: "wal_msg \<Rightarrow> wal_flusher \<Rightarrow> wal_flusher" where
  "on_msg m f =
     (case m of
        Rec r \<Rightarrow>
          let buf = wal_buf f @ wal_encode r
          in f\<lparr>wal_buf := buf, wal_task := if length buf \<ge> 32 * 1024 then Write Continue else Listen\<rparr>
      | Flush ack \<Rightarrow> f\<lparr>wal_task := Write (Answer ack)\<rparr>
      | Shutdown \<Rightarrow> f\<lparr>wal_task := Write Quit\<rparr>)"

definition on_timeout :: "wal_flusher \<Rightarrow> wal_flusher" where
  "on_timeout f = f\<lparr>wal_task := Write Continue\<rparr>"

definition on_disconnect :: "wal_flusher \<Rightarrow> wal_flusher" where
  "on_disconnect f = f\<lparr>wal_task := Write Quit\<rparr>"

text \<open>\<open>write_buf\<close>: \<open>write_all\<close> in parts, then \<open>sync_all\<close> and \<open>clear\<close>; an error leaves the buffer.\<close>

definition write_part :: "nat \<Rightarrow> wal_flusher \<Rightarrow> wal_flusher" where
  "write_part n f =
     (let part = take n (drop (wal_written f) (wal_buf f))
      in f\<lparr>wal_file := wal_file f @ part, wal_written := wal_written f + length part\<rparr>)"

definition write_end :: "bool \<Rightarrow> wal_flusher \<Rightarrow> wal_flusher" where
  "write_end res f =
     (if wal_buf f = [] then f
      else if res then f\<lparr>wal_synced := length (wal_file f), wal_buf := [], wal_written := 0\<rparr>
      else f\<lparr>wal_written := 0\<rparr>)"

text \<open>What follows a call of \<open>write_buf\<close> with result \<open>res\<close>, with the answer to a flush request.\<close>

definition after_write :: "wal_after \<Rightarrow> bool \<Rightarrow> wal_flusher \<Rightarrow> wal_flusher \<times> (nat \<times> bool) list" where
  "after_write k res f =
     (case k of
        Continue \<Rightarrow> (f\<lparr>wal_task := Listen\<rparr>, [])
      | Answer ack \<Rightarrow> (f\<lparr>wal_task := Listen\<rparr>, [(ack, res)])
      | Quit \<Rightarrow> (f\<lparr>wal_task := Stopped\<rparr>, []))"

section \<open>Handle\<close>

text \<open>
  Beside the channel and the flusher: the accepted records, the flush requests with the number
  of records accepted before each, the answers, and what has happened so far: the handle was
  dropped, the file was opened, a write failed.
\<close>

record wal_sys =
  wal_queue :: "wal_msg list"
  wal_cap :: nat
  wal_f :: wal_flusher
  wal_dropped :: bool
  wal_log :: "wal_record list"
  wal_marks :: "(nat \<times> nat) list"
  wal_acks :: "(nat \<times> bool) list"
  wal_opened :: bool
  wal_failed :: bool

text \<open>The file may hold something already; the thread opens it later.\<close>

definition wal_open :: "bytes \<Rightarrow> nat \<Rightarrow> wal_sys" where
  "wal_open old queue_cap =
     \<lparr>wal_queue = [], wal_cap = max queue_cap 1,
      wal_f = \<lparr>wal_file = old, wal_synced = length old, wal_buf = [], wal_written = 0, wal_task = Opening\<rparr>,
      wal_dropped = False, wal_log = [], wal_marks = [], wal_acks = [], wal_opened = False, wal_failed = False\<rparr>"

text \<open>\<open>append\<close> in the mode \<open>Async\<close>: the record is queued or refused at once.\<close>

definition append_async :: "wal_record \<Rightarrow> wal_sys \<Rightarrow> wal_sys \<times> (wal_error + unit)" where
  "append_async r st =
     (if \<not> wal_running (wal_f st) then (st, Inl Closed)
      else if length (wal_queue st) \<ge> wal_cap st then (st, Inl Busy)
      else (st\<lparr>wal_queue := wal_queue st @ [Rec r], wal_log := wal_log st @ [r]\<rparr>, Inr ()))"

text \<open>
  A blocking send goes through when there is room (the result is \<^const>\<open>None\<close> while there is
  none).  \<open>append\<close> in the mode \<open>Sync\<close> is a send of the record and a flush; \<open>flush\<close> is a send of the
  request, whose answer comes later; \<open>drop\<close> is a send of \<open>Shutdown\<close>.
\<close>

definition send_record :: "wal_record \<Rightarrow> wal_sys \<Rightarrow> (wal_sys \<times> (wal_error + unit)) option" where
  "send_record r st =
     (if \<not> wal_running (wal_f st) then Some (st, Inl Closed)
      else if length (wal_queue st) \<ge> wal_cap st then None
      else Some (st\<lparr>wal_queue := wal_queue st @ [Rec r], wal_log := wal_log st @ [r]\<rparr>, Inr ()))"

definition send_flush :: "nat \<Rightarrow> wal_sys \<Rightarrow> (wal_sys \<times> (wal_error + unit)) option" where
  "send_flush ack st =
     (if \<not> wal_running (wal_f st) then Some (st, Inl Closed)
      else if length (wal_queue st) \<ge> wal_cap st then None
      else Some (st\<lparr>wal_queue := wal_queue st @ [Flush ack], wal_marks := wal_marks st @ [(ack, length (wal_log st))]\<rparr>, Inr ()))"

definition wal_drop :: "wal_sys \<Rightarrow> wal_sys option" where
  "wal_drop st =
     (if \<not> wal_running (wal_f st) then Some (st\<lparr>wal_dropped := True\<rparr>)
      else if length (wal_queue st) \<ge> wal_cap st then None
      else Some (st\<lparr>wal_queue := wal_queue st @ [Shutdown], wal_dropped := True\<rparr>))"

definition flush_result :: "nat \<Rightarrow> wal_sys \<Rightarrow> (wal_error + unit) option" where
  "flush_result ack st =
     (case map_of (wal_acks st) ack of
        Some True \<Rightarrow> Some (Inr ())
      | Some False \<Rightarrow> Some (Inl Io)
      | None \<Rightarrow> if wal_running (wal_f st) then None else Some (Inl Closed))"

section \<open>Steps\<close>

text \<open>
  Producers append and request flushes under fresh marks as long as the handle lives; its owner
  drops it, with or (as a test does) without \<open>Shutdown\<close>; the flusher runs in between.
\<close>

inductive wal_step :: "wal_sys \<Rightarrow> wal_sys \<Rightarrow> bool" where
  ws_append: "\<not> wal_dropped st \<Longrightarrow> append_async r st = (st', res) \<Longrightarrow> wal_step st st'"
| ws_send: "\<not> wal_dropped st \<Longrightarrow> send_record r st = Some (st', res) \<Longrightarrow> wal_step st st'"
| ws_flush: "\<not> wal_dropped st \<Longrightarrow> ack \<notin> fst ` set (wal_marks st) \<Longrightarrow> send_flush ack st = Some (st', res) \<Longrightarrow> wal_step st st'"
| ws_drop: "\<not> wal_dropped st \<Longrightarrow> wal_drop st = Some st' \<Longrightarrow> wal_step st st'"
| ws_vanish: "\<not> wal_dropped st \<Longrightarrow> wal_step st (st\<lparr>wal_dropped := True\<rparr>)"
| ws_opened: "wal_task (wal_f st) = Opening \<Longrightarrow> wal_step st (st\<lparr>wal_f := on_open True (wal_f st), wal_opened := True\<rparr>)"
| ws_unopened: "wal_task (wal_f st) = Opening \<Longrightarrow> wal_step st (st\<lparr>wal_f := on_open False (wal_f st), wal_queue := []\<rparr>)"
| ws_take: "wal_task (wal_f st) = Listen \<Longrightarrow> wal_queue st = m # q \<Longrightarrow>
    wal_step st (st\<lparr>wal_queue := q, wal_f := on_msg m (wal_f st)\<rparr>)"
| ws_timeout: "wal_task (wal_f st) = Listen \<Longrightarrow> wal_buf (wal_f st) \<noteq> [] \<Longrightarrow>
    wal_step st (st\<lparr>wal_f := on_timeout (wal_f st)\<rparr>)"
| ws_disconnect: "wal_task (wal_f st) = Listen \<Longrightarrow> wal_queue st = [] \<Longrightarrow> wal_dropped st \<Longrightarrow>
    wal_step st (st\<lparr>wal_f := on_disconnect (wal_f st)\<rparr>)"
| ws_part: "wal_task (wal_f st) = Write k \<Longrightarrow> wal_step st (st\<lparr>wal_f := write_part n (wal_f st)\<rparr>)"
| ws_done: "wal_task (wal_f st) = Write k \<Longrightarrow> wal_written (wal_f st) = length (wal_buf (wal_f st)) \<Longrightarrow>
    after_write k True (write_end True (wal_f st)) = (f', acks) \<Longrightarrow>
    wal_step st (st\<lparr>wal_f := f', wal_acks := wal_acks st @ acks\<rparr>)"
| ws_error: "wal_task (wal_f st) = Write k \<Longrightarrow> wal_buf (wal_f st) \<noteq> [] \<Longrightarrow>
    after_write k False (write_end False (wal_f st)) = (f', acks) \<Longrightarrow>
    wal_step st (st\<lparr>wal_f := f', wal_acks := wal_acks st @ acks, wal_failed := True\<rparr>)"

inductive wal_reach :: "bytes \<Rightarrow> nat \<Rightarrow> wal_sys \<Rightarrow> bool" for old cap where
  wal_reach_open: "wal_reach old cap (wal_open old cap)"
| wal_reach_step: "wal_reach old cap st \<Longrightarrow> wal_step st st' \<Longrightarrow> wal_reach old cap st'"

section \<open>Invariant\<close>

definition bytes_of :: "wal_record list \<Rightarrow> bytes" where
  "bytes_of rs = concat (map wal_encode rs)"

fun queued :: "wal_msg list \<Rightarrow> wal_record list" where
  "queued [] = []"
| "queued (Rec r # q) = r # queued q"
| "queued (m # q) = queued q"

lemma queued_append [simp]: "queued (p @ q) = queued p @ queued q"
  by (induction p rule: queued.induct) simp_all

lemma length_queued: "length (queued q) \<le> length q"
  by (induction q rule: queued.induct) simp_all

lemma length_wal_encode [simp]: "length (wal_encode r) = 33"
  by (simp add: wal_encode_def)

lemma bytes_of_simps [simp]: "bytes_of [] = []" "bytes_of (a @ b) = bytes_of a @ bytes_of b" "bytes_of (r # a) = wal_encode r @ bytes_of a"
  by (simp_all add: bytes_of_def)

lemma length_bytes_of: "length (bytes_of rs) = 33 * length rs"
  by (induction rs) simp_all

text \<open>The flush requests in a queue, each with the number of records before it.\<close>

fun due :: "nat \<Rightarrow> wal_msg list \<Rightarrow> (nat \<times> nat) list" where
  "due n [] = []"
| "due n (Rec r # q) = due (n + 1) q"
| "due n (Flush ack # q) = (ack, n) # due n q"
| "due n (Shutdown # q) = due n q"

lemma due_append [simp]: "due n (p @ q) = due n p @ due (n + length (queued p)) q"
  by (induction n p rule: due.induct) simp_all


text \<open>
  \<open>a\<close> is in the file and synced, \<open>b\<close> in the buffer, \<open>d\<close> lost with a file that was not opened, and
  the rest in the queue.
\<close>

definition wal_inv :: "bytes \<Rightarrow> nat \<Rightarrow> wal_record list \<Rightarrow> wal_record list \<Rightarrow> wal_record list \<Rightarrow> wal_sys \<Rightarrow> bool" where
  "wal_inv old cap a b d st \<longleftrightarrow>
     wal_log st = a @ b @ queued (wal_queue st) @ d \<and> wal_buf (wal_f st) = bytes_of b \<and>
     wal_written (wal_f st) \<le> length (bytes_of b) \<and>
     wal_file (wal_f st) = old @ bytes_of a @ take (wal_written (wal_f st)) (bytes_of b) \<and>
     wal_synced (wal_f st) = length (old @ bytes_of a) \<and>
     length (wal_queue st) \<le> wal_cap st \<and> wal_cap st = max cap 1"

definition phase_inv :: "wal_record list \<Rightarrow> wal_record list \<Rightarrow> wal_record list \<Rightarrow> wal_sys \<Rightarrow> bool" where
  "phase_inv a b d st \<longleftrightarrow>
     (case wal_task (wal_f st) of
        Opening \<Rightarrow> a = [] \<and> b = [] \<and> d = [] \<and> \<not> wal_opened st
      | Listen \<Rightarrow> 33 * length b < 32 * 1024 \<and> wal_written (wal_f st) = 0 \<and> d = [] \<and> wal_opened st
      | Write k \<Rightarrow> length b \<le> 993 \<and> d = [] \<and> wal_opened st \<and> (k = Quit \<longrightarrow> wal_queue st = [] \<and> wal_dropped st)
      | Stopped \<Rightarrow> b = [] \<and> wal_queue st = [] \<and> (if wal_opened st then d = [] else a = [] \<and> length d \<le> wal_cap st)) \<and>
     (Shutdown \<in> set (wal_queue st) \<longrightarrow> wal_dropped st \<and> Shutdown \<notin> set (butlast (wal_queue st)))"

text \<open>An answered request was made when at most the records of \<open>a\<close> were queued.\<close>

definition marks_inv :: "wal_record list \<Rightarrow> wal_record list \<Rightarrow> wal_sys \<Rightarrow> bool" where
  "marks_inv a b st \<longleftrightarrow>
     distinct (map fst (wal_marks st)) \<and> set (due (length (a @ b)) (wal_queue st)) \<subseteq> set (wal_marks st) \<and>
     (\<forall>ack. wal_task (wal_f st) = Write (Answer ack) \<longrightarrow> (ack, length (a @ b)) \<in> set (wal_marks st)) \<and>
     (\<forall>ack res. (ack, res) \<in> set (wal_acks st) \<longrightarrow> res \<and> (\<exists>pos \<le> length a. (ack, pos) \<in> set (wal_marks st)))"

definition wal_at :: "bytes \<Rightarrow> nat \<Rightarrow> wal_record list \<Rightarrow> wal_record list \<Rightarrow> wal_record list \<Rightarrow> wal_sys \<Rightarrow> bool" where
  "wal_at old cap a b d st \<longleftrightarrow> wal_inv old cap a b d st \<and> phase_inv a b d st \<and> marks_inv a b st"

lemmas wal_parts = wal_at_def wal_inv_def phase_inv_def marks_inv_def

definition wal_ok :: "bytes \<Rightarrow> nat \<Rightarrow> wal_sys \<Rightarrow> bool" where
  "wal_ok old cap st \<longleftrightarrow> (\<exists>a b d. wal_at old cap a b d st)"

section \<open>Producers\<close>

lemma not_shutdown: "wal_at old cap a b d st \<Longrightarrow> \<not> wal_dropped st \<Longrightarrow> Shutdown \<notin> set (wal_queue st)"
  by (auto simp: wal_parts)

text \<open>A live handle does not meet a flusher that is about to end, and what is lost is fixed.\<close>

lemma live_task:
  assumes "wal_at old cap a b d st" "\<not> wal_dropped st" "wal_running (wal_f st)"
  shows "d = []" and "wal_task (wal_f st) \<noteq> Write Quit" and "wal_task (wal_f st) \<noteq> Stopped"
  using assms by (auto simp: wal_parts wal_running_def split: wal_task.splits)

lemma queue_rec:
  assumes "wal_at old cap a b d st" "\<not> wal_dropped st" "wal_running (wal_f st)" "length (wal_queue st) < wal_cap st"
  shows "wal_at old cap a b d (st\<lparr>wal_queue := wal_queue st @ [Rec r], wal_log := wal_log st @ [r]\<rparr>)"
  using assms live_task [OF assms(1-3)] not_shutdown [OF assms(1,2)] by (auto simp: wal_parts split: wal_task.splits)

lemma queue_flush:
  assumes "wal_at old cap a b d st" "\<not> wal_dropped st" "wal_running (wal_f st)" "length (wal_queue st) < wal_cap st"
    "ack \<notin> fst ` set (wal_marks st)"
  shows "wal_at old cap a b d (st\<lparr>wal_queue := wal_queue st @ [Flush ack], wal_marks := wal_marks st @ [(ack, length (wal_log st))]\<rparr>)"
    (is "wal_at old cap a b d ?st")
proof -
  note live = live_task [OF assms(1-3)] not_shutdown [OF assms(1,2)]
  have "wal_inv old cap a b d ?st" "phase_inv a b d ?st" using assms live by (auto simp: wal_parts split: wal_task.splits)
  moreover have "marks_inv a b ?st"
  proof -
    have m: "marks_inv a b st" using assms(1) by (simp add: wal_at_def)
    have log: "length (wal_log st) = length (a @ b) + length (queued (wal_queue st))" using assms(1) live(1) by (simp add: wal_parts)
    have "res \<and> (\<exists>pos \<le> length a. (k, pos) \<in> set (wal_marks ?st))" if "(k, res) \<in> set (wal_acks st)" for k res
      using m that unfolding marks_inv_def by fastforce
    then show ?thesis using m assms(5) log unfolding marks_inv_def by simp blast
  qed
  ultimately show ?thesis by (simp add: wal_at_def)
qed

lemma handle_drop:
  assumes "wal_at old cap a b d st" "\<not> wal_dropped st" "wal_drop st = Some st'"
  shows "wal_at old cap a b d st'"
proof (cases "wal_running (wal_f st)")
  case True
  note live = live_task [OF assms(1,2) True] not_shutdown [OF assms(1,2)]
  have st': "st' = st\<lparr>wal_queue := wal_queue st @ [Shutdown], wal_dropped := True\<rparr>" "length (wal_queue st) < wal_cap st"
    using assms(3) True by (auto simp: wal_drop_def split: if_splits)
  have at: "wal_inv old cap a b d st" "phase_inv a b d st" "marks_inv a b st" using assms(1) by (simp_all add: wal_at_def)
  have "wal_inv old cap a b d st'" using at(1) st' by (simp add: wal_inv_def)
  moreover have "phase_inv a b d st'" using at(2) st' live by (cases "wal_task (wal_f st)") (auto simp: phase_inv_def)
  moreover have "marks_inv a b st'" using at(3) st' by (auto simp: marks_inv_def)
  ultimately show ?thesis by (simp add: wal_at_def)
next
  case False
  then have "st' = st\<lparr>wal_dropped := True\<rparr>" using assms(3) by (simp add: wal_drop_def)
  then show ?thesis using assms(1) False by (auto simp: wal_parts wal_running_def)
qed

lemma handle_vanish: "wal_at old cap a b d st \<Longrightarrow> wal_at old cap a b d (st\<lparr>wal_dropped := True\<rparr>)"
  by (auto simp: wal_parts split: wal_task.splits)

section \<open>The flusher\<close>

lemma file_opened:
  assumes "wal_at old cap a b d st" "wal_task (wal_f st) = Opening"
  shows "wal_at old cap a b d (st\<lparr>wal_f := on_open True (wal_f st), wal_opened := True\<rparr>)"
  using assms by (auto simp: wal_parts on_open_def)

lemma file_unopened:
  assumes "wal_at old cap a b d st" "wal_task (wal_f st) = Opening"
  shows "wal_at old cap [] [] (wal_log st) (st\<lparr>wal_f := on_open False (wal_f st), wal_queue := []\<rparr>)"
proof -
  have "length (wal_log st) \<le> wal_cap st"
    using assms length_queued [of "wal_queue st"] by (auto simp: wal_parts)
  then show ?thesis using assms by (auto simp: wal_parts on_open_def)
qed

lemma take_record:
  assumes "wal_at old cap a b d st" "wal_task (wal_f st) = Listen" "wal_queue st = Rec r # q"
  shows "wal_at old cap a (b @ [r]) d (st\<lparr>wal_queue := q, wal_f := on_msg (Rec r) (wal_f st)\<rparr>)"
  using assms by (auto simp: wal_parts on_msg_def Let_def length_bytes_of split: if_splits)

lemma take_flush:
  assumes "wal_at old cap a b d st" "wal_task (wal_f st) = Listen" "wal_queue st = Flush ack # q"
  shows "wal_at old cap a b d (st\<lparr>wal_queue := q, wal_f := on_msg (Flush ack) (wal_f st)\<rparr>)"
  using assms by (auto simp: wal_parts on_msg_def split: if_splits)

lemma take_shutdown:
  assumes "wal_at old cap a b d st" "wal_task (wal_f st) = Listen" "wal_queue st = Shutdown # q"
  shows "wal_at old cap a b d (st\<lparr>wal_queue := q, wal_f := on_msg Shutdown (wal_f st)\<rparr>)"
proof -
  have "q = []" "wal_dropped st" using assms by (auto simp: wal_parts split: if_splits)
  then show ?thesis using assms by (auto simp: wal_parts on_msg_def)
qed

lemma begin_write:
  assumes "wal_at old cap a b d st" "wal_task (wal_f st) = Listen" "k = Continue \<or> k = Quit \<and> wal_queue st = [] \<and> wal_dropped st"
  shows "wal_at old cap a b d (st\<lparr>wal_f := (wal_f st)\<lparr>wal_task := Write k\<rparr>\<rparr>)"
  using assms by (auto simp: wal_parts)

lemma part_written:
  assumes "wal_at old cap a b d st" "wal_task (wal_f st) = Write k"
  shows "wal_at old cap a b d (st\<lparr>wal_f := write_part n (wal_f st)\<rparr>)"
  using assms by (auto simp: wal_parts write_part_def Let_def take_add min_def split: if_splits)

lemma written_all:
  assumes "wal_at old cap a b d st" "wal_task (wal_f st) = Write k" "wal_written (wal_f st) = length (wal_buf (wal_f st))"
    "after_write k True (write_end True (wal_f st)) = (f', acks)"
  shows "wal_at old cap (a @ b) [] d (st\<lparr>wal_f := f', wal_acks := wal_acks st @ acks\<rparr>)" (is "wal_at old cap (a @ b) [] d ?st")
proof -
  have m: "marks_inv a b st" using assms(1) by (simp add: wal_at_def)
  have "wal_inv old cap (a @ b) [] d ?st" "phase_inv (a @ b) [] d ?st"
    using assms by (auto simp: wal_parts after_write_def write_end_def split: wal_after.splits if_splits)
  moreover have "marks_inv (a @ b) [] ?st"
  proof -
    have ack: "acks = [] \<or> (\<exists>ack. acks = [(ack, True)] \<and> (ack, length (a @ b)) \<in> set (wal_marks st))"
      using assms m by (auto simp: after_write_def marks_inv_def split: wal_after.splits)
    have "(ack, res) \<in> set (wal_acks st @ acks) \<Longrightarrow> res \<and> (\<exists>pos \<le> length (a @ b). (ack, pos) \<in> set (wal_marks st))" for ack res
    proof (cases "(ack, res) \<in> set acks")
      case False
      assume "(ack, res) \<in> set (wal_acks st @ acks)"
      then have "res \<and> (\<exists>pos \<le> length a. (ack, pos) \<in> set (wal_marks st))" using False m unfolding marks_inv_def by auto
      then show ?thesis by (metis length_append trans_le_add1)
    qed (use ack in auto)
    moreover have "wal_task f' \<noteq> Write (Answer n)" for n using assms(4) by (auto simp: after_write_def split: wal_after.splits)
    ultimately show ?thesis using m unfolding marks_inv_def by auto
  qed
  ultimately show ?thesis by (simp add: wal_at_def)
qed

lemma wal_failed_step: "wal_step st st' \<Longrightarrow> wal_failed st \<Longrightarrow> wal_failed st'"
  by (induction rule: wal_step.induct)
    (auto simp: append_async_def send_record_def send_flush_def wal_drop_def split: if_splits)

lemma wal_at_step:
  assumes "wal_step st st'" "\<not> wal_failed st'" "wal_at old cap a b d st"
  shows "\<exists>a b d. wal_at old cap a b d st'"
  using assms
proof (induction rule: wal_step.induct)
  case (ws_append st r st' res)
  then show ?case using queue_rec [of old cap a b d st r] by (auto simp: append_async_def split: if_splits)
next
  case (ws_send st r st' res)
  then show ?case using queue_rec [of old cap a b d st r] by (auto simp: send_record_def split: if_splits)
next
  case (ws_flush st ack st' res)
  then show ?case using queue_flush [of old cap a b d st ack] by (auto simp: send_flush_def split: if_splits)
next
  case (ws_drop st st')
  then show ?case by (intro exI) (rule handle_drop)
next
  case (ws_vanish st)
  then show ?case by (intro exI) (rule handle_vanish)
next
  case (ws_opened st)
  then show ?case by (intro exI) (rule file_opened)
next
  case (ws_unopened st)
  then show ?case by (intro exI) (rule file_unopened)
next
  case (ws_take st m q)
  show ?case
  proof (cases m)
    case (Rec r)
    then show ?thesis using take_record [of old cap a b d st r q] ws_take by (intro exI) simp
  next
    case (Flush ack)
    then show ?thesis using take_flush [of old cap a b d st ack q] ws_take by (intro exI) simp
  next
    case Shutdown
    then show ?thesis using take_shutdown [of old cap a b d st q] ws_take by (intro exI) simp
  qed
next
  case (ws_timeout st)
  then show ?case using begin_write [of old cap a b d st Continue] by (auto simp: on_timeout_def)
next
  case (ws_disconnect st)
  then show ?case using begin_write [of old cap a b d st Quit] by (auto simp: on_disconnect_def)
next
  case (ws_part st k n)
  then show ?case by (intro exI) (rule part_written)
next
  case (ws_done st k f' acks)
  then show ?case by (intro exI) (rule written_all)
qed simp

lemma wal_reach_ok: "wal_reach old cap st \<Longrightarrow> \<not> wal_failed st \<Longrightarrow> wal_ok old cap st"
proof (induction rule: wal_reach.induct)
  case wal_reach_open
  have "wal_at old cap [] [] [] (wal_open old cap)" by (simp add: wal_parts wal_open_def)
  then show ?case unfolding wal_ok_def by blast
next
  case (wal_reach_step st st')
  then have "wal_ok old cap st" using wal_failed_step by blast
  then show ?case using wal_at_step [OF wal_reach_step(2,4)] unfolding wal_ok_def by blast
qed

section \<open>Property\<close>

text \<open>
  C20. Durability and bounded loss, at any moment between two writes to the file, and as long as
  no write has failed: the synced part of the file is what was there before and the encoding
  of the first \<open>k\<close> accepted records, and the file is a prefix, perhaps torn, of what was there and
  all accepted records; at most the capacity of the channel and 993 records are not synced,
  none once the flusher has stopped after opening its file, and none that was accepted before
  a flush that returned success.
\<close>
theorem wal_loss_bounded:
  assumes "wal_reach old cap st" and "\<not> wal_failed st"
  shows "\<exists>k \<le> length (wal_log st). take (wal_synced (wal_f st)) (wal_file (wal_f st)) = old @ bytes_of (take k (wal_log st)) \<and>
    prefix (wal_file (wal_f st)) (old @ bytes_of (wal_log st)) \<and> length (wal_log st) \<le> k + max cap 1 + 993 \<and>
    (wal_running (wal_f st) \<or> \<not> wal_opened st \<or> k = length (wal_log st)) \<and>
    (\<forall>ack pos. (ack, pos) \<in> set (wal_marks st) \<and> flush_result ack st = Some (Inr ()) \<longrightarrow> pos \<le> k)"
proof -
  obtain a b d where i: "wal_inv old cap a b d st" "phase_inv a b d st" "marks_inv a b st"
    using wal_reach_ok [OF assms] by (auto simp: wal_ok_def wal_at_def)
  have log: "wal_log st = a @ b @ queued (wal_queue st) @ d" using i(1) by (simp add: wal_inv_def)
  have content: "wal_file (wal_f st) = old @ bytes_of a @ take (wal_written (wal_f st)) (bytes_of b)" using i(1) by (simp add: wal_inv_def)
  have pre: "prefix (wal_file (wal_f st)) (old @ bytes_of (wal_log st))"
    unfolding content log by (simp add: take_is_prefix prefix_prefix)
  have "length (b @ queued (wal_queue st) @ d) \<le> max cap 1 + 993"
    using i(1,2) length_queued [of "wal_queue st"] by (auto simp: wal_inv_def phase_inv_def split: wal_task.splits if_splits)
  then have bound: "length (wal_log st) \<le> length a + max cap 1 + 993" unfolding log by simp
  have "pos \<le> length a" if "(ack, pos) \<in> set (wal_marks st)" "flush_result ack st = Some (Inr ())" for ack pos
  proof -
    have "map_of (wal_acks st) ack = Some True" using that(2) by (auto simp: flush_result_def split: option.splits bool.splits if_splits)
    then have "(ack, True) \<in> set (wal_acks st)" by (rule map_of_SomeD)
    then obtain pos' where pos': "pos' \<le> length a" "(ack, pos') \<in> set (wal_marks st)" using i(3) unfolding marks_inv_def by blast
    have "distinct (map fst (wal_marks st))" using i(3) unfolding marks_inv_def by blast
    then have "pos = pos'" using that(1) pos'(2) by (rule eq_key_imp_eq_value)
    then show ?thesis using pos'(1) by simp
  qed
  then show ?thesis
    using i(1,2) log content pre bound
    by (intro exI [of _ "length a"]) (auto simp: wal_inv_def phase_inv_def wal_running_def)
qed

definition wal_sample_rec :: wal_record where
  "wal_sample_rec = \<lparr>wr_kind = RecFill, wr_id_a = 1, wr_id_b = 2, wr_price = 100, wr_qty = 5\<rparr>"

abbreviation sample_f :: "bytes \<Rightarrow> nat \<Rightarrow> bytes \<Rightarrow> nat \<Rightarrow> wal_task \<Rightarrow> wal_flusher" where
  "sample_f c s b w t \<equiv> \<lparr>wal_file = c, wal_synced = s, wal_buf = b, wal_written = w, wal_task = t\<rparr>"

abbreviation sample_sys :: "wal_msg list \<Rightarrow> wal_flusher \<Rightarrow> wal_record list \<Rightarrow> (nat \<times> nat) list \<Rightarrow> (nat \<times> bool) list \<Rightarrow> bool \<Rightarrow> wal_sys" where
  "sample_sys q f l m a p \<equiv>
     \<lparr>wal_queue = q, wal_cap = 2, wal_f = f, wal_dropped = False, wal_log = l, wal_marks = m, wal_acks = a, wal_opened = p, wal_failed = False\<rparr>"

definition wal_sample :: wal_sys where
  "wal_sample = sample_sys [Rec wal_sample_rec] (sample_f ([9] @ wal_encode wal_sample_rec) 34 [] 0 Listen)
     [wal_sample_rec, wal_sample_rec] [(7, 1)] [(7, True)] True"

text \<open>A record is appended behind a file of one byte and flushed, and a second one is queued.\<close>

lemma wal_sample_reach: "wal_reach [9] 2 wal_sample"
proof -
  let ?r = wal_sample_rec and ?e = "wal_encode wal_sample_rec"
  have "wal_reach [9] 2 (sample_sys [] (sample_f [9] 1 [] 0 Opening) [] [] [] False)"
    using wal_reach_open [of "[9]" 2] by (simp add: wal_open_def max_def)
  then have "wal_reach [9] 2 (sample_sys [] (sample_f [9] 1 [] 0 Listen) [] [] [] True)"
    by (rule wal_reach_step) (use ws_opened [of "sample_sys [] (sample_f [9] 1 [] 0 Opening) [] [] [] False"] in \<open>simp add: on_open_def\<close>)
  then have "wal_reach [9] 2 (sample_sys [Rec ?r] (sample_f [9] 1 [] 0 Listen) [?r] [] [] True)"
    by (rule wal_reach_step) (rule ws_append [of _ ?r _ "Inr ()"], simp_all add: append_async_def wal_running_def)
  then have "wal_reach [9] 2 (sample_sys [Rec ?r, Flush 7] (sample_f [9] 1 [] 0 Listen) [?r] [(7, 1)] [] True)"
    by (rule wal_reach_step) (rule ws_flush [of _ 7 _ "Inr ()"], simp_all add: send_flush_def wal_running_def)
  then have "wal_reach [9] 2 (sample_sys [Flush 7] (sample_f [9] 1 ?e 0 Listen) [?r] [(7, 1)] [] True)"
    by (rule wal_reach_step)
      (use ws_take [of "sample_sys [Rec ?r, Flush 7] (sample_f [9] 1 [] 0 Listen) [?r] [(7, 1)] [] True" "Rec ?r" "[Flush 7]"] in \<open>simp add: on_msg_def\<close>)
  then have "wal_reach [9] 2 (sample_sys [] (sample_f [9] 1 ?e 0 (Write (Answer 7))) [?r] [(7, 1)] [] True)"
    by (rule wal_reach_step)
      (use ws_take [of "sample_sys [Flush 7] (sample_f [9] 1 ?e 0 Listen) [?r] [(7, 1)] [] True" "Flush 7" "[]"] in \<open>simp add: on_msg_def\<close>)
  then have "wal_reach [9] 2 (sample_sys [] (sample_f ([9] @ ?e) 1 ?e 33 (Write (Answer 7))) [?r] [(7, 1)] [] True)"
    by (rule wal_reach_step)
      (use ws_part [of "sample_sys [] (sample_f [9] 1 ?e 0 (Write (Answer 7))) [?r] [(7, 1)] [] True" "Answer 7" 33] in \<open>simp add: write_part_def Let_def\<close>)
  then have "wal_reach [9] 2 (sample_sys [] (sample_f ([9] @ ?e) 34 [] 0 Listen) [?r] [(7, 1)] [(7, True)] True)"
    by (rule wal_reach_step)
      (use ws_done [of "sample_sys [] (sample_f ([9] @ ?e) 1 ?e 33 (Write (Answer 7))) [?r] [(7, 1)] [] True" "Answer 7"] in
        \<open>simp add: after_write_def write_end_def wal_encode_def\<close>)
  then have "wal_reach [9] 2 (sample_sys [Rec ?r] (sample_f ([9] @ ?e) 34 [] 0 Listen) [?r, ?r] [(7, 1)] [(7, True)] True)"
    by (rule wal_reach_step) (rule ws_append [of _ ?r _ "Inr ()"], simp_all add: append_async_def wal_running_def)
  then show ?thesis by (simp add: wal_sample_def)
qed

theorem wal_loss_bounded_witness:
  "wal_reach [9] 2 wal_sample \<and> \<not> wal_failed wal_sample \<and> flush_result 7 wal_sample = Some (Inr ()) \<and>
   (\<exists>k. 1 \<le> k \<and> take 34 (wal_file (wal_f wal_sample)) = [9] @ bytes_of (take k [wal_sample_rec, wal_sample_rec]))"
proof -
  have f: "flush_result 7 wal_sample = Some (Inr ())" "(7, 1) \<in> set (wal_marks wal_sample)" "wal_log wal_sample = [wal_sample_rec, wal_sample_rec]"
    "wal_synced (wal_f wal_sample) = 34" "\<not> wal_failed wal_sample"
    by (simp_all add: flush_result_def wal_sample_def)
  show ?thesis using wal_loss_bounded [OF wal_sample_reach f(5)] wal_sample_reach f by auto
qed

end
