(* ===== verification/Outbound.thy ===== *)
theory Outbound
  imports Core_Depth Protocol Mold Hp_Scale Hp_Engine
begin

text \<open>
  The outbound path of the two services: \<open>outbound.rs\<close> of \<open>crates/match-spot\<close> and
  \<open>crates/match-contract\<close>, with \<open>spot_depth.rs\<close>, \<open>mq/topics.rs\<close>, \<open>mq/producer.rs\<close> and the push side
  of \<open>error_queue.rs\<close>.

  The message broker, Redis, the JSON serializer, the base64 encoder and the parser of
  decimals are the fields of \<open>out_env\<close>.  Whether the broker takes a message and Redis takes a
  push are functions of the number of the attempt, so they may fail at any time.
\<close>

section \<open>Payloads\<close>

definition ORDER_STATUS_REVOKE_SUCCESS :: int where "ORDER_STATUS_REVOKE_SUCCESS = 4"
definition ORDER_ROBOT :: int where "ORDER_ROBOT = 2"
definition SPOT_ORDER_USER :: int where "SPOT_ORDER_USER = 1"
definition SPOT_NO_DEAL_NUMBER :: nat where "SPOT_NO_DEAL_NUMBER = 25"
definition DEPTH_LEVELS :: nat where "DEPTH_LEVELS = 20"
definition MSG_TAG_FILL_ORDER :: u8 where "MSG_TAG_FILL_ORDER = 0x01"
definition MSG_TAG_DEPTH :: u8 where "MSG_TAG_DEPTH = 0x02"

record push_order =
  po_symbol_key :: string
  po_trust_order_no :: string
  po_target_order_no :: "string option"
  po_trust_price :: string
  po_deal_price :: "string option"
  po_remaining :: string
  po_target_remaining :: "string option"
  po_status :: int
  po_target_status :: "int option"
  po_current_deal :: "string option"
  po_reason :: "string option"

fun push_of_event :: "match_event \<Rightarrow> push_order" where
  "push_of_event (FillEv sy taker maker taker_type maker_type price qty taker_rem maker_rem taker_status maker_status) =
     \<lparr>po_symbol_key = sy, po_trust_order_no = taker, po_target_order_no = Some maker, po_trust_price = price,
      po_deal_price = Some price, po_remaining = taker_rem, po_target_remaining = Some maker_rem,
      po_status = taker_status, po_target_status = Some maker_status, po_current_deal = Some qty, po_reason = None\<rparr>"
| "push_of_event (RevokeEv order_no sy remain reason) =
     \<lparr>po_symbol_key = sy, po_trust_order_no = order_no, po_target_order_no = None, po_trust_price = ''0'',
      po_deal_price = None, po_remaining = remain, po_target_remaining = None,
      po_status = ORDER_STATUS_REVOKE_SUCCESS, po_target_status = None, po_current_deal = None, po_reason = Some reason\<rparr>"

record depth_level =
  dl_price :: string
  dl_volume :: string
  dl_quantity :: string

record handicap =
  hd_symbol :: string
  hd_bids :: "depth_level list"
  hd_asks :: "depth_level list"
  hd_buy_sum :: string
  hd_sell_sum :: string

record contract_level =
  kl_price :: string
  kl_quantity :: string

record depth_snapshot =
  ds_symbol :: string
  ds_bids :: "contract_level list"
  ds_asks :: "contract_level list"

section \<open>Environment and channel\<close>

record 'd out_env =
  oe_bd :: "'d bigdec"
  oe_parse :: "string \<Rightarrow> 'd option"
  oe_b64 :: "string \<Rightarrow> string"
  oe_json_order :: "'d bb_order list \<Rightarrow> bytes option"
  oe_json_push :: "push_order list \<Rightarrow> bytes option"
  oe_json_handicap :: "handicap \<Rightarrow> bytes option"
  oe_json_snapshot :: "depth_snapshot \<Rightarrow> bytes option"
  oe_send :: "nat \<Rightarrow> string \<Rightarrow> bytes \<Rightarrow> bool"
  oe_lpush :: "nat \<Rightarrow> bytes \<Rightarrow> bool"

text \<open>What the broker took, and the error queue, newest first, if Redis is configured.\<close>

record out_chan =
  o_sent :: "(string \<times> bytes) list"
  o_tries :: nat
  o_queue :: "bytes list option"
  o_pushes :: nat

definition chan_new :: "bool \<Rightarrow> out_chan" where
  "chan_new redis = \<lparr>o_sent = [], o_tries = 0, o_queue = (if redis then Some [] else None), o_pushes = 0\<rparr>"

definition sink_send :: "'d out_env \<Rightarrow> string \<Rightarrow> bytes \<Rightarrow> out_chan \<Rightarrow> out_chan \<times> bool" where
  "sink_send env topic body ch =
     (if oe_send env (o_tries ch) topic body
      then (ch\<lparr>o_sent := o_sent ch @ [(topic, body)], o_tries := o_tries ch + 1\<rparr>, True)
      else (ch\<lparr>o_tries := o_tries ch + 1\<rparr>, False))"

definition on_send_fail :: "'d out_env \<Rightarrow> bytes \<Rightarrow> out_chan \<Rightarrow> out_chan" where
  "on_send_fail env body ch =
     (case o_queue ch of
        None \<Rightarrow> ch
      | Some q \<Rightarrow>
          if oe_lpush env (o_pushes ch) body
          then ch\<lparr>o_queue := Some (body # q), o_pushes := o_pushes ch + 1\<rparr>
          else ch\<lparr>o_pushes := o_pushes ch + 1\<rparr>)"

definition send_or_queue :: "'d out_env \<Rightarrow> string \<Rightarrow> bytes \<Rightarrow> out_chan \<Rightarrow> out_chan" where
  "send_or_queue env topic body ch =
     (case sink_send env topic body ch of (ch1, sent) \<Rightarrow> if sent then ch1 else on_send_fail env body ch1)"

section \<open>Depth throttle\<close>

definition depth_due :: "nat \<Rightarrow> nat \<Rightarrow> string \<Rightarrow> (string \<Rightarrow> nat option) \<Rightarrow> bool" where
  "depth_due interval now symbol lasts \<longleftrightarrow>
     interval = 0 \<or> (case lasts symbol of None \<Rightarrow> True | Some prev \<Rightarrow> \<not> now - prev < interval)"

definition depth_mark :: "nat \<Rightarrow> nat \<Rightarrow> string \<Rightarrow> (string \<Rightarrow> nat option) \<Rightarrow> (string \<Rightarrow> nat option)" where
  "depth_mark interval now symbol lasts = (if interval > 0 then lasts(symbol \<mapsto> now) else lasts)"

section \<open>Spot: topics and depth\<close>

definition SPOT_PULL_ORDER_MM_SUFFIX :: string where "SPOT_PULL_ORDER_MM_SUFFIX = ''_mm''"
definition SPOT_PUSH_ORDER_PREFIX :: string where "SPOT_PUSH_ORDER_PREFIX = ''contract_match_order_push_order_''"
definition SPOT_PUSH_MARKET_PREFIX :: string where "SPOT_PUSH_MARKET_PREFIX = ''contract_match_market_push_order_''"
definition SPOT_PUSH_NO_DEAL :: string where "SPOT_PUSH_NO_DEAL = ''contract_match_market_push_no_deal''"
definition SPOT_PUSH_DEEPS :: string where "SPOT_PUSH_DEEPS = ''contract_match_market_push_deeps''"

definition spot_push_order_topic :: "(string \<Rightarrow> string) \<Rightarrow> string \<Rightarrow> bool \<Rightarrow> string" where
  "spot_push_order_topic b64 key mm_suffix =
     SPOT_PUSH_ORDER_PREFIX @ encode_symbol_key b64 key @ (if mm_suffix then SPOT_PULL_ORDER_MM_SUFFIX else [])"

definition spot_push_market_topic :: "(string \<Rightarrow> string) \<Rightarrow> string \<Rightarrow> bool \<Rightarrow> string" where
  "spot_push_market_topic b64 key mm_suffix =
     SPOT_PUSH_MARKET_PREFIX @ encode_symbol_key b64 key @ (if mm_suffix then SPOT_PULL_ORDER_MM_SUFFIX else [])"

record topic_split =
  topic_enable :: bool
  topic_coin_markets :: "string list"

definition uses_mm_suffix :: "topic_split \<Rightarrow> string \<Rightarrow> int \<Rightarrow> int option \<Rightarrow> bool" where
  "uses_mm_suffix cfg market taker_type maker_type =
     (if taker_type = SPOT_ORDER_USER then False
      else if maker_type = Some SPOT_ORDER_USER then False
      else if topic_enable cfg then True
      else list_ex (\<lambda>m. m = market) (topic_coin_markets cfg))"

definition spot_dec_str :: "'d bigdec \<Rightarrow> 'd \<Rightarrow> string" where
  "spot_dec_str bd d = bd_to_string bd (bd_normalized bd d)"

definition merge_text :: "'d::linordered_idom out_env \<Rightarrow> string \<Rightarrow> string \<Rightarrow> string" where
  "merge_text env a b =
     (case (oe_parse env a, oe_parse env b) of (Some x, Some y) \<Rightarrow> spot_dec_str (oe_bd env) (x + y) | _ \<Rightarrow> a)"

definition merge_same_price_level :: "'d::linordered_idom out_env \<Rightarrow> depth_level \<Rightarrow> depth_level \<Rightarrow> depth_level" where
  "merge_same_price_level env prev level =
     prev\<lparr>dl_volume := merge_text env (dl_volume prev) (dl_volume level),
          dl_quantity := merge_text env (dl_quantity prev) (dl_quantity level)\<rparr>"

definition level_of_order :: "'d bigdec \<Rightarrow> 'd bb_order \<Rightarrow> depth_level" where
  "level_of_order bd ord =
     \<lparr>dl_price = spot_dec_str bd (trust_price ord), dl_volume = spot_dec_str bd (consumer_all_number ord),
      dl_quantity = spot_dec_str bd (remaining_number ord)\<rparr>"

fun build_levels ::
  "'d::linordered_idom out_env \<Rightarrow> nat \<Rightarrow> 'd bb_order list \<Rightarrow> depth_level list \<Rightarrow> 'd \<Rightarrow> depth_level list \<times> 'd" where
  "build_levels env lim [] send_list sum_trust = (send_list, sum_trust)"
| "build_levels env lim (ord # ords) send_list sum_trust =
     (if length send_list < lim then
        (if remaining_number ord \<le> 0 then build_levels env lim ords send_list sum_trust
         else let level = level_of_order (oe_bd env) ord
              in build_levels env lim ords
                   (if send_list \<noteq> [] \<and> dl_price (last send_list) = dl_price level
                    then butlast send_list @ [merge_same_price_level env (last send_list) level]
                    else send_list @ [level])
                   (sum_trust + trust_number ord))
      else (send_list, sum_trust))"

definition build_depth_levels :: "'d::linordered_idom out_env \<Rightarrow> 'd bb_order list \<Rightarrow> nat \<Rightarrow> depth_level list \<times> 'd" where
  "build_depth_levels env ords lim = build_levels env lim ords [] 0"

lemma build_levels_bounded: "length ls \<le> lim \<Longrightarrow> length (fst (build_levels env lim ords ls s)) \<le> lim"
  by (induction env lim ords ls s rule: build_levels.induct) (auto simp: Let_def)

definition spot_snapshot :: "'d::linordered_idom out_env \<Rightarrow> string \<Rightarrow> 'd core_engine \<Rightarrow> handicap" where
  "spot_snapshot env symbol e =
     (case build_depth_levels env (core_resting_orders e symbol BuySide) SPOT_NO_DEAL_NUMBER of (bid_list, buy_sum) \<Rightarrow>
      case build_depth_levels env (core_resting_orders e symbol SellSide) SPOT_NO_DEAL_NUMBER of (ask_list, sell_sum) \<Rightarrow>
        \<lparr>hd_symbol = symbol, hd_bids = bid_list, hd_asks = ask_list,
         hd_buy_sum = bd_to_string (oe_bd env) buy_sum, hd_sell_sum = bd_to_string (oe_bd env) sell_sum\<rparr>)"

section \<open>Spot: order results\<close>

record spot_out =
  so_chan :: out_chan
  so_interval :: nat
  so_lasts :: "string \<Rightarrow> nat option"
  so_split :: topic_split
  so_mold :: "mold_publisher option"
  so_feed :: "bytes list"

definition spot_out_new :: "bool \<Rightarrow> nat \<Rightarrow> topic_split \<Rightarrow> spot_out" where
  "spot_out_new redis interval split =
     \<lparr>so_chan = chan_new redis, so_interval = interval, so_lasts = (\<lambda>_. None), so_split = split, so_mold = None, so_feed = []\<rparr>"

definition attach_mold :: "mold_publisher \<Rightarrow> spot_out \<Rightarrow> spot_out" where
  "attach_mold p st = st\<lparr>so_mold := Some p\<rparr>"

definition publish_mold :: "u8 \<Rightarrow> bytes \<Rightarrow> spot_out \<Rightarrow> spot_out" where
  "publish_mold tag body st =
     (case so_mold st of
        None \<Rightarrow> st
      | Some p \<Rightarrow> case publish_tagged tag body p of (p', dg) \<Rightarrow> st\<lparr>so_mold := Some p', so_feed := so_feed st @ [dg]\<rparr>)"

definition should_send_order_push :: "'d bb_order \<Rightarrow> match_event \<Rightarrow> bool" where
  "should_send_order_push taker ev =
     (case ev of
        FillEv _ _ _ taker_type maker_type _ _ _ _ _ _ \<Rightarrow> \<not> (taker_type = ORDER_ROBOT \<and> maker_type = ORDER_ROBOT)
      | RevokeEv _ _ _ _ \<Rightarrow> user_type taker \<noteq> ORDER_ROBOT)"

definition maker_type_of :: "match_event \<Rightarrow> int option" where
  "maker_type_of ev = (case ev of FillEv _ _ _ _ maker_type _ _ _ _ _ _ \<Rightarrow> Some maker_type | RevokeEv _ _ _ _ \<Rightarrow> None)"

text \<open>A payload that does not serialize is a panic, here \<^const>\<open>None\<close>.\<close>

definition send_market_entrust :: "'d out_env \<Rightarrow> 'd bb_order \<Rightarrow> spot_out \<Rightarrow> spot_out option" where
  "send_market_entrust env ord st =
     Option.bind (oe_json_order env [ord]) (\<lambda>body.
       Some (st\<lparr>so_chan := send_or_queue env (spot_push_market_topic (oe_b64 env) (symbol_key ord) False) body (so_chan st)\<rparr>))"

definition send_one_event :: "'d out_env \<Rightarrow> string \<Rightarrow> 'd bb_order \<Rightarrow> match_event \<Rightarrow> spot_out \<Rightarrow> spot_out option" where
  "send_one_event env symbol taker ev st =
     (let mm_suffix = uses_mm_suffix (so_split st) (coin_market taker) (user_type taker) (maker_type_of ev)
      in Option.bind (oe_json_push env [push_of_event ev]) (\<lambda>body.
           let st1 = st\<lparr>so_chan := send_or_queue env (spot_push_market_topic (oe_b64 env) symbol mm_suffix) body (so_chan st)\<rparr>;
               st2 = publish_mold MSG_TAG_FILL_ORDER body st1
           in Some (if should_send_order_push taker ev
                    then st2\<lparr>so_chan := send_or_queue env (spot_push_order_topic (oe_b64 env) symbol mm_suffix) body (so_chan st2)\<rparr>
                    else st2)))"

fun send_events :: "'d out_env \<Rightarrow> string \<Rightarrow> 'd bb_order \<Rightarrow> match_event list \<Rightarrow> spot_out \<Rightarrow> spot_out option" where
  "send_events env symbol taker [] st = Some st"
| "send_events env symbol taker (ev # evs) st =
     Option.bind (send_one_event env symbol taker ev st) (send_events env symbol taker evs)"

definition spot_maybe_push_depth ::
  "'d::linordered_idom out_env \<Rightarrow> nat \<Rightarrow> string \<Rightarrow> 'd core_engine \<Rightarrow> spot_out \<Rightarrow> spot_out option" where
  "spot_maybe_push_depth env now symbol e st =
     (if \<not> depth_due (so_interval st) now symbol (so_lasts st) then Some st
      else let st1 = st\<lparr>so_lasts := depth_mark (so_interval st) now symbol (so_lasts st)\<rparr>
           in Option.bind (oe_json_handicap env (spot_snapshot env symbol e)) (\<lambda>body.
                Some (publish_mold MSG_TAG_DEPTH body
                  (st1\<lparr>so_chan := send_or_queue env SPOT_PUSH_DEEPS body (send_or_queue env SPOT_PUSH_NO_DEAL body (so_chan st1))\<rparr>))))"

definition handle_order_result ::
  "'d::linordered_idom out_env \<Rightarrow> nat \<Rightarrow> string \<Rightarrow> 'd bb_order \<Rightarrow> match_event list \<Rightarrow> 'd core_engine \<Rightarrow> spot_out \<Rightarrow> spot_out option" where
  "handle_order_result env now symbol ord evs e st =
     Option.bind
       (if order_status ord \<noteq> ORDER_STATUS_REVOKE \<and> order_form ord \<noteq> ORDER_FORM_MARKET_PRICE
        then send_market_entrust env ord st else Some st)
       (\<lambda>st1. Option.bind (send_events env symbol ord evs st1) (spot_maybe_push_depth env now symbol e))"

section \<open>Contract\<close>

definition PUSH_ORDER_PREFIX :: string where "PUSH_ORDER_PREFIX = ''usdt_contract_match_order_push_order_''"
definition PUSH_MARKET_PREFIX :: string where "PUSH_MARKET_PREFIX = ''usdt_contract_match_market_push_order_''"
definition PUSH_NO_DEAL_PREFIX :: string where "PUSH_NO_DEAL_PREFIX = ''usdt_contract_match_market_push_no_deal_''"
definition PUSH_DEEPS_PREFIX :: string where "PUSH_DEEPS_PREFIX = ''usdt_contract_match_market_push_deeps_''"

definition push_order_topic :: "(string \<Rightarrow> string) \<Rightarrow> string \<Rightarrow> string" where
  "push_order_topic b64 key = PUSH_ORDER_PREFIX @ encode_symbol_key b64 key"

definition push_market_topic :: "(string \<Rightarrow> string) \<Rightarrow> string \<Rightarrow> string" where
  "push_market_topic b64 key = PUSH_MARKET_PREFIX @ encode_symbol_key b64 key"

definition push_no_deal_topic :: "(string \<Rightarrow> string) \<Rightarrow> string \<Rightarrow> string" where
  "push_no_deal_topic b64 key = PUSH_NO_DEAL_PREFIX @ encode_symbol_key b64 key"

definition push_deeps_topic :: "(string \<Rightarrow> string) \<Rightarrow> string \<Rightarrow> string" where
  "push_deeps_topic b64 key = PUSH_DEEPS_PREFIX @ encode_symbol_key b64 key"

record contract_out =
  ko_chan :: out_chan
  ko_interval :: nat
  ko_lasts :: "string \<Rightarrow> nat option"

definition contract_out_new :: "bool \<Rightarrow> nat \<Rightarrow> contract_out" where
  "contract_out_new redis interval = \<lparr>ko_chan = chan_new redis, ko_interval = interval, ko_lasts = (\<lambda>_. None)\<rparr>"

definition levels_to_dto :: "'d bigdec \<Rightarrow> ('d \<times> 'd) list \<Rightarrow> contract_level list" where
  "levels_to_dto bd levels = map (\<lambda>(price, qty). \<lparr>kl_price = bd_to_string bd price, kl_quantity = bd_to_string bd qty\<rparr>) levels"

definition contract_snapshot :: "'d::linordered_idom out_env \<Rightarrow> string \<Rightarrow> 'd core_engine \<Rightarrow> depth_snapshot" where
  "contract_snapshot env symbol e =
     \<lparr>ds_symbol = symbol, ds_bids = levels_to_dto (oe_bd env) (core_depth_levels e symbol BuySide DEPTH_LEVELS),
      ds_asks = levels_to_dto (oe_bd env) (core_depth_levels e symbol SellSide DEPTH_LEVELS)\<rparr>"

definition send_push_orders :: "'d out_env \<Rightarrow> string \<Rightarrow> push_order list \<Rightarrow> contract_out \<Rightarrow> contract_out" where
  "send_push_orders env symbol orders st =
     (case oe_json_push env orders of
        None \<Rightarrow> st
      | Some body \<Rightarrow>
          st\<lparr>ko_chan := send_or_queue env (push_market_topic (oe_b64 env) symbol) body
                          (send_or_queue env (push_order_topic (oe_b64 env) symbol) body (ko_chan st))\<rparr>)"

text \<open>\<open>maybe_push_depth\<close> with the snapshot it builds.\<close>

definition push_snapshot :: "'d out_env \<Rightarrow> nat \<Rightarrow> string \<Rightarrow> depth_snapshot \<Rightarrow> contract_out \<Rightarrow> contract_out" where
  "push_snapshot env now symbol snap st =
     (if \<not> depth_due (ko_interval st) now symbol (ko_lasts st) then st
      else let st1 = st\<lparr>ko_lasts := depth_mark (ko_interval st) now symbol (ko_lasts st)\<rparr>
           in case oe_json_snapshot env snap of
                None \<Rightarrow> st1
              | Some body \<Rightarrow>
                  st1\<lparr>ko_chan := send_or_queue env (push_deeps_topic (oe_b64 env) symbol) body
                                   (send_or_queue env (push_no_deal_topic (oe_b64 env) symbol) body (ko_chan st1))\<rparr>)"

definition handle_events ::
  "'d::linordered_idom out_env \<Rightarrow> nat \<Rightarrow> string \<Rightarrow> match_event list \<Rightarrow> 'd core_engine \<Rightarrow> contract_out \<Rightarrow> contract_out" where
  "handle_events env now symbol evs e st =
     (let push_batch = map push_of_event evs;
          st1 = (if push_batch \<noteq> [] then send_push_orders env symbol push_batch st else st)
      in push_snapshot env now symbol (contract_snapshot env symbol e) st1)"

text \<open>The same for the events of the tick engine, behind the feature \<open>hp-engine\<close>.\<close>

definition hp_status :: "int \<Rightarrow> int" where
  "hp_status open_lot = (if open_lot = 0 then ORDER_STATUS_SUCCESS else ORDER_STATUS_SUCCESS_PART)"

fun push_of_hp_event :: "symbol_scale \<Rightarrow> string \<Rightarrow> hp_event \<Rightarrow> push_order list" where
  "push_of_hp_event sc symbol (Fill _ _ maker_client taker_client price_tick qty_lot maker_open taker_open) =
     [\<lparr>po_symbol_key = symbol, po_trust_order_no = show_nat (int taker_client),
       po_target_order_no = Some (show_nat (int maker_client)), po_trust_price = from_tick sc price_tick,
       po_deal_price = Some (from_tick sc price_tick), po_remaining = from_lot sc taker_open,
       po_target_remaining = Some (from_lot sc maker_open), po_status = hp_status taker_open,
       po_target_status = Some (hp_status maker_open), po_current_deal = Some (from_lot sc qty_lot), po_reason = None\<rparr>]"
| "push_of_hp_event sc symbol (Revoke _ client reason) =
     [\<lparr>po_symbol_key = symbol, po_trust_order_no = show_nat (int client), po_target_order_no = None,
       po_trust_price = ''0'', po_deal_price = None, po_remaining = ''0'', po_target_remaining = None,
       po_status = ORDER_STATUS_REVOKE_SUCCESS, po_target_status = None, po_current_deal = None,
       po_reason = Some (if reason = 1 then ''market_remainder'' else ''cancel'')\<rparr>]"
| "push_of_hp_event sc symbol (Rest _ _ _ _ _) = []"

definition hp_snapshot :: "symbol_scale \<Rightarrow> string \<Rightarrow> hp_engine \<Rightarrow> depth_snapshot" where
  "hp_snapshot sc symbol e =
     (let dto = map (\<lambda>(tick, lot). \<lparr>kl_price = from_tick sc tick, kl_quantity = from_lot sc lot\<rparr>)
      in \<lparr>ds_symbol = symbol, ds_bids = dto (Hp_Book.depth (book e) Buy DEPTH_LEVELS),
          ds_asks = dto (Hp_Book.depth (book e) Sell DEPTH_LEVELS)\<rparr>)"

definition handle_hp_events ::
  "'d out_env \<Rightarrow> nat \<Rightarrow> string \<Rightarrow> hp_event list \<Rightarrow> hp_engine \<Rightarrow> symbol_scale \<Rightarrow> contract_out \<Rightarrow> contract_out" where
  "handle_hp_events env now symbol evs e sc st =
     (let push_batch = concat (map (push_of_hp_event sc symbol) evs);
          st1 = (if push_batch \<noteq> [] then send_push_orders env symbol push_batch st else st)
      in push_snapshot env now symbol (hp_snapshot sc symbol e) st1)"

end
