(* ===== verification/Outbound_Props.thy ===== *)
theory Outbound_Props
  imports Outbound
begin

text \<open>
  What the outbound paths owe for a result of the engine, written down without the functions
  of the code that select topics and build payloads, and the proof that the handlers send
  just this: what the broker takes, what it refuses and Redis keeps, and what is dropped.
\<close>

section \<open>Delivery\<close>

text \<open>What becomes of a list of messages: taken by the broker, or put into the error queue.\<close>

fun deliver :: "'d out_env \<Rightarrow> (string \<times> bytes) list \<Rightarrow> out_chan \<Rightarrow> out_chan" where
  "deliver env [] ch = ch"
| "deliver env ((topic, body) # ms) ch = deliver env ms (send_or_queue env topic body ch)"

definition taken :: "'d out_env \<Rightarrow> nat \<Rightarrow> (string \<times> bytes) list \<Rightarrow> (string \<times> bytes) list" where
  "taken env n ms = map snd (filter (\<lambda>(i, topic, body). oe_send env i topic body) (enumerate n ms))"

definition refused :: "'d out_env \<Rightarrow> nat \<Rightarrow> (string \<times> bytes) list \<Rightarrow> bytes list" where
  "refused env n ms = map (\<lambda>(i, topic, body). body) (filter (\<lambda>(i, topic, body). \<not> oe_send env i topic body) (enumerate n ms))"

text \<open>The refused bodies whose push Redis took, the first attempt having the number \<open>n\<close>.\<close>

definition kept :: "'d out_env \<Rightarrow> nat \<Rightarrow> bytes list \<Rightarrow> bytes list" where
  "kept env n bs = map snd (filter (\<lambda>(i, body). oe_lpush env i body) (enumerate n bs))"

text \<open>A message the broker refuses is in the queue, newest first, or gone: if there is no Redis, or
  if Redis refuses the push as well.\<close>

definition all_accounted :: "'d out_env \<Rightarrow> (string \<times> bytes) list \<Rightarrow> out_chan \<Rightarrow> out_chan \<Rightarrow> bool" where
  "all_accounted env ms ch ch' \<longleftrightarrow>
     o_sent ch' = o_sent ch @ taken env (o_tries ch) ms \<and>
     o_queue ch' = map_option (\<lambda>q. rev (kept env (o_pushes ch) (refused env (o_tries ch) ms)) @ q) (o_queue ch)"

lemma deliver_append [simp]: "deliver env (ms @ ns) ch = deliver env ns (deliver env ms ch)"
  by (induction env ms ch rule: deliver.induct) simp_all

lemma send_or_queue_fields [simp]:
  "o_sent (send_or_queue env topic body ch) = o_sent ch @ (if oe_send env (o_tries ch) topic body then [(topic, body)] else [])"
  "o_tries (send_or_queue env topic body ch) = Suc (o_tries ch)"
  "o_queue (send_or_queue env topic body ch) =
     (if oe_send env (o_tries ch) topic body then o_queue ch
      else map_option (\<lambda>q. if oe_lpush env (o_pushes ch) body then body # q else q) (o_queue ch))"
  "o_pushes (send_or_queue env topic body ch) =
     (if oe_send env (o_tries ch) topic body \<or> o_queue ch = None then o_pushes ch else Suc (o_pushes ch))"
  by (simp_all add: send_or_queue_def sink_send_def on_send_fail_def split: option.split)

lemma deliver_accounted: "all_accounted env ms ch (deliver env ms ch)"
proof (induction env ms ch rule: deliver.induct)
  case (2 env topic body ms ch)
  then show ?case
    by (cases "o_queue ch") (auto simp: all_accounted_def taken_def refused_def kept_def)
qed (simp add: all_accounted_def taken_def refused_def kept_def option.map_ident)

section \<open>What an event concerns\<close>

text \<open>The user types a result is about, and those that choose the topic.\<close>

definition event_parties :: "'d bb_order \<Rightarrow> match_event \<Rightarrow> int set" where
  "event_parties ord ev = (if is_FillEv ev then {e_taker_user_type ev, e_maker_user_type ev} else {user_type ord})"

definition topic_parties :: "'d bb_order \<Rightarrow> match_event \<Rightarrow> int set" where
  "topic_parties ord ev = insert (user_type ord) (if is_FillEv ev then {e_maker_user_type ev} else {})"

definition robots_only :: "'d bb_order \<Rightarrow> match_event \<Rightarrow> bool" where
  "robots_only ord ev \<longleftrightarrow> event_parties ord ev \<subseteq> {2}"

definition market_maker_topic :: "topic_split \<Rightarrow> 'd bb_order \<Rightarrow> match_event \<Rightarrow> bool" where
  "market_maker_topic split ord ev \<longleftrightarrow>
     1 \<notin> topic_parties ord ev \<and> (topic_enable split \<or> coin_market ord \<in> set (topic_coin_markets split))"

text \<open>The payload, field by field.\<close>

definition event_payload :: "match_event \<Rightarrow> push_order" where
  "event_payload ev =
     \<lparr>po_symbol_key = e_symbol ev,
      po_trust_order_no = (if is_FillEv ev then e_taker_order_no ev else e_order_no ev),
      po_target_order_no = (if is_FillEv ev then Some (e_maker_order_no ev) else None),
      po_trust_price = (if is_FillEv ev then e_price ev else ''0''),
      po_deal_price = (if is_FillEv ev then Some (e_price ev) else None),
      po_remaining = (if is_FillEv ev then e_taker_remaining ev else e_remaining ev),
      po_target_remaining = (if is_FillEv ev then Some (e_maker_remaining ev) else None),
      po_status = (if is_FillEv ev then e_taker_status ev else 4),
      po_target_status = (if is_FillEv ev then Some (e_maker_status ev) else None),
      po_current_deal = (if is_FillEv ev then Some (e_qty ev) else None),
      po_reason = (if is_FillEv ev then None else Some (e_reason ev))\<rparr>"

lemma push_of_event_is: "push_of_event ev = event_payload ev"
  by (cases ev) (simp_all add: event_payload_def ORDER_STATUS_REVOKE_SUCCESS_def)

text \<open>The same for the tick engine: the client numbers stand for the order numbers.\<close>

definition hp_payload :: "symbol_scale \<Rightarrow> string \<Rightarrow> hp_event \<Rightarrow> push_order" where
  "hp_payload sc symbol ev =
     (let fill = is_Fill ev; state = (\<lambda>open_lot. if open_lot = 0 then 1 else 2) in
     \<lparr>po_symbol_key = symbol,
      po_trust_order_no = show_nat (int (if fill then f_taker_client_id ev else v_client_id ev)),
      po_target_order_no = (if fill then Some (show_nat (int (f_maker_client_id ev))) else None),
      po_trust_price = (if fill then from_tick sc (f_price_tick ev) else ''0''),
      po_deal_price = (if fill then Some (from_tick sc (f_price_tick ev)) else None),
      po_remaining = (if fill then from_lot sc (f_taker_open_lot ev) else ''0''),
      po_target_remaining = (if fill then Some (from_lot sc (f_maker_open_lot ev)) else None),
      po_status = (if fill then state (f_taker_open_lot ev) else 4),
      po_target_status = (if fill then Some (state (f_maker_open_lot ev)) else None),
      po_current_deal = (if fill then Some (from_lot sc (f_qty_lot ev)) else None),
      po_reason = (if fill then None else Some (if v_reason ev = 1 then ''market_remainder'' else ''cancel''))\<rparr>)"

lemma push_of_hp_events_is:
  "concat (map (push_of_hp_event sc symbol) evs) = map (hp_payload sc symbol) (filter (\<lambda>ev. \<not> is_Rest ev) evs)"
proof (induction evs)
  case (Cons ev evs)
  then show ?case by (cases ev) (simp_all add: hp_payload_def hp_status_def order_constants ORDER_STATUS_REVOKE_SUCCESS_def Let_def)
qed simp

section \<open>What a call owes\<close>

definition serializes :: "'d out_env \<Rightarrow> bool" where
  "serializes env \<longleftrightarrow> (\<forall>x. oe_json_order env x \<noteq> None) \<and> (\<forall>x. oe_json_push env x \<noteq> None) \<and>
     (\<forall>x. oe_json_handicap env x \<noteq> None) \<and> (\<forall>x. oe_json_snapshot env x \<noteq> None)"

lemma serializesD:
  assumes "serializes env"
  shows "\<exists>b. oe_json_order env x = Some b" "\<exists>b. oe_json_push env y = Some b"
    "\<exists>b. oe_json_handicap env z = Some b" "\<exists>b. oe_json_snapshot env w = Some b"
  using assms unfolding serializes_def by (meson not_None_eq)+

text \<open>A depth snapshot is due unless one was sent for the symbol less than the interval ago.\<close>

definition snapshot_due :: "nat \<Rightarrow> nat \<Rightarrow> string \<Rightarrow> (string \<Rightarrow> nat option) \<Rightarrow> bool" where
  "snapshot_due interval now symbol lasts \<longleftrightarrow> interval = 0 \<or> (\<forall>prev. lasts symbol = Some prev \<longrightarrow> prev + interval \<le> now)"

lemma depth_due_is: "depth_due interval now symbol lasts = snapshot_due interval now symbol lasts"
  by (auto simp: depth_due_def snapshot_due_def split: option.split)

definition event_body :: "'d out_env \<Rightarrow> match_event \<Rightarrow> bytes" where
  "event_body env ev = the (oe_json_push env [event_payload ev])"

text \<open>The names of the spot topics.\<close>

definition market_name :: string where "market_name = ''contract_match_market_push_order_''"
definition order_name :: string where "order_name = ''contract_match_order_push_order_''"
definition no_deal_name :: string where "no_deal_name = ''contract_match_market_push_no_deal''"
definition deeps_name :: string where "deeps_name = ''contract_match_market_push_deeps''"

definition spot_topic :: "'d out_env \<Rightarrow> string \<Rightarrow> string \<Rightarrow> bool \<Rightarrow> string" where
  "spot_topic env name key mm = name @ encode_symbol_key (oe_b64 env) key @ (if mm then ''_mm'' else [])"

text \<open>An accepted order that is neither a revocation nor a market order is announced.\<close>

definition entrust_messages :: "'d out_env \<Rightarrow> 'd bb_order \<Rightarrow> (string \<times> bytes) list" where
  "entrust_messages env ord =
     (if order_status ord = 3 \<or> order_form ord = 2 then []
      else [(spot_topic env market_name (symbol_key ord) False, the (oe_json_order env [ord]))])"

text \<open>A fill or a revocation goes to the market, and to the order module unless only robots are concerned.\<close>

definition event_messages :: "'d out_env \<Rightarrow> topic_split \<Rightarrow> string \<Rightarrow> 'd bb_order \<Rightarrow> match_event \<Rightarrow> (string \<times> bytes) list" where
  "event_messages env split symbol ord ev =
     (let mm = market_maker_topic split ord ev
      in (spot_topic env market_name symbol mm, event_body env ev) #
         (if robots_only ord ev then []
          else [(spot_topic env order_name symbol mm, event_body env ev)]))"

definition handicap_body :: "'d::linordered_idom out_env \<Rightarrow> string \<Rightarrow> 'd core_engine \<Rightarrow> bytes" where
  "handicap_body env symbol e = the (oe_json_handicap env (spot_snapshot env symbol e))"

definition spot_messages ::
  "'d::linordered_idom out_env \<Rightarrow> nat \<Rightarrow> string \<Rightarrow> 'd bb_order \<Rightarrow> match_event list \<Rightarrow> 'd core_engine \<Rightarrow> spot_out \<Rightarrow> (string \<times> bytes) list" where
  "spot_messages env now symbol ord evs e st =
     entrust_messages env ord @ concat (map (event_messages env (so_split st) symbol ord) evs) @
     (if snapshot_due (so_interval st) now symbol (so_lasts st)
      then map (\<lambda>topic. (topic, handicap_body env symbol e)) [no_deal_name, deeps_name]
      else [])"

text \<open>The multicast feed: a tag byte and the body.\<close>

definition spot_feed ::
  "'d::linordered_idom out_env \<Rightarrow> nat \<Rightarrow> string \<Rightarrow> match_event list \<Rightarrow> 'd core_engine \<Rightarrow> spot_out \<Rightarrow> bytes list" where
  "spot_feed env now symbol evs e st =
     map (\<lambda>ev. 1 # event_body env ev) evs @
     (if snapshot_due (so_interval st) now symbol (so_lasts st) then [2 # handicap_body env symbol e] else [])"

text \<open>The contract service sends the events of a call as one batch.\<close>

definition contract_topic :: "'d out_env \<Rightarrow> string \<Rightarrow> string \<Rightarrow> string" where
  "contract_topic env name key = name @ encode_symbol_key (oe_b64 env) key"

definition contract_messages ::
  "'d::linordered_idom out_env \<Rightarrow> nat \<Rightarrow> string \<Rightarrow> push_order list \<Rightarrow> depth_snapshot \<Rightarrow> contract_out \<Rightarrow> (string \<times> bytes) list" where
  "contract_messages env now symbol batch snap st =
     (if batch = [] then []
      else map (\<lambda>name. (contract_topic env name symbol, the (oe_json_push env batch)))
             [''usdt_contract_match_order_push_order_'', ''usdt_contract_match_market_push_order_'']) @
     (if snapshot_due (ko_interval st) now symbol (ko_lasts st)
      then map (\<lambda>name. (contract_topic env name symbol, the (oe_json_snapshot env snap)))
             [''usdt_contract_match_market_push_no_deal_'', ''usdt_contract_match_market_push_deeps_''] else [])"

fun publish_run :: "bytes list \<Rightarrow> mold_publisher \<Rightarrow> mold_publisher \<times> bytes list" where
  "publish_run [] p = (p, [])"
| "publish_run (m # ms) p =
     (case publish m p of (p1, dg) \<Rightarrow> case publish_run ms p1 of (p2, dgs) \<Rightarrow> (p2, dg # dgs))"

lemma publish_run_append:
  "publish_run (ms @ ns) p =
     (case publish_run ms p of (p1, ds) \<Rightarrow> case publish_run ns p1 of (p2, es) \<Rightarrow> (p2, ds @ es))"
  by (induction ms p rule: publish_run.induct) (simp_all split: prod.splits)

section \<open>The code selects the same\<close>

lemma should_send_is: "should_send_order_push ord ev \<longleftrightarrow> \<not> robots_only ord ev"
  by (cases ev) (auto simp: should_send_order_push_def robots_only_def event_parties_def ORDER_ROBOT_def)

lemma uses_mm_is: "uses_mm_suffix split (coin_market ord) (user_type ord) (maker_type_of ev) \<longleftrightarrow> market_maker_topic split ord ev"
  by (cases ev) (auto simp: uses_mm_suffix_def maker_type_of_def market_maker_topic_def topic_parties_def SPOT_ORDER_USER_def list_ex_iff)

lemma spot_topics_are:
  "spot_push_market_topic (oe_b64 env) key mm = spot_topic env market_name key mm"
  "spot_push_order_topic (oe_b64 env) key mm = spot_topic env order_name key mm"
  by (simp_all add: spot_push_market_topic_def spot_push_order_topic_def spot_topic_def SPOT_PUSH_MARKET_PREFIX_def
      SPOT_PUSH_ORDER_PREFIX_def SPOT_PULL_ORDER_MM_SUFFIX_def market_name_def order_name_def)

lemma plain_topics_are: "SPOT_PUSH_NO_DEAL = no_deal_name" "SPOT_PUSH_DEEPS = deeps_name"
  by (simp_all add: SPOT_PUSH_NO_DEAL_def SPOT_PUSH_DEEPS_def no_deal_name_def deeps_name_def)

lemma contract_topics_are:
  "push_order_topic (oe_b64 env) key = contract_topic env ''usdt_contract_match_order_push_order_'' key"
  "push_market_topic (oe_b64 env) key = contract_topic env ''usdt_contract_match_market_push_order_'' key"
  "push_no_deal_topic (oe_b64 env) key = contract_topic env ''usdt_contract_match_market_push_no_deal_'' key"
  "push_deeps_topic (oe_b64 env) key = contract_topic env ''usdt_contract_match_market_push_deeps_'' key"
  by (simp_all add: push_order_topic_def push_market_topic_def push_no_deal_topic_def push_deeps_topic_def contract_topic_def
      PUSH_ORDER_PREFIX_def PUSH_MARKET_PREFIX_def PUSH_NO_DEAL_PREFIX_def PUSH_DEEPS_PREFIX_def)

lemmas code_selects = push_of_event_is should_send_is uses_mm_is spot_topics_are depth_due_is

section \<open>The handlers send just these\<close>

text \<open>\<open>ms\<close> went to the broker and \<open>fs\<close> to the feed.\<close>

definition moves :: "'d out_env \<Rightarrow> (string \<times> bytes) list \<Rightarrow> bytes list \<Rightarrow> spot_out \<Rightarrow> spot_out \<Rightarrow> bool" where
  "moves env ms fs st st' \<longleftrightarrow>
     so_chan st' = deliver env ms (so_chan st) \<and> so_split st' = so_split st \<and> so_interval st' = so_interval st \<and>
     so_mold st' = map_option (\<lambda>p. fst (publish_run fs p)) (so_mold st) \<and>
     so_feed st' = so_feed st @ (case so_mold st of None \<Rightarrow> [] | Some p \<Rightarrow> snd (publish_run fs p))"

lemma moves_trans: "moves env ms fs a b \<Longrightarrow> moves env ns gs b c \<Longrightarrow> moves env (ms @ ns) (fs @ gs) a c"
  by (auto simp: moves_def publish_run_append split: option.splits prod.splits)

lemma moves_refl: "moves env [] [] st st"
  by (simp add: moves_def option.map_ident split: option.split)

lemma publish_mold_fields [simp]:
  "so_chan (publish_mold tag body st) = so_chan st" "so_split (publish_mold tag body st) = so_split st"
  "so_interval (publish_mold tag body st) = so_interval st" "so_lasts (publish_mold tag body st) = so_lasts st"
  by (simp_all add: publish_mold_def split: option.split prod.split)

lemma entrust_moves:
  assumes "serializes env"
  shows "\<exists>st1. (if order_status ord \<noteq> ORDER_STATUS_REVOKE \<and> order_form ord \<noteq> ORDER_FORM_MARKET_PRICE
      then send_market_entrust env ord st else Some st) = Some st1 \<and>
    moves env (entrust_messages env ord) [] st st1 \<and> so_lasts st1 = so_lasts st"
  using serializesD(1) [OF assms, of "[ord]"]
  by (auto simp: send_market_entrust_def entrust_messages_def moves_def option.map_ident order_constants code_selects split: option.splits)

lemma event_moves:
  assumes "serializes env"
  shows "\<exists>st1. send_one_event env symbol ord ev st = Some st1 \<and>
    moves env (event_messages env (so_split st) symbol ord ev) [1 # event_body env ev] st st1 \<and>
    so_lasts st1 = so_lasts st"
proof -
  obtain body where "oe_json_push env [event_payload ev] = Some body" using serializesD(2) [OF assms] by blast
  then show ?thesis
    by (auto simp: send_one_event_def event_messages_def event_body_def moves_def Let_def publish_mold_def publish_tagged_def code_selects
        MSG_TAG_FILL_ORDER_def split: option.split prod.split)
qed

lemma events_moves:
  assumes "serializes env"
  shows "\<exists>st1. send_events env symbol ord evs st = Some st1 \<and>
    moves env (concat (map (event_messages env (so_split st) symbol ord) evs)) (map (\<lambda>ev. 1 # event_body env ev) evs) st st1 \<and>
    so_lasts st1 = so_lasts st"
proof (induction evs arbitrary: st)
  case Nil
  then show ?case by (simp add: moves_refl)
next
  case (Cons ev evs)
  obtain st1 where 1: "send_one_event env symbol ord ev st = Some st1"
    "moves env (event_messages env (so_split st) symbol ord ev) [1 # event_body env ev] st st1" "so_lasts st1 = so_lasts st"
    using event_moves [OF assms] by blast
  moreover obtain st2 where 2: "send_events env symbol ord evs st1 = Some st2" "so_lasts st2 = so_lasts st1"
    "moves env (concat (map (event_messages env (so_split st1) symbol ord) evs)) (map (\<lambda>ev. 1 # event_body env ev) evs) st1 st2"
    using Cons.IH by blast
  moreover have "so_split st1 = so_split st" using 1(2) by (simp add: moves_def)
  ultimately show ?case using moves_trans [OF 1(2) 2(3)] by simp
qed

lemma depth_moves:
  assumes "serializes env"
  shows "\<exists>st1. spot_maybe_push_depth env now symbol e st = Some st1 \<and>
    (if snapshot_due (so_interval st) now symbol (so_lasts st)
     then moves env (map (\<lambda>topic. (topic, handicap_body env symbol e)) [no_deal_name, deeps_name]) [2 # handicap_body env symbol e] st st1 \<and>
       so_lasts st1 = depth_mark (so_interval st) now symbol (so_lasts st)
     else st1 = st)"
proof -
  obtain body where "oe_json_handicap env (spot_snapshot env symbol e) = Some body" using serializesD(3) [OF assms] by blast
  then show ?thesis
    by (auto simp: spot_maybe_push_depth_def handicap_body_def moves_def Let_def publish_mold_def publish_tagged_def code_selects
        MSG_TAG_DEPTH_def plain_topics_are split: option.split prod.split)
qed

lemma order_result_moves:
  assumes "serializes env"
  shows "\<exists>st'. handle_order_result env now symbol ord evs e st = Some st' \<and>
    moves env (spot_messages env now symbol ord evs e st) (spot_feed env now symbol evs e st) st st'"
proof -
  obtain st1 where 1: "(if order_status ord \<noteq> ORDER_STATUS_REVOKE \<and> order_form ord \<noteq> ORDER_FORM_MARKET_PRICE
      then send_market_entrust env ord st else Some st) = Some st1"
    "moves env (entrust_messages env ord) [] st st1" "so_lasts st1 = so_lasts st" using entrust_moves [OF assms] by blast
  obtain st2 where 2: "send_events env symbol ord evs st1 = Some st2" "so_lasts st2 = so_lasts st1"
    "moves env (concat (map (event_messages env (so_split st1) symbol ord) evs)) (map (\<lambda>ev. 1 # event_body env ev) evs) st1 st2"
    using events_moves [OF assms] by blast
  have keep: "so_split st1 = so_split st" "so_interval st2 = so_interval st" using 1(2) 2(3) by (simp_all add: moves_def)
  note m = moves_trans [OF 1(2) 2(3)]
  obtain st3 where 3: "spot_maybe_push_depth env now symbol e st2 = Some st3"
    "if snapshot_due (so_interval st2) now symbol (so_lasts st2)
     then moves env (map (\<lambda>topic. (topic, handicap_body env symbol e)) [no_deal_name, deeps_name]) [2 # handicap_body env symbol e] st2 st3 \<and>
       so_lasts st3 = depth_mark (so_interval st2) now symbol (so_lasts st2)
     else st3 = st2" using depth_moves [OF assms] by blast
  have "handle_order_result env now symbol ord evs e st = Some st3"
    using 1(1) 2(1) 3(1) by (simp add: handle_order_result_def)
  moreover have "moves env (spot_messages env now symbol ord evs e st) (spot_feed env now symbol evs e st) st st3"
    using m moves_trans [OF m, of _ _ st3] 3(2) keep 1(3) 2(2) by (auto simp: spot_messages_def spot_feed_def split: if_splits)
  ultimately show ?thesis by blast
qed

lemma contract_sends:
  assumes "serializes env"
  shows "ko_chan (push_snapshot env now symbol snap (if batch \<noteq> [] then send_push_orders env symbol batch st else st)) =
    deliver env (contract_messages env now symbol batch snap st) (ko_chan st)"
proof -
  obtain b c where "oe_json_push env batch = Some b" "oe_json_snapshot env snap = Some c" using serializesD(2,4) [OF assms] by meson
  then show ?thesis
    unfolding push_snapshot_def send_push_orders_def contract_messages_def contract_topics_are depth_due_is Let_def
    by (cases "batch = []"; cases "snapshot_due (ko_interval st) now symbol (ko_lasts st)") simp_all
qed

lemma contract_events_sent:
  assumes "serializes env"
  shows "ko_chan (handle_events env now symbol evs e ct) =
    deliver env (contract_messages env now symbol (map event_payload evs) (contract_snapshot env symbol e) ct) (ko_chan ct)"
proof -
  have "map push_of_event evs = map event_payload evs" by (simp add: push_of_event_is)
  then show ?thesis unfolding handle_events_def Let_def by (simp only: contract_sends [OF assms])
qed

lemma contract_hp_events_sent:
  assumes "serializes env"
  shows "ko_chan (handle_hp_events env now symbol hevs he sc ct) =
    deliver env (contract_messages env now symbol (map (hp_payload sc symbol) (filter (\<lambda>ev. \<not> is_Rest ev) hevs)) (hp_snapshot sc symbol he) ct)
      (ko_chan ct)"
  unfolding handle_hp_events_def Let_def push_of_hp_events_is by (rule contract_sends [OF assms])

text \<open>Between two depth pushes of a symbol the interval passes.\<close>

lemma depth_spacing: "0 < interval \<Longrightarrow> depth_due interval now symbol (depth_mark interval before symbol lasts) \<longleftrightarrow> before + interval \<le> now"
  by (auto simp: depth_due_def depth_mark_def)

section \<open>Property\<close>


definition out_demo :: "int out_env" where
  "out_demo =
     \<lparr>oe_bd = \<lparr>bd_div = (div), bd_scale_16_half_down = id, bd_normalized = id, bd_to_string = show_nat\<rparr>,
      oe_parse = (\<lambda>_. None), oe_b64 = id, oe_json_order = (\<lambda>_. Some [1]), oe_json_push = (\<lambda>ps. Some [2]),
      oe_json_handicap = (\<lambda>_. Some [3]), oe_json_snapshot = (\<lambda>_. Some [4]), oe_send = (\<lambda>n _ _. n \<noteq> 1 \<and> n \<noteq> 3), oe_lpush = (\<lambda>n _. n = 0)\<rparr>"

definition out_demo_fill :: match_event where
  "out_demo_fill = FillEv ''btcusdt'' ''b1'' ''a1'' 1 2 ''100'' ''5'' ''0'' ''0'' 1 1"


end
