(* ===== verification/Spot_Depth.thy ===== *)
theory Spot_Depth
  imports Outbound
begin

text \<open>
  The depth of the spot service (\<open>crates/match-spot/src/spot_depth.rs\<close>) against its definition by
  grouping.  The loop works on decimal text: it compares prices as strings and adds quantities
  by parsing them back, so the round trip of decimals through text is a hypothesis.
\<close>

definition decimal_text :: "'d out_env \<Rightarrow> bool" where
  "decimal_text env \<longleftrightarrow> (\<forall>x. oe_parse env (spot_dec_str (oe_bd env) x) = Some x)"

definition n_prices :: "'d bb_order list \<Rightarrow> nat" where
  "n_prices xs = length (remdups_adj (map trust_price xs))"

text \<open>The level of a price: what the orders of the list at this price have traded and have open.\<close>

definition text_level :: "'d::linordered_idom bigdec \<Rightarrow> 'd bb_order list \<Rightarrow> 'd \<Rightarrow> depth_level" where
  "text_level bd xs p =
     (let at = filter (\<lambda>x. trust_price x = p) xs in
      \<lparr>dl_price = spot_dec_str bd p, dl_volume = spot_dec_str bd (sum_list (map consumer_all_number at)),
       dl_quantity = spot_dec_str bd (sum_list (map remaining_number at))\<rparr>)"

definition text_levels :: "'d::linordered_idom bigdec \<Rightarrow> 'd bb_order list \<Rightarrow> depth_level list" where
  "text_levels bd xs = map (text_level bd xs) (remdups_adj (map trust_price xs))"

section \<open>One more order\<close>

lemma dec_str_inj: "decimal_text env \<Longrightarrow> spot_dec_str (oe_bd env) x = spot_dec_str (oe_bd env) y \<longleftrightarrow> x = y"
  by (metis decimal_text_def option.inject)

lemma merge_text_is: "decimal_text env \<Longrightarrow>
  merge_text env (spot_dec_str (oe_bd env) x) (spot_dec_str (oe_bd env) y) = spot_dec_str (oe_bd env) (x + y)"
  by (simp add: decimal_text_def merge_text_def)

lemma text_level_other: "p \<noteq> trust_price x \<Longrightarrow> text_level bd (xs @ [x]) p = text_level bd xs p"
  by (simp add: text_level_def)

lemma text_level_same:
  assumes "decimal_text env"
  shows "text_level (oe_bd env) (xs @ [x]) (trust_price x) =
    merge_same_price_level env (text_level (oe_bd env) xs (trust_price x)) (level_of_order (oe_bd env) x)"
  by (simp add: text_level_def Let_def merge_same_price_level_def level_of_order_def merge_text_is [OF assms])

lemma text_level_new:
  assumes "trust_price x \<notin> trust_price ` set xs"
  shows "text_level bd (xs @ [x]) (trust_price x) = level_of_order bd x"
proof -
  have "filter (\<lambda>y. trust_price y = trust_price x) xs = []" by (intro filter_False ballI) (metis assms imageI)
  then show ?thesis by (simp add: text_level_def level_of_order_def)
qed

lemma last_text_levels:
  "xs \<noteq> [] \<Longrightarrow> text_levels bd xs \<noteq> [] \<and> last (text_levels bd xs) = text_level bd xs (trust_price (last xs))"
  by (simp add: text_levels_def last_map last_remdups_adj)

lemma text_levels_snoc:
  assumes "decimal_text env" and "sorted_wrt (\<lambda>a b. cmp_of s a b = Less) (xs @ [x])"
  shows "text_levels (oe_bd env) (xs @ [x]) =
    (if xs \<noteq> [] \<and> trust_price (last xs) = trust_price x
     then butlast (text_levels (oe_bd env) xs) @ [merge_same_price_level env (last (text_levels (oe_bd env) xs)) (level_of_order (oe_bd env) x)]
     else text_levels (oe_bd env) xs @ [level_of_order (oe_bd env) x])"
proof -
  let ?ps = "remdups_adj (map trust_price xs)"
  have d: "distinct ?ps" using distinct_blocks [of s xs] assms(2) by (simp add: sorted_wrt_append)
  show ?thesis
  proof (cases "xs \<noteq> [] \<and> trust_price (last xs) = trust_price x")
    case True
    then have "last ?ps = trust_price x" "?ps \<noteq> []" by (auto simp: last_remdups_adj last_map)
    then obtain qs where qs: "?ps = qs @ [trust_price x]" by (metis append_butlast_last_id)
    then have "trust_price x \<notin> set qs" using d by simp
    then have "map (text_level (oe_bd env) (xs @ [x])) qs = map (text_level (oe_bd env) xs) qs"
      by (intro map_cong [OF refl] text_level_other) auto
    then show ?thesis
      using True qs last_text_levels [of xs "oe_bd env"] text_level_same [OF assms(1), of xs x]
      by (simp add: text_levels_def remdups_adj_snoc last_map)
  next
    case False
    then have new: "trust_price x \<notin> trust_price ` set xs" by (rule price_new [OF assms(2)])
    then have "map (text_level (oe_bd env) (xs @ [x])) ?ps = map (text_level (oe_bd env) xs) ?ps"
      by (intro map_cong [OF refl] text_level_other) (metis list.set_map remdups_adj_set)
    then show ?thesis using False text_level_new [OF new] by (auto simp: text_levels_def remdups_adj_snoc last_map)
  qed
qed

section \<open>The loop\<close>

lemma build_levels_step:
  assumes "decimal_text env" and "sorted_wrt (\<lambda>a b. cmp_of s a b = Less) (xs @ [x])" and "0 < remaining_number x" and "n_prices xs < lim"
  shows "build_levels env lim (x # ys) (text_levels (oe_bd env) xs) t =
    build_levels env lim ys (text_levels (oe_bd env) (xs @ [x])) (t + trust_number x)"
proof -
  have len: "length (text_levels (oe_bd env) xs) < lim" using assms(4) by (simp add: text_levels_def n_prices_def)
  have "text_levels (oe_bd env) xs \<noteq> [] \<and> dl_price (last (text_levels (oe_bd env) xs)) = dl_price (level_of_order (oe_bd env) x) \<longleftrightarrow>
      xs \<noteq> [] \<and> trust_price (last xs) = trust_price x"
    using last_text_levels [of xs "oe_bd env"] dec_str_inj [OF assms(1)]
    by (cases "xs = []") (auto simp: text_level_def level_of_order_def text_levels_def Let_def)
  then show ?thesis using len assms(3) text_levels_snoc [OF assms(1,2)] by (simp add: Let_def)
qed

lemma build_levels_visits:
  assumes "decimal_text env"
  shows "sorted_wrt (\<lambda>a b. cmp_of s a b = Less) (xs @ ys) \<Longrightarrow> list_all (\<lambda>y. 0 < remaining_number y) ys \<Longrightarrow>
    \<exists>n \<le> length ys. (\<forall>m < n. n_prices (xs @ take m ys) < lim) \<and> (n = length ys \<or> lim \<le> n_prices (xs @ take n ys)) \<and>
      build_levels env lim ys (text_levels (oe_bd env) xs) (sum_list (map trust_number xs)) =
        (text_levels (oe_bd env) (xs @ take n ys), sum_list (map trust_number (xs @ take n ys)))"
proof (induction ys arbitrary: xs)
  case (Cons y ys)
  show ?case
  proof (cases "n_prices xs < lim")
    case True
    obtain n where n: "n \<le> length ys" "\<forall>m < n. n_prices ((xs @ [y]) @ take m ys) < lim" "n = length ys \<or> lim \<le> n_prices ((xs @ [y]) @ take n ys)"
      "build_levels env lim ys (text_levels (oe_bd env) (xs @ [y])) (sum_list (map trust_number (xs @ [y]))) =
        (text_levels (oe_bd env) ((xs @ [y]) @ take n ys), sum_list (map trust_number ((xs @ [y]) @ take n ys)))"
      using Cons.IH [of "xs @ [y]"] Cons.prems by auto
    have s: "sorted_wrt (\<lambda>a b. cmp_of s a b = Less) (xs @ [y])" "0 < remaining_number y"
      using Cons.prems by (auto simp: sorted_wrt_append)
    have "n_prices (xs @ take m (y # ys)) < lim" if "m < Suc n" for m
      using that True n(2) by (cases m) auto
    then show ?thesis
      using n build_levels_step [OF assms s True, of ys "sum_list (map trust_number xs)"]
      by (intro exI [of _ "Suc n"]) (auto simp: add.assoc)
  next
    case False
    then show ?thesis by (intro exI [of _ 0]) (simp add: n_prices_def text_levels_def)
  qed
qed (auto intro: exI [of _ 0])

lemma n_prices_snoc: "n_prices (xs @ [x]) \<le> Suc (n_prices xs)"
  by (simp add: n_prices_def remdups_adj_snoc)

section \<open>Property\<close>

text \<open>An environment for the witness: whole numbers in unary, and two sells at one price.\<close>

definition unary_dec :: "int bigdec" where
  "unary_dec = \<lparr>bd_div = (div), bd_scale_16_half_down = id, bd_normalized = id,
     bd_to_string = (\<lambda>x. if x < 0 then CHR ''-'' # replicate (nat (- x)) CHR ''1'' else replicate (nat x) CHR ''1'')\<rparr>"

definition unary_env :: "int out_env" where
  "unary_env = \<lparr>oe_bd = unary_dec,
     oe_parse = (\<lambda>t. case t of [] \<Rightarrow> Some 0 | c # cs \<Rightarrow> if c = CHR ''-'' then Some (- int (length cs)) else Some (int (length t))),
     oe_b64 = id, oe_json_order = (\<lambda>_. Some []), oe_json_push = (\<lambda>_. Some []), oe_json_handicap = (\<lambda>_. Some []),
     oe_json_snapshot = (\<lambda>_. Some []), oe_send = (\<lambda>_ _ _. True), oe_lpush = (\<lambda>_ _. True)\<rparr>"

definition two_sells :: "int bb_order list" where
  "two_sells = [test_limit SellSide 1 ''a'' 1 2, test_limit SellSide 1 ''b'' 2 3]"

definition two_sells_engine :: "int core_engine" where
  "two_sells_engine = (case core_run unary_dec two_sells core_engine_new of Some e \<Rightarrow> e | None \<Rightarrow> core_engine_new)"

lemma unary_env_text: "decimal_text unary_env"
proof -
  have "oe_parse unary_env (spot_dec_str (oe_bd unary_env) x) = Some x" for x
    by (cases "nat x") (auto simp: unary_env_def unary_dec_def spot_dec_str_def)
  then show ?thesis by (simp add: decimal_text_def)
qed

lemma two_sells_reach: "core_reach (oe_bd unary_env) two_sells_engine"
proof -
  have "list_all accepted two_sells" by code_simp
  from core_run_reach [OF core_reach_new this, of unary_dec] show ?thesis by (auto simp: two_sells_engine_def unary_env_def)
qed

text \<open>
  C32. The depth of a side, for decimals that survive the way through text and back: the loop
  visits the shortest prefix of the resting orders that has \<open>lim\<close> prices, or all of them, and
  gives one level for each price of this prefix, best first, with the total traded and open
  quantity of the visited orders at it, and the sum of their quantities.  Of the last price it
  thus counts only the first order if the limit is reached.
\<close>
theorem spot_depth_levels:
  assumes "core_reach (oe_bd env) e" and "decimal_text env" and "ys = core_resting_orders e sy s"
  shows "\<exists>n \<le> length ys. (\<forall>m < n. n_prices (take m ys) < lim) \<and> (n = length ys \<or> n_prices (take n ys) = lim) \<and>
    build_depth_levels env ys lim = (text_levels (oe_bd env) (take n ys), sum_list (map trust_number (take n ys)))"
proof -
  have "side_ok s (side_list (book_of e sy) s)" using core_reach_book [OF assms(1), of sy] ob_inv_sides [of _ s] by blast
  then have ok: "sorted_wrt (\<lambda>a b. cmp_of s a b = Less) ys" "list_all (\<lambda>y. 0 < remaining_number y) ys"
    using assms(3)
    by (auto simp: core_resting_orders_def resting_orders_def book_of_def ob_new_def side_list_def side_ok_def in_order_def order_live_def
        list_all_iff split: option.splits bside.splits)
  obtain n where n: "n \<le> length ys" "\<forall>m < n. n_prices (take m ys) < lim" "n = length ys \<or> lim \<le> n_prices (take n ys)"
    "build_levels env lim ys (text_levels (oe_bd env) []) 0 = (text_levels (oe_bd env) (take n ys), sum_list (map trust_number (take n ys)))"
    using build_levels_visits [OF assms(2), of s "[]" ys lim] ok by auto
  have "n = length ys \<or> n_prices (take n ys) = lim"
  proof (cases n)
    case (Suc m)
    have "n_prices (take n ys) \<le> Suc (n_prices (take m ys))"
      using n_prices_snoc [of "take m ys" "ys ! m"] n(1) Suc by (simp add: take_Suc_conv_app_nth)
    then show ?thesis using n(2,3) Suc by fastforce
  qed (use n(3) in \<open>auto simp: n_prices_def\<close>)
  then show ?thesis using n by (intro exI [of _ n]) (simp add: build_depth_levels_def text_levels_def)
qed

theorem spot_depth_levels_witness:
  "build_depth_levels unary_env (core_resting_orders two_sells_engine ''btcusdt'' SellSide) 1 =
     ([\<lparr>dl_price = ''1'', dl_volume = [], dl_quantity = ''11''\<rparr>], 2)"
proof -
  let ?ys = "core_resting_orders two_sells_engine ''btcusdt'' SellSide"
  have c: "length ?ys = 2" "n_prices (take 1 ?ys) = 1" "n_prices (take 0 ?ys) = 0" "sum_list (map trust_number (take 1 ?ys)) = 2"
    "text_levels (oe_bd unary_env) (take 1 ?ys) = [\<lparr>dl_price = ''1'', dl_volume = [], dl_quantity = ''11''\<rparr>]"
    by code_simp+
  obtain n where n: "n \<le> 2" "\<forall>m < n. n_prices (take m ?ys) < 1" "n = 2 \<or> n_prices (take n ?ys) = 1"
    "build_depth_levels unary_env ?ys 1 = (text_levels (oe_bd unary_env) (take n ?ys), sum_list (map trust_number (take n ?ys)))"
    using spot_depth_levels [OF two_sells_reach unary_env_text refl, of "''btcusdt''" SellSide 1] unfolding c(1) by blast
  have "n \<noteq> 0" using n(3) c(3) by (intro notI) simp
  moreover have "n \<noteq> 2" using spec [OF n(2), of 1] c(2) by (intro notI) simp
  ultimately have "n = 1" using n(1) by linarith
  then show ?thesis using n(4) c(4,5) by simp
qed

end
