(* ===== verification/Symbol_Worker.thy ===== *)
theory Symbol_Worker
  imports Outbound_Props Inbound_Props Hp_Props
begin

text \<open>
  The workers behind the queues: \<open>symbol_worker.rs\<close> of \<open>crates/match-spot\<close> and
  \<open>crates/match-contract\<close>, and the boundary to the tick engine,
  \<open>crates/match-core-hp/src/adapter.rs\<close>.

  A worker is a run over the orders it receives, each with the clock at which it is handled.
  The result \<^const>\<open>None\<close> is a worker that panics or never gets back to its queue.
  No operation of the decimal engine panics, so the arm that logs a caught panic has no
  counterpart.
\<close>

section \<open>Adapter\<close>

datatype adapter_error =
    AdapterScale scale_error | UnsupportedSide | UnsupportedForm | InvalidOrderId | InvalidTimestamp | InvalidGear

text \<open>\<open>str::parse\<close> at the type \<open>u64\<close>: an optional plus sign and digits.\<close>

definition parse_id :: "string \<Rightarrow> adapter_error + nat" where
  "parse_id s =
     (let ds = (if s \<noteq> [] \<and> hd s = CHR ''+'' then tl s else s)
      in if ds \<noteq> [] \<and> list_all is_digit ds \<and> digits_num ds < 2 ^ 64 then Inr (nat (digits_num ds)) else Inl InvalidOrderId)"

definition decimal_to_tick :: "'d bigdec \<Rightarrow> symbol_scale \<Rightarrow> 'd \<Rightarrow> adapter_error + int" where
  "decimal_to_tick bd sc d = (case to_tick sc (bd_to_string bd (bd_normalized bd d)) of Inl e \<Rightarrow> Inl (AdapterScale e) | Inr t \<Rightarrow> Inr t)"

definition decimal_to_lot :: "'d bigdec \<Rightarrow> symbol_scale \<Rightarrow> 'd \<Rightarrow> adapter_error + int" where
  "decimal_to_lot bd sc d = (case to_lot sc (bd_to_string bd (bd_normalized bd d)) of Inl e \<Rightarrow> Inl (AdapterScale e) | Inr t \<Rightarrow> Inr t)"

definition hp_side :: "int \<Rightarrow> adapter_error + side" where
  "hp_side t = (if t = 1 then Inr Buy else if t = 2 then Inr Sell else Inl UnsupportedSide)"

definition from_bb_order :: "'d bigdec \<Rightarrow> symbol_scale \<Rightarrow> 'd bb_order \<Rightarrow> adapter_error + hp_command" where
  "from_bb_order bd sc ord =
     (if order_status ord = ORDER_STATUS_REVOKE then
        (case parse_id (trust_order_no ord) of Inl er \<Rightarrow> Inl er | Inr oid \<Rightarrow> Inr (Cancel oid))
      else case hp_side (order_type ord) of
        Inl er \<Rightarrow> Inl er
      | Inr s \<Rightarrow>
          if create_time ord < 0 then Inl InvalidTimestamp
          else case parse_id (trust_order_no ord) of
            Inl er \<Rightarrow> Inl er
          | Inr client \<Rightarrow> (case decimal_to_lot bd sc (remaining_number ord) of
              Inl er \<Rightarrow> Inl er
            | Inr qty_lot \<Rightarrow>
                if order_form ord = ORDER_FORM_LIMIT then
                  (case decimal_to_tick bd sc (trust_price ord) of
                     Inl er \<Rightarrow> Inl er
                   | Inr price_tick \<Rightarrow> Inr (Limit s price_tick qty_lot (nat (create_time ord)) client))
                else if order_form ord = ORDER_FORM_MARKET_PRICE then
                  (case gear ord of
                     Some g \<Rightarrow> if g \<ge> 1 then Inr (Market s qty_lot (nat (create_time ord)) (Some (nat (g mod 2 ^ 32))) client)
                               else Inl InvalidGear
                   | None \<Rightarrow> Inl InvalidGear)
                else Inl UnsupportedForm))"

section \<open>Workers\<close>

text \<open>The loop \<open>while let Some(order) = rx.recv().await\<close> over a step.\<close>

fun work :: "('i \<Rightarrow> 'e \<Rightarrow> 's \<Rightarrow> ('e \<times> 's) option) \<Rightarrow> 'i list \<Rightarrow> 'e \<Rightarrow> 's \<Rightarrow> ('e \<times> 's) option" where
  "work f [] e st = Some (e, st)"
| "work f (i # is) e st = (case f i e st of None \<Rightarrow> None | Some (e', st') \<Rightarrow> work f is e' st')"

definition spot_step ::
  "'d::linordered_idom out_env \<Rightarrow> string \<Rightarrow> nat \<times> 'd bb_order \<Rightarrow> 'd core_engine \<Rightarrow> spot_out \<Rightarrow> ('d core_engine \<times> spot_out) option" where
  "spot_step env symbol i e st =
     (case i of (now, ord) \<Rightarrow>
        (case core_on_order (oe_bd env) ord e of
           None \<Rightarrow> None
         | Some (e', evs) \<Rightarrow> map_option (Pair e') (handle_order_result env now symbol ord evs e' st)))"

definition spot_worker ::
  "'d::linordered_idom out_env \<Rightarrow> string \<Rightarrow> (nat \<times> 'd bb_order) list \<Rightarrow> spot_out \<Rightarrow> ('d core_engine \<times> spot_out) option" where
  "spot_worker env symbol ords st = work (spot_step env symbol) ords core_engine_new st"

definition contract_step ::
  "'d::linordered_idom out_env \<Rightarrow> string \<Rightarrow> nat \<times> 'd bb_order \<Rightarrow> 'd core_engine \<Rightarrow> contract_out \<Rightarrow> ('d core_engine \<times> contract_out) option" where
  "contract_step env symbol i e st =
     (case i of (now, ord) \<Rightarrow>
        (case core_on_order (oe_bd env) ord e of
           None \<Rightarrow> None
         | Some (e', evs) \<Rightarrow> Some (e', handle_events env now symbol evs e' st)))"

definition contract_worker ::
  "'d::linordered_idom out_env \<Rightarrow> string \<Rightarrow> (nat \<times> 'd bb_order) list \<Rightarrow> contract_out \<Rightarrow> ('d core_engine \<times> contract_out) option" where
  "contract_worker env symbol ords st = work (contract_step env symbol) ords core_engine_new st"

text \<open>With the feature \<open>hp-engine\<close>: an order the adapter refuses is skipped.\<close>

definition tick_step ::
  "'d out_env \<Rightarrow> string \<Rightarrow> symbol_scale \<Rightarrow> nat \<times> 'd bb_order \<Rightarrow> hp_engine \<Rightarrow> contract_out \<Rightarrow> (hp_engine \<times> contract_out) option" where
  "tick_step env symbol sc i e st =
     (case i of (now, ord) \<Rightarrow>
        (case from_bb_order (oe_bd env) sc ord of
           Inl er \<Rightarrow> Some (e, st)
         | Inr cmd \<Rightarrow> map_option (\<lambda>e'. (e', handle_hp_events env now symbol (events e') e' sc st)) (on_order cmd e)))"

definition tick_worker ::
  "'d out_env \<Rightarrow> string \<Rightarrow> symbol_scale \<Rightarrow> (nat \<times> 'd bb_order) list \<Rightarrow> contract_out \<Rightarrow> (hp_engine \<times> contract_out) option" where
  "tick_worker env symbol sc ords st = work (tick_step env symbol sc) ords (engine_with_capacity 4096 64) st"

section \<open>What a run owes\<close>

fun owed ::
  "('i \<Rightarrow> 'e \<Rightarrow> 's \<Rightarrow> ('e \<times> 's) option) \<Rightarrow> ('i \<Rightarrow> 'e \<Rightarrow> 's \<Rightarrow> (string \<times> bytes) list) \<Rightarrow> 'i list \<Rightarrow> 'e \<Rightarrow> 's \<Rightarrow> (string \<times> bytes) list" where
  "owed f msgs [] e st = []"
| "owed f msgs (i # is) e st = msgs i e st @ (case f i e st of None \<Rightarrow> [] | Some (e', st') \<Rightarrow> owed f msgs is e' st')"

definition spot_step_messages ::
  "'d::linordered_idom out_env \<Rightarrow> string \<Rightarrow> nat \<times> 'd bb_order \<Rightarrow> 'd core_engine \<Rightarrow> spot_out \<Rightarrow> (string \<times> bytes) list" where
  "spot_step_messages env symbol i e st =
     (case i of (now, ord) \<Rightarrow>
        (case core_on_order (oe_bd env) ord e of None \<Rightarrow> [] | Some (e', evs) \<Rightarrow> spot_messages env now symbol ord evs e' st))"

definition contract_step_messages ::
  "'d::linordered_idom out_env \<Rightarrow> string \<Rightarrow> nat \<times> 'd bb_order \<Rightarrow> 'd core_engine \<Rightarrow> contract_out \<Rightarrow> (string \<times> bytes) list" where
  "contract_step_messages env symbol i e st =
     (case i of (now, ord) \<Rightarrow>
        (case core_on_order (oe_bd env) ord e of
           None \<Rightarrow> []
         | Some (e', evs) \<Rightarrow> contract_messages env now symbol (map event_payload evs) (contract_snapshot env symbol e') st))"

definition tick_step_messages ::
  "'d::linordered_idom out_env \<Rightarrow> string \<Rightarrow> symbol_scale \<Rightarrow> nat \<times> 'd bb_order \<Rightarrow> hp_engine \<Rightarrow> contract_out \<Rightarrow> (string \<times> bytes) list" where
  "tick_step_messages env symbol sc i e st =
     (case i of (now, ord) \<Rightarrow>
        (case from_bb_order (oe_bd env) sc ord of
           Inl er \<Rightarrow> []
         | Inr cmd \<Rightarrow>
             (case on_order cmd e of
                None \<Rightarrow> []
              | Some e' \<Rightarrow> contract_messages env now symbol (map (hp_payload sc symbol) (filter (\<lambda>ev. \<not> is_Rest ev) (events e'))) (hp_snapshot sc symbol e') st)))"

section \<open>Adapted commands\<close>

lemma parse_i64_ok: "parse_i64 s = Some v \<Longrightarrow> i64_ok v"
  by (auto simp: parse_i64_def Let_def Option.bind_eq_Some_conv split: if_splits prod.splits)

lemma parse_fixed_ok: "parse_fixed s n = Inr v \<Longrightarrow> i64_ok v"
  by (auto simp: parse_fixed_def parse_parts_def Let_def i64_ok_def dest!: parse_i64_ok split: if_splits option.splits)

lemma adapted_typed: "from_bb_order bd sc ord = Inr cmd \<Longrightarrow> cmd_typed cmd"
  by (auto simp: from_bb_order_def decimal_to_tick_def decimal_to_lot_def to_tick_def to_lot_def u32_opt_def
      dest: parse_fixed_ok split: if_splits sum.splits option.splits)

section \<open>Runs\<close>

text \<open>
  The contract of a step: in an environment that serializes, a good input in a good state is
  handled to the end, leaves a good state, and sends just its messages.
\<close>

locale served =
  fixes env :: "'d out_env" and step :: "'i \<Rightarrow> 'e \<Rightarrow> 's \<Rightarrow> ('e \<times> 's) option" and msgs :: "'i \<Rightarrow> 'e \<Rightarrow> 's \<Rightarrow> (string \<times> bytes) list"
    and chan :: "'s \<Rightarrow> out_chan" and good :: "'i \<Rightarrow> bool" and inv :: "'e \<Rightarrow> bool"
  assumes step_serves: "serializes env \<Longrightarrow> good i \<Longrightarrow> inv e \<Longrightarrow>
    \<exists>e' st'. step i e st = Some (e', st') \<and> inv e' \<and> chan st' = deliver env (msgs i e st) (chan st)"
begin

lemma work_serves:
  assumes "serializes env"
  shows "list_all good is \<Longrightarrow> inv e \<Longrightarrow>
    \<exists>e' st'. work step is e st = Some (e', st') \<and> inv e' \<and> chan st' = deliver env (owed step msgs is e st) (chan st)"
proof (induction "is" arbitrary: e st)
  case (Cons i "is")
  obtain e1 st1 where "step i e st = Some (e1, st1)" "inv e1" "chan st1 = deliver env (msgs i e st) (chan st)"
    using step_serves [OF assms, of i e st] Cons.prems by auto
  then show ?case using Cons.IH [of e1 st1] Cons.prems(1) by simp
qed simp

end

lemma core_step_ok:
  assumes "accepted ord" and "core_reach bd e"
  shows "\<exists>e' evs. core_on_order bd ord e = Some (e', evs) \<and> core_reach bd e'"
  using core_run_reach [OF assms(2), of "[ord]"] assms(1) by (auto split: option.splits)

interpretation spot_served: served env "spot_step env symbol" "spot_step_messages env symbol" so_chan "\<lambda>(now, ord). accepted ord" "core_reach (oe_bd env)"
  for env :: "'d::linordered_idom out_env" and symbol
proof
  fix i :: "nat \<times> 'd bb_order" and e st
  assume s: "serializes env" "case i of (now, ord) \<Rightarrow> accepted ord" "core_reach (oe_bd env) e"
  obtain now ord where i: "i = (now, ord)" by (cases i)
  obtain e' evs where on: "core_on_order (oe_bd env) ord e = Some (e', evs)" "core_reach (oe_bd env) e'"
    using core_step_ok [of ord "oe_bd env" e] s i by auto
  show "\<exists>e' st'. spot_step env symbol i e st = Some (e', st') \<and> core_reach (oe_bd env) e' \<and>
      so_chan st' = deliver env (spot_step_messages env symbol i e st) (so_chan st)"
    using order_result_moves [OF s(1), of now symbol ord evs e' st] i on by (auto simp: spot_step_def spot_step_messages_def moves_def)
qed

interpretation contract_served: served env "contract_step env symbol" "contract_step_messages env symbol" ko_chan "\<lambda>(now, ord). accepted ord" "core_reach (oe_bd env)"
  for env :: "'d::linordered_idom out_env" and symbol
proof
  fix i :: "nat \<times> 'd bb_order" and e st
  assume s: "serializes env" "case i of (now, ord) \<Rightarrow> accepted ord" "core_reach (oe_bd env) e"
  obtain now ord where i: "i = (now, ord)" by (cases i)
  obtain e' evs where on: "core_on_order (oe_bd env) ord e = Some (e', evs)" "core_reach (oe_bd env) e'"
    using core_step_ok [of ord "oe_bd env" e] s i by auto
  have "ko_chan (handle_events env now symbol evs e' st) =
      deliver env (contract_messages env now symbol (map event_payload evs) (contract_snapshot env symbol e') st) (ko_chan st)"
    by (rule contract_events_sent [OF s(1)])
  then show "\<exists>e' st'. contract_step env symbol i e st = Some (e', st') \<and> core_reach (oe_bd env) e' \<and>
      ko_chan st' = deliver env (contract_step_messages env symbol i e st) (ko_chan st)"
    using i on by (simp add: contract_step_def contract_step_messages_def)
qed

lemma tick_step_ok:
  assumes "from_bb_order bd sc ord = Inr cmd" and "reach False e"
  shows "\<exists>e'. on_order cmd e = Some e' \<and> reach False e'"
proof -
  have t: "cmd_typed cmd" by (rule adapted_typed [OF assms(1)])
  have "engine_inv False e" using reach_inv [OF assms(2)] by (simp add: engine_inv_def clients_inv_def)
  then obtain e' where "on_order cmd e = Some e'" using on_order_keeps [of False e cmd] t by auto
  then show ?thesis using reach_step [OF assms(2) t] by auto
qed

interpretation tick_served: served env "tick_step env symbol sc" "tick_step_messages env symbol sc" ko_chan "\<lambda>_. True" "reach False"
  for env :: "'d::linordered_idom out_env" and symbol sc
proof
  fix i :: "nat \<times> 'd bb_order" and e st
  assume s: "serializes env" "reach False e"
  obtain now ord where i: "i = (now, ord)" by (cases i)
  show "\<exists>e' st'. tick_step env symbol sc i e st = Some (e', st') \<and> reach False e' \<and>
      ko_chan st' = deliver env (tick_step_messages env symbol sc i e st) (ko_chan st)"
  proof (cases "from_bb_order (oe_bd env) sc ord")
    case (Inl er)
    then show ?thesis using s(2) i by (simp add: tick_step_def tick_step_messages_def)
  next
    case (Inr cmd)
    obtain e' where on: "on_order cmd e = Some e'" "reach False e'" using tick_step_ok [OF Inr s(2)] by blast
    have "ko_chan (handle_hp_events env now symbol (events e') e' sc st) =
        deliver env (contract_messages env now symbol (map (hp_payload sc symbol) (filter (\<lambda>ev. \<not> is_Rest ev) (events e'))) (hp_snapshot sc symbol e') st) (ko_chan st)"
      by (rule contract_hp_events_sent [OF s(1)])
    then show ?thesis using i Inr on by (simp add: tick_step_def tick_step_messages_def)
  qed
qed

text \<open>The decimal workers run their engine on exactly the orders they receive.\<close>

lemma contract_work_runs: "work (contract_step env symbol) ords e st = Some (e', st') \<Longrightarrow> core_run (oe_bd env) (map snd ords) e = Some e'"
  by (induction ords arbitrary: e st) (auto simp: contract_step_def split: option.splits)

lemma spot_work_runs: "work (spot_step env symbol) ords e st = Some (e', st') \<Longrightarrow> core_run (oe_bd env) (map snd ords) e = Some e'"
  by (induction ords arbitrary: e st) (auto simp: spot_step_def split: option.splits)

lemma contract_worker_serves:
  assumes "serializes env" and "list_all accepted (map snd ords)"
  shows "\<exists>e' st'. contract_worker env symbol ords st = Some (e', st') \<and> core_reach (oe_bd env) e' \<and>
    core_run (oe_bd env) (map snd ords) core_engine_new = Some e' \<and>
    ko_chan st' = deliver env (owed (contract_step env symbol) (contract_step_messages env symbol) ords core_engine_new st) (ko_chan st)"
proof -
  have "list_all (\<lambda>(now, ord). accepted ord) ords" using assms(2) by (simp add: list_all_iff split_beta)
  from contract_served.work_serves [OF assms(1) this core_reach_new, of symbol st]
  show ?thesis using contract_work_runs unfolding contract_worker_def by blast
qed

lemma spot_worker_serves:
  assumes "serializes env" and "list_all accepted (map snd ords)"
  shows "\<exists>e' st'. spot_worker env symbol ords st = Some (e', st') \<and> core_reach (oe_bd env) e' \<and>
    core_run (oe_bd env) (map snd ords) core_engine_new = Some e' \<and>
    so_chan st' = deliver env (owed (spot_step env symbol) (spot_step_messages env symbol) ords core_engine_new st) (so_chan st)"
proof -
  have "list_all (\<lambda>(now, ord). accepted ord) ords" using assms(2) by (simp add: list_all_iff split_beta)
  from spot_served.work_serves [OF assms(1) this core_reach_new, of symbol st]
  show ?thesis using spot_work_runs unfolding spot_worker_def by blast
qed

lemma tick_worker_serves:
  assumes "serializes env"
  shows "\<exists>e' st'. tick_worker env symbol sc ords st = Some (e', st') \<and> reach False e' \<and>
    ko_chan st' = deliver env (owed (tick_step env symbol sc) (tick_step_messages env symbol sc) ords (engine_with_capacity 4096 64) st) (ko_chan st)"
  using tick_served.work_serves [OF assms _ reach_cap, of ords symbol sc 4096 64 st] by (simp add: tick_worker_def list_all_iff)

end
