(* ===== verification/Spec2Isabelle.thy ===== *)
theory Spec2Isabelle
  imports Hp_Props Hp_Scale Hp_Worker Core_Props Core_Forms Core_Depth Inbound_Props Raft_Props
    Art_Props Journal Mold_Props Udp_Props Soup_Session Ouch Wal Outbound_Props
    Spot_Depth Symbol_Worker
begin

text \<open>
  A verification of \<open>match-rust\<close>: two matching engines, the indexes, journals and queues around
  them, the wire protocols that carry orders and market data, and the services that connect
  all of this.  Paths are below \<open>src/crates\<close>.

  \<^bold>\<open>Conventions.\<close>  A function of the program is a HOL function of the same name where HOL allows
  it.  State is a record that is passed and returned.  A panic, and a call that does not
  return, is \<^const>\<open>None\<close>; an error value is the left side of a sum.  \<open>i64\<close> is \<^typ>\<open>int\<close> with the
  two's complement wrap written out (\<^const>\<open>i64_add\<close>, \<^const>\<open>i64_ok\<close>), counters are \<open>64 word\<close> or
  \<^typ>\<open>nat\<close> with the modulus written out, wire data are lists of \<open>8 word\<close>.  A \<open>BTreeMap\<close> is a
  sorted association list.  \<open>BigDecimal\<close> is a type variable of class \<open>linordered_idom\<close>, which is
  the documented exact arithmetic, and a record of the operations that round or print.
  Serializers, sockets, files, clocks and third-party channels are arguments; where the code
  relies on them the hypothesis is named (\<^const>\<open>send_appends\<close>, \<^const>\<open>serializes\<close>).

  \<^bold>\<open>Shared theories.\<close>  \<open>Prelude\<close>: machine integers, byte encodings, sorted association lists.
  \<open>Rust_Text\<close> and \<open>Rust_Str\<close>: the string functions of the standard library on characters and on
  UTF-8 bytes.  \<open>Numbered\<close>: messages under consecutive numbers.

  \<^bold>\<open>Tick engine\<close> (\<open>match-core-hp/src\<close>).  \<open>Hp_Types\<close> and \<open>Order_Store\<close> (\<open>types.rs\<close>, \<open>level.rs\<close>,
  \<open>order_store.rs\<close>): data and the slots with their free list.  \<open>Level_Index\<close> (\<open>level_index.rs\<close>): the
  two level maps, as interpretations of the locale \<open>level_index\<close>.  \<open>Hp_Book\<close> (\<open>book.rs\<close>) and
  \<open>Hp_Book_Inv\<close>: the book and that its operations keep \<^const>\<open>book_inv\<close>.  \<open>Hp_Engine\<close>
  (\<open>engine.rs\<close>): the three commands with both matching loops, whose termination rests on the
  number of live orders.  \<open>Hp_Spec\<close> states the same on two plain queues, \<open>Hp_Refine\<close> proves
  that the engine does just this, \<open>Hp_Props\<close> draws the conclusions for all runs: no panic, never
  crossed, price-time priority, conservation, and exact cancellation, by client for clients other than 0.
  \<open>Art_Index\<close> and \<open>Art_Props\<close> (\<open>art_index.rs\<close>): the radix tree implements the same interface
  (locale \<open>tick_index\<close>, of which \<open>level_index\<close> is an instance).  \<open>Hp_Scale\<close> (\<open>scale.rs\<close>):
  decimal text and ticks.  \<open>Spsc\<close> (\<open>spsc.rs\<close>): the command ring on wrapping cursors, every
  interleaving of the two threads, and the locale \<open>fifo\<close>.  \<open>Hp_Worker\<close> (\<open>worker.rs\<close>): the
  polling loop, which is \<open>partial_function\<close> because it need not return.  \<open>Journal\<close>
  (\<open>journal.rs\<close>): the memory-mapped journal with a kernel that writes pages back at any time.

  \<^bold>\<open>Decimal engine\<close> (\<open>match-core/src\<close>).  \<open>Core_Order\<close>, \<open>Core_Book\<close> (\<open>order.rs\<close>, \<open>event.rs\<close>,
  \<open>book.rs\<close>, \<open>depth.rs\<close>): orders, their two comparisons (locale \<open>entry_order\<close>) and the book.
  \<open>Core_Limit\<close>, \<open>Core_Market\<close>, \<open>Core_Handlers\<close>, \<open>Core_Engine\<close> (\<open>match_limit.rs\<close>,
  \<open>match_market.rs\<close>, \<open>handlers/\<close>, \<open>engine.rs\<close>): the handlers of all five order forms in both
  directions, as the code has them.  \<open>Core_Match\<close> shows the directions to be instances of one
  step; \<open>Core_Spec\<close>, \<open>Core_Ioc\<close>, \<open>Core_Mkt\<close>, \<open>Core_Fok\<close> give each form its specification and
  prove that the handler returns and meets it; \<open>Core_Refine\<close> puts them together.
  \<open>Core_Props\<close>, \<open>Core_Forms\<close> and \<open>Core_Depth\<close> hold the properties of all runs.

  \<^bold>\<open>Replication\<close> (\<open>match-raft-fsm/src/lib.rs\<close>).  \<open>Raft_Fsm\<close> and \<open>Raft_Props\<close>: command and event
  formats, application of entries, snapshot and restore.  The log agreement itself is the
  crate \<open>multiraft\<close>, of which only the sequence of applied entries is assumed.

  \<^bold>\<open>Wire protocols.\<close>  \<open>Mold\<close> and \<open>Mold_Props\<close> (\<open>match-moldudp64\<close>): publisher, history,
  retransmission and subscriber.  \<open>Udp_Order\<close> and \<open>Udp_Props\<close> (\<open>match-udp-order\<close>): the
  order-entry session.  In both the network is a step relation that loses, duplicates and
  reorders datagrams, and the properties are invariants of all its runs; sequence numbers are
  taken below the point of wrap-around, which the steps state as a guard.  \<open>Soup_Packet\<close>,
  \<open>Soup_Session\<close> and \<open>Ouch\<close> (\<open>match-soupbintcp\<close>): framing, login with replay, and the six
  order messages.  \<open>Wal\<close> (\<open>match-wal\<close>): the write-ahead log, its producers and its flusher
  interleaved.  A write is a phase of its own, during which records keep coming; that it stops
  at some byte, fails, or that the file does not open are steps, and the bound on the loss is
  for runs in which no write has failed.

  \<^bold>\<open>Services\<close> (\<open>match-protocol\<close>, \<open>match-contract\<close>, \<open>match-spot\<close>).  \<open>Protocol\<close>: validation and
  conversion of messages and symbol keys.  \<open>Inbound\<close> and \<open>Inbound_Props\<close> (\<open>inbound.rs\<close>): routing
  to the queue of a symbol and the duplicate filter of the start-up.  \<open>Outbound\<close>
  (\<open>outbound.rs\<close>, \<open>spot_depth.rs\<close>): payloads, topics, the throttled depth and the error queue.
  \<open>Outbound_Props\<close> states which messages a call owes, apart from the code that selects them, and
  proves that these are sent, queued or, without Redis, lost; \<open>Spot_Depth\<close> relates the depth on
  decimal text to the grouping of the orders by price (hypothesis \<^const>\<open>decimal_text\<close>).
  \<open>Symbol_Worker\<close> (\<open>symbol_worker.rs\<close>, \<open>match-core-hp/src/adapter.rs\<close>): the loop between them
  with either engine; its three steps interpret the locale \<open>served\<close>.  This theory composes
  the chain for the contract service.

  \<^bold>\<open>Bounds.\<close>  No model runs on fuel.  Loops are structural or have a measure, except the
  fill-or-kill walks and the unbounded poll, which are \<open>partial_function\<close>; that the walks
  return on every book the engine can reach is part of \<open>Core_Fok\<close>, and the poll is shown to
  return when its number of idle rounds is bounded and not to return otherwise.

  \<^bold>\<open>Not modelled.\<close>  Sockets, files, memory maps, thread creation, CPU pinning, health endpoints,
  metrics and log lines; the Redis, RocketMQ and HTTP clients; \<open>match-dpdk-io\<close>, which binds a C
  library; \<open>match-replay\<close>, a test tool on JSON transcripts; and the benchmark and gateway
  binaries, which drive the libraries above.  Atomics of the ring are taken as sequentially
  consistent, and the multicast publisher as used by one thread.
\<close>

section \<open>The contract service from end to end\<close>

text \<open>
  C6. Composition of router, queue, worker, engine and outbound path: whatever messages
  arrive, a worker that drains the queue of its symbol gets to the end with either engine.
  The decimal engine has run exactly the queued orders and its book is uncrossed; the tick
  engine has not panicked and its book satisfies the invariant.  The messages the run owes to
  the broker reach it in order, except those it refuses; of these the error queue gets each one
  whose \<open>LPUSH\<close> Redis accepts, and the others (no Redis, or a refused push) are lost.  The
  hypotheses are that the channel of a queue appends, that the queues held only checked orders
  before, and that serialization does not fail.
\<close>
theorem contract_end_to_end:
  assumes "send_appends try_send received" and "router_ok received r" and "queues (handle_batch ps try_send mqs r) sy = Some tx"
    and "serializes env" and "map snd ords = received tx"
  shows "(\<exists>e' st'. contract_worker env sy ords st = Some (e', st') \<and>
      core_run (oe_bd env) (received tx) core_engine_new = Some e' \<and> ob_uncrossed (book_of e' sy) \<and>
      all_accounted env (owed (contract_step env sy) (contract_step_messages env sy) ords core_engine_new st) (ko_chan st) (ko_chan st')) \<and>
    (\<exists>e' st'. tick_worker env sy sc ords st = Some (e', st') \<and> book_inv {} (book e') \<and>
      all_accounted env (owed (tick_step env sy sc) (tick_step_messages env sy sc) ords (engine_with_capacity 4096 64) st) (ko_chan st) (ko_chan st'))"
proof -
  have "list_all (queued_ok sy) (received tx)"
    using handle_batch_ok [OF assms(1,2), of ps mqs] assms(3) by (simp add: router_ok_def)
  then have "list_all accepted (map snd ords)" by (auto simp: assms(5) list_all_iff queued_ok_def)
  from contract_worker_serves [OF assms(4) this, of sy st]
  obtain e1 st1 where 1: "contract_worker env sy ords st = Some (e1, st1)" "core_reach (oe_bd env) e1"
    "core_run (oe_bd env) (received tx) core_engine_new = Some e1"
    "ko_chan st1 = deliver env (owed (contract_step env sy) (contract_step_messages env sy) ords core_engine_new st) (ko_chan st)"
    unfolding assms(5) by blast
  obtain e2 st2 where 2: "tick_worker env sy sc ords st = Some (e2, st2)" "reach False e2"
    "ko_chan st2 = deliver env (owed (tick_step env sy sc) (tick_step_messages env sy sc) ords (engine_with_capacity 4096 64) st) (ko_chan st)"
    using tick_worker_serves [OF assms(4)] by blast
  show ?thesis
    using 1 2 core_reach_book [OF 1(2), of sy] reach_inv [OF 2(2)] deliver_accounted by (auto simp: engine_inv_def)
qed

theorem contract_end_to_end_witness:
  "\<exists>tx e' st' he' ht'. queues (handle_batch parse_i64 demo_send [demo_mq ''8''] demo_router) ''btcusdt'' = Some tx \<and> nos tx = [''8''] \<and>
    contract_worker out_demo ''btcusdt'' (map (Pair 5) tx) (contract_out_new True 0) = Some (e', st') \<and>
    ob_uncrossed (book_of e' ''btcusdt'') \<and>
    tick_worker out_demo ''btcusdt'' \<lparr>price_scale = 2, qty_scale = 2\<rparr> (map (Pair 5) tx) (contract_out_new True 0) = Some (he', ht') \<and>
    book_inv {} (book he')"
proof -
  let ?q = "queues (handle_batch parse_i64 demo_send [demo_mq ''8''] demo_router) ''btcusdt''"
  have "map_option nos ?q = Some [''8'']" by code_simp
  then obtain tx where q: "?q = Some tx" "nos tx = [''8'']" unfolding map_option_eq_Some by (elim exE conjE)
  have env: "serializes out_demo" by (simp add: serializes_def out_demo_def)
  have "map snd (map (Pair (5::nat)) tx) = id tx" by (simp add: comp_def)
  from contract_end_to_end [OF demo_send_appends demo_router_ok q(1) env this, of "contract_out_new True 0" "\<lparr>price_scale = 2, qty_scale = 2\<rparr>"]
  show ?thesis using q by (elim conjE exE) (rule exI [of _ tx], simp)
qed

end
